(* ===== verification/Nex_Prelude.thy ===== *)
theory Nex_Prelude
  imports Main "HOL-Library.Word" "HOL-Library.Multiset"
begin

text \<open>
  Shared vocabulary of the NexCache development.

  The theory names the C integer types (\<open>u8\<close>, \<open>u16\<close>, \<open>u32\<close>, \<open>u64\<close>: words that wrap around),
  gives the three array idioms that the NexCache modules use again and again as HOL functions
  (the linear search loop with an early return, the removal that moves the last element into the
  hole, the little-endian image that \<open>memcpy\<close> of an integer produces), and proves the generic
  facts about them.  It also models the FNV-1a hash that several modules carry a copy of.

  Conventions of all theories: a handle (\<open>NexDashTable *t\<close>, \<open>ORSet *s\<close>, ...) is the record it
  points to, so it is never \<open>NULL\<close>; a data pointer whose \<open>NULL\<close> value the code checks is an
  \<open>option\<close>; a buffer with its length is a byte list; the clock that \<open>gettimeofday\<close> or \<open>time\<close>
  reads and the success of a memory allocation are arguments.
\<close>

unbundle bit_operations_syntax

type_synonym u8 = "8 word"
type_synonym u16 = "16 word"
type_synonym u32 = "32 word"
type_synonym u64 = "64 word"
type_synonym bytes = "u8 list"

named_theorems nex_defs \<open>definitions unfolded by the component proofs\<close>
named_theorems nex_upd \<open>reads after writes of the component states\<close>

subsection \<open>The linear search loop\<close>

text \<open>
  \<open>for (i = 0; i < n; i++) if (P(a[i])) return i;\<close> as a recursive function.
\<close>

fun find_index :: "('a \<Rightarrow> bool) \<Rightarrow> 'a list \<Rightarrow> nat option" where
  "find_index P [] = None"
| "find_index P (x # xs) = (if P x then Some 0 else map_option Suc (find_index P xs))"

lemma find_index_None: "find_index P xs = None \<longleftrightarrow> (\<forall>x\<in>set xs. \<not> P x)"
  by (induction xs) auto

lemma find_index_SomeD:
  "find_index P xs = Some i \<Longrightarrow> i < length xs \<and> P (xs ! i) \<and> (\<forall>j<i. \<not> P (xs ! j))"
proof (induction xs arbitrary: i)
  case Nil
  then show ?case by simp
next
  case (Cons x xs)
  show ?case
  proof (cases "P x")
    case True
    with Cons.prems show ?thesis by simp
  next
    case False
    with Cons.prems obtain k where k: "find_index P xs = Some k" "i = Suc k" by auto
    with Cons.IH [OF k(1)] False show ?thesis
      by (auto simp: less_Suc_eq_0_disj)
  qed
qed

lemma find_index_Some_iff:
  "find_index P xs = Some i \<longleftrightarrow> i < length xs \<and> P (xs ! i) \<and> (\<forall>j<i. \<not> P (xs ! j))"
proof
  assume r: "i < length xs \<and> P (xs ! i) \<and> (\<forall>j<i. \<not> P (xs ! j))"
  then have "find_index P xs \<noteq> None" by (auto simp: find_index_None)
  then obtain k where k: "find_index P xs = Some k" by auto
  from find_index_SomeD [OF k] r have "k = i"
    by (metis linorder_neqE_nat)
  with k show "find_index P xs = Some i" by simp
qed (rule find_index_SomeD)

lemma find_index_append:
  "find_index P (xs @ ys) =
     (case find_index P xs of Some i \<Rightarrow> Some i
      | None \<Rightarrow> map_option (\<lambda>i. i + length xs) (find_index P ys))"
  by (induction xs) (auto simp: option.map_comp option.map_ident comp_def split: option.splits)

lemma find_index_cong:
  "(\<And>x. x \<in> set xs \<Longrightarrow> P x = Q x) \<Longrightarrow> find_index P xs = find_index Q xs"
  by (induction xs) auto

lemma length_filter_mono: "(\<And>x. P x \<Longrightarrow> Q x) \<Longrightarrow> length (filter P xs) \<le> length (filter Q xs)"
  by (induction xs) (auto simp: le_SucI)

lemma find_SomeD: "find P xs = Some x \<Longrightarrow> P x \<and> x \<in> set xs"
  by (induction xs) (auto split: if_splits)

subsection \<open>Removal by moving the last element into the hole\<close>

text \<open>\<open>a[i] = a[--count];\<close> on the first \<open>count\<close> elements of the array.\<close>

definition swap_remove :: "nat \<Rightarrow> 'a list \<Rightarrow> 'a list" where
  "swap_remove i xs = butlast (xs[i := last xs])"

lemma length_swap_remove [simp]: "length (swap_remove i xs) = length xs - 1"
  by (simp add: swap_remove_def)

lemma swap_remove_snoc:
  "i \<le> length xs \<Longrightarrow> swap_remove i (xs @ [x]) = (if i = length xs then xs else xs[i := x])"
  by (auto simp: swap_remove_def list_update_append butlast_append)

lemma mset_swap_remove:
  assumes "i < length xs"
  shows "mset (swap_remove i xs) = mset xs - {#xs ! i#}"
proof (cases xs rule: rev_cases)
  case (snoc ys z)
  with assms show ?thesis
    by (cases "i = length ys") (auto simp: swap_remove_snoc nth_append mset_update)
qed (use assms in simp)

lemma set_swap_remove_subset: "i < length xs \<Longrightarrow> set (swap_remove i xs) \<subseteq> set xs"
  by (metis diff_subset_eq_self mset_swap_remove set_mset_mset set_mset_mono)

lemma set_swap_remove:
  assumes "i < length xs" and "distinct xs"
  shows "set (swap_remove i xs) = set xs - {xs ! i}"
proof -
  have "set (swap_remove i xs) = set_mset (mset xs - {#xs ! i#})"
    using assms(1) by (metis mset_swap_remove set_mset_mset)
  also have "mset xs - {#xs ! i#} = mset (remove1 (xs ! i) xs)"
    by simp
  also have "set_mset \<dots> = set xs - {xs ! i}"
    using assms(2) by (simp only: set_mset_mset set_remove1_eq)
  finally show ?thesis .
qed

lemma distinct_map_swap_remove:
  assumes "i < length xs" and "distinct (map f xs)"
  shows "distinct (map f (swap_remove i xs))"
proof -
  have "mset (map f (swap_remove i xs)) = mset (map f (remove1 (xs ! i) xs))"
    using assms(1) by (simp add: mset_swap_remove)
  then have "distinct (map f (swap_remove i xs)) = distinct (map f (remove1 (xs ! i) xs))"
    by (rule mset_eq_imp_distinct_iff)
  then show ?thesis
    using assms(2) by (auto simp: distinct_map intro: inj_on_subset distinct_remove1 dest: notin_set_remove1)
qed

lemma set_map_swap_remove:
  assumes "i < length xs" and "distinct (map f xs)"
  shows "set (swap_remove i xs) = {x \<in> set xs. f x \<noteq> f (xs ! i)}"
proof -
  have "inj_on f (set xs)" and "distinct xs"
    using assms(2) by (auto simp: distinct_map)
  then show ?thesis
    using assms(1) by (auto simp: set_swap_remove inj_on_def)
qed

subsection \<open>Little-endian images of integers\<close>

text \<open>
  \<open>memcpy(dst, &w, n)\<close> on the little-endian targets of the code, and reading the integer back.
\<close>

primrec le_enc :: "nat \<Rightarrow> 'a::len word \<Rightarrow> bytes" where
  "le_enc 0 w = []"
| "le_enc (Suc n) w = ucast w # le_enc n (drop_bit 8 w)"

primrec le_dec :: "bytes \<Rightarrow> 'a::len word" where
  "le_dec [] = 0"
| "le_dec (b # bs) = ucast b OR push_bit 8 (le_dec bs)"

lemma length_le_enc [simp]: "length (le_enc n w) = n"
  by (induction n arbitrary: w) auto

lemma le_dec_enc_take: "le_dec (le_enc n w) = take_bit (8 * n) (w :: 'a::len word)"
proof (induction n arbitrary: w)
  case (Suc n)
  show ?case
    by (rule bit_word_eqI) (auto simp: Suc.IH bit_simps)
qed simp

lemma le_dec_enc [simp]: "LENGTH('a) \<le> 8 * n \<Longrightarrow> le_dec (le_enc n w) = (w :: 'a::len word)"
  by (simp add: le_dec_enc_take take_bit_word_eq_self)

lemma drop_plus_append: "length xs = m \<Longrightarrow> drop (m + k) (xs @ ys) = drop k ys"
  by simp

text \<open>Reading and writing a range of a buffer, as \<open>memcpy\<close> from and to it does.\<close>

definition buf_read :: "'a list \<Rightarrow> nat \<Rightarrow> nat \<Rightarrow> 'a list" where
  "buf_read buf off n = take n (drop off buf)"

definition buf_write :: "'a list \<Rightarrow> nat \<Rightarrow> 'a list \<Rightarrow> 'a list" where
  "buf_write buf off xs = take off buf @ xs @ drop (off + length xs) buf"

lemma length_buf_read: "off + n \<le> length buf \<Longrightarrow> length (buf_read buf off n) = n"
  by (simp add: buf_read_def)

lemma length_buf_write [simp]: "off + length xs \<le> length buf \<Longrightarrow> length (buf_write buf off xs) = length buf"
  by (simp add: buf_write_def)

lemma buf_read_write_below: "i + n \<le> off \<Longrightarrow> off \<le> length buf \<Longrightarrow> buf_read (buf_write buf off xs) i n = buf_read buf i n"
  unfolding buf_read_def buf_write_def by (rule nth_equalityI) (auto simp: nth_append)

lemma buf_read_write_in:
  "off \<le> length buf \<Longrightarrow> i + n \<le> length xs \<Longrightarrow> buf_read (buf_write buf off xs) (off + i) n = buf_read xs i n"
  by (simp add: buf_read_def buf_write_def)

lemma buf_read_split: "buf_read buf off (m + n) = buf_read buf off m @ buf_read buf (off + m) n"
  by (simp add: buf_read_def take_add add.commute)

text \<open>A \<open>write\<close> accepts a prefix of the buffer and returns its length, or fails.\<close>

definition os_write :: "int \<Rightarrow> bytes \<Rightarrow> bytes \<Rightarrow> bytes \<times> int" where
  "os_write r buf file =
     (if r < 0 then (file, -1)
      else let n = min (nat r) (length buf) in (file @ take n buf, int n))"

lemma os_write_full: "int (length buf) \<le> r \<Longrightarrow> os_write r buf file = (file @ buf, int (length buf))"
  by (auto simp: os_write_def min_def nat_le_iff)

text \<open>Cutting a sequence of fixed-size records back into its records.\<close>

lemma concat_chunks:
  assumes "\<forall>x \<in> set xs. length (g x) = k"
  shows "map (\<lambda>i. f (take k (drop (k * i) (concat (map g xs))))) [0..<length xs] = map (\<lambda>x. f (g x)) xs"
  using assms
proof (induction xs)
  case (Cons x xs)
  then have "map (\<lambda>i. f (take k (drop (k * i) (concat (map g (x # xs)))))) (map Suc [0..<length xs]) =
      map (\<lambda>x. f (g x)) xs"
    by (simp add: comp_def)
  then have "map (\<lambda>i. f (take k (drop (k * i) (concat (map g (x # xs)))))) (0 # map Suc [0..<length xs]) =
      map (\<lambda>x. f (g x)) (x # xs)"
    using Cons.prems by simp
  then show ?case by (simp only: map_Suc_upt length_Cons upt_conv_Cons zero_less_Suc simp_thms if_True)
qed simp

lemma length_concat_chunks:
  "\<forall>x \<in> set xs. length (g x) = k \<Longrightarrow> length (concat (map g xs)) = k * length xs"
  by (induction xs) auto

subsection \<open>Integers and words\<close>

lemma nat_min_distrib: "nat (min a b) = min (nat a) (nat b)"
  by (auto simp: min_def)

lemma nat_max_distrib: "nat (max a b) = max (nat a) (nat b)"
  by (auto simp: max_def)

lemma unat_bound: "unat (w :: 'a::len word) < 2 ^ LENGTH('a)"
  by (rule unsigned_less)

lemma unat_of_nat_eq: "n < 2 ^ LENGTH('a) \<Longrightarrow> unat (of_nat n :: 'a::len word) = n"
  by (simp add: unsigned_of_nat take_bit_nat_eq_self)

lemma unat_ucast: "unat (ucast w :: 'b::len word) = unat (w :: 'a::len word) mod 2 ^ LENGTH('b)"
  by (simp add: unsigned_ucast_eq take_bit_eq_mod)

lemma unat_u8_le: "unat (w :: u8) \<le> 255"
  using unat_bound [of w] by simp

lemma not_bit_above:
  assumes "(w :: 'a::len word) < 2 ^ n" "n \<le> k"
  shows "\<not> bit w k"
proof
  assume b: "bit w k"
  then have "bit (unat w) k" by (simp add: bit_unsigned_iff)
  then have "\<not> unat w < 2 ^ k" by (auto simp: bit_iff_odd)
  moreover have "unat w < 2 ^ n"
  proof -
    have "(2 :: 'a word) ^ n = of_nat (2 ^ n)" by simp
    then have "unat ((2 :: 'a word) ^ n) \<le> 2 ^ n" by (simp only: unsigned_of_nat of_nat_id take_bit_nat_less_eq_self)
    with assms(1) show ?thesis by (simp add: word_less_nat_alt)
  qed
  moreover have "(2 :: nat) ^ n \<le> 2 ^ k" using assms(2) by (intro power_increasing) auto
  ultimately show False by simp
qed

lemma not_bit_unat: "unat (w :: 'a::len word) < 2 ^ n \<Longrightarrow> n \<le> k \<Longrightarrow> \<not> bit w k"
proof
  assume a: "unat w < 2 ^ n" "n \<le> k" "bit w k"
  then have "bit (unat w) k" by (simp add: bit_unsigned_iff)
  then have "\<not> unat w < 2 ^ k" by (auto simp: bit_iff_odd)
  moreover have "(2 :: nat) ^ n \<le> 2 ^ k" using a(2) by (intro power_increasing) auto
  ultimately show False using a(1) by simp
qed

text \<open>Testing, setting and clearing one bit of a mask, as \<open>&\<close>, \<open>|=\<close> and \<open>&= ~\<close> do.\<close>

lemma and_bit_mask: "(w :: 'a::len word) AND 2 ^ n = 0 \<longleftrightarrow> \<not> bit w n"
proof -
  have "w AND 2 ^ n = 0 \<longleftrightarrow> (\<forall>k. \<not> bit (w AND 2 ^ n) k)"
    by (metis bit_eq_iff bit_0_eq bot_apply bot_bool_def)
  also have "\<dots> \<longleftrightarrow> \<not> bit w n"
    by (auto simp: bit_simps dest: bit_imp_le_length)
  finally show ?thesis .
qed

lemma bit_or_mask: "n < LENGTH('a) \<Longrightarrow> bit ((w :: 'a::len word) OR push_bit n 1) k \<longleftrightarrow> bit w k \<or> k = n"
  by (auto simp: bit_simps dest: bit_imp_le_length)

lemma bit_and_not_mask: "bit ((w :: 'a::len word) AND NOT (push_bit n 1)) k \<longleftrightarrow> bit w k \<and> k \<noteq> n"
  by (auto simp: bit_simps dest: bit_imp_le_length)

lemmas bit_or_exp = bit_or_mask [simplified]

lemmas bit_and_not_exp = bit_and_not_mask [simplified]

subsection \<open>C strings\<close>

text \<open>The bytes of a string literal.\<close>

definition str :: "string \<Rightarrow> bytes" where
  "str s = map of_char s"

text \<open>
  \<open>strstr\<close>, and \<open>atol\<close> and \<open>atoll\<close>: white space, a sign, decimal digits, the value held within the
  64-bit range as \<open>strtol\<close> does.
\<close>

fun c_strstr :: "bytes \<Rightarrow> bytes \<Rightarrow> bytes option" where
  "c_strstr [] pat = (if pat = [] then Some [] else None)"
| "c_strstr (c # cs) pat = (if take (length pat) (c # cs) = pat then Some (c # cs) else c_strstr cs pat)"

definition c_digit :: "u8 \<Rightarrow> bool" where
  "c_digit c \<longleftrightarrow> 48 \<le> c \<and> c \<le> 57"

definition c_space :: "u8 \<Rightarrow> bool" where
  "c_space c \<longleftrightarrow> c = 32 \<or> (9 \<le> c \<and> c \<le> 13)"

definition c_digits :: "bytes \<Rightarrow> int" where
  "c_digits bs = foldl (\<lambda>n c. n * 10 + (uint c - 48)) 0 (takeWhile c_digit bs)"

definition c_atol :: "bytes \<Rightarrow> int" where
  "c_atol bs =
     max (- (2 ^ 63)) (min (2 ^ 63 - 1)
       (case dropWhile c_space bs of
          [] \<Rightarrow> 0
        | c # cs \<Rightarrow> if c = 45 then - c_digits cs else if c = 43 then c_digits cs else c_digits (c # cs)))"

subsection \<open>FNV-1a\<close>

text \<open>
  The 64-bit FNV-1a hash over unsigned bytes, as \<open>fnv1a_64\<close> of \<open>hashtable/nexdash.c\<close> and
  \<open>seg_hash\<close> of \<open>segcache/segcache.c\<close> compute it.
\<close>

definition fnv1a_64 :: "bytes \<Rightarrow> u64" where
  "fnv1a_64 data =
     foldl (\<lambda>h b. (h XOR ucast b) * 0x100000001b3) 0xcbf29ce484222325 data"

end
