(* ===== verification/Nex_Bloom.thy ===== *)
theory Nex_Bloom
  imports Nex_Prelude
begin

text \<open>
  The blocked Bloom filter of \<open>bloom/nexbloom.c\<close>, and the interface \<open>member_filter\<close> that a
  membership filter promises to the code that skips a lookup when the filter says "absent":
  whatever was added is reported present, and adding more never makes a key absent again.
  \<open>NexDashTable\<close> relies on it through \<open>nexbloom_check\<close>, the key space through the Sovereign
  filter (theory \<open>Nex_Sovereign\<close>).

  The data area is modelled as the array of 64-bit lanes that \<open>((uint64_t *)block)[i]\<close>
  addresses.  Offsets are computed in 32 bits as in the code, so a filter of \<open>2^26\<close> blocks
  (\<open>2^32\<close> bytes) or more would wrap; the well-formedness predicate excludes it.
\<close>

record NexBloom =
  nb_data :: "u64 list"
  nb_num_blocks :: u32
  nb_seed :: u32

definition get_block_index :: "u64 \<Rightarrow> u32 \<Rightarrow> u32" where
  "get_block_index h num_blocks = (ucast (drop_bit 32 h) :: u32) mod num_blocks"

text \<open>The bit that lane \<open>i\<close> of a block gives to a hash: \<open>(h1 + i * h2) % 64\<close> in 32 bits.\<close>

definition lane_bit :: "u64 \<Rightarrow> nat \<Rightarrow> nat" where
  "lane_bit h i = unat ((ucast h + of_nat i * ucast (drop_bit 32 h) :: u32) mod 64)"

text \<open>The first lane of block \<open>bidx\<close>: \<open>nb->data + (bidx * 64)\<close>, eight bytes to a lane.\<close>

definition block_lane :: "u32 \<Rightarrow> nat" where
  "block_lane bidx = unat (bidx * 64) div 8"

definition set_bit_in_block :: "nat \<Rightarrow> u64 \<Rightarrow> u64 list \<Rightarrow> u64 list" where
  "set_bit_in_block off h d =
     fold (\<lambda>i d. d[off + i := d ! (off + i) OR push_bit (lane_bit h i) 1]) [0..<8] d"

definition check_bit_in_block :: "nat \<Rightarrow> u64 \<Rightarrow> u64 list \<Rightarrow> bool" where
  "check_bit_in_block off h d \<longleftrightarrow>
     list_all (\<lambda>i. d ! (off + i) AND push_bit (lane_bit h i) 1 \<noteq> 0) [0..<8]"

text \<open>
  \<open>nexbloom_create\<close> sizes the filter with floating-point logarithms; the model takes the
  truncated result of that computation as its argument and applies the code's floor of one
  block.  \<open>None\<close> is the failed allocation.
\<close>

definition nexbloom_create :: "u32 \<Rightarrow> bool \<Rightarrow> NexBloom option" where
  "nexbloom_create ceil_blocks alloc_ok =
     (let num_blocks = (if ceil_blocks = 0 then 1 else ceil_blocks)
      in if alloc_ok
         then Some \<lparr>nb_data = replicate (unat (num_blocks * 64) div 8) 0,
                    nb_num_blocks = num_blocks, nb_seed = 0x1337BEEF\<rparr>
         else None)"

definition nexbloom_add :: "NexBloom \<Rightarrow> u64 \<Rightarrow> NexBloom" where
  "nexbloom_add nb h =
     nb\<lparr>nb_data := set_bit_in_block (block_lane (get_block_index h (nb_num_blocks nb))) h (nb_data nb)\<rparr>"

definition nexbloom_check :: "NexBloom \<Rightarrow> u64 \<Rightarrow> bool" where
  "nexbloom_check nb h =
     check_bit_in_block (block_lane (get_block_index h (nb_num_blocks nb))) h (nb_data nb)"

definition nexbloom_reset :: "NexBloom \<Rightarrow> NexBloom" where
  "nexbloom_reset nb =
     nb\<lparr>nb_data := replicate (unat (nb_num_blocks nb * 64) div 8) 0 @
                   drop (unat (nb_num_blocks nb * 64) div 8) (nb_data nb)\<rparr>"

definition nexbloom_memory_usage :: "NexBloom \<Rightarrow> u64" where
  "nexbloom_memory_usage nb = ucast (nb_num_blocks nb * 64)"

definition nexbloom_wf :: "NexBloom \<Rightarrow> bool" where
  "nexbloom_wf nb \<longleftrightarrow>
     0 < unat (nb_num_blocks nb) \<and> unat (nb_num_blocks nb) < 2 ^ 26 \<and>
     length (nb_data nb) = 8 * unat (nb_num_blocks nb)"

lemmas nexbloom_defs =
  nexbloom_add_def nexbloom_check_def nexbloom_reset_def nexbloom_wf_def

subsection \<open>The filter interface\<close>

locale member_filter =
  fixes add :: "'f \<Rightarrow> 'k \<Rightarrow> 'f"
    and check :: "'f \<Rightarrow> 'k \<Rightarrow> bool"
    and invar :: "'f \<Rightarrow> bool"
  assumes invar_add: "invar f \<Longrightarrow> invar (add f k)"
    and check_add_same: "invar f \<Longrightarrow> check (add f k) k"
    and check_add_mono: "invar f \<Longrightarrow> check f k \<Longrightarrow> check (add f k') k"
begin

lemma invar_foldl: "invar f \<Longrightarrow> invar (foldl add f ks)"
  by (induction ks arbitrary: f) (auto simp: invar_add)

lemma check_foldl_mono: "invar f \<Longrightarrow> check f k \<Longrightarrow> check (foldl add f ks) k"
  by (induction ks arbitrary: f) (auto simp: invar_add check_add_mono)

text \<open>No false negatives, for any history of additions.\<close>

lemma no_false_negative: "invar f \<Longrightarrow> k \<in> set ks \<Longrightarrow> check (foldl add f ks) k"
proof (induction ks arbitrary: f)
  case (Cons k' ks)
  from Cons.prems(1) have i: "invar (add f k')" by (rule invar_add)
  show ?case
  proof (cases "k = k'")
    case True
    with Cons.prems(1) i show ?thesis
      by (auto intro: check_foldl_mono check_add_same)
  next
    case False
    with Cons.prems(2) Cons.IH [OF i] show ?thesis by simp
  qed
qed simp

end

subsection \<open>The Bloom filter meets the interface\<close>

lemma lane_bit_less: "lane_bit h i < 64"
proof -
  have "unat ((ucast h + of_nat i * ucast (drop_bit 32 h) :: u32) mod 64) < unat (64 :: u32)"
    by (rule unat_mono, rule word_mod_less_divisor) simp
  then show ?thesis by (simp add: lane_bit_def)
qed

lemma length_set_bit_in_block [simp]: "length (set_bit_in_block off h d) = length d"
proof -
  have "length (fold (\<lambda>i d. d[off + i := f i (d ! (off + i))]) is d) = length d" for f "is"
    by (induction "is" arbitrary: d) auto
  then show ?thesis by (simp add: set_bit_in_block_def)
qed

lemma fold_lanes_nth:
  assumes "distinct is" and "j < length d"
  shows "fold (\<lambda>i d. d[off + i := f i (d ! (off + i))]) is d ! j =
     (if off \<le> j \<and> j - off \<in> set is then f (j - off) (d ! j) else d ! j)"
  using assms
proof (induction "is" arbitrary: d)
  case (Cons i "is")
  then show ?case
    by (cases "j = off + i") auto
qed simp

lemma set_bit_in_block_nth:
  "j < length d \<Longrightarrow> set_bit_in_block off h d ! j =
     (if off \<le> j \<and> j < off + 8 then d ! j OR push_bit (lane_bit h (j - off)) 1 else d ! j)"
  unfolding set_bit_in_block_def
  by (subst fold_lanes_nth [where f = "\<lambda>i w. w OR push_bit (lane_bit h i) 1"]) auto

lemma check_bit_in_block_iff:
  "check_bit_in_block off h d \<longleftrightarrow> (\<forall>i<8. bit (d ! (off + i)) (lane_bit h i))"
  by (auto simp: check_bit_in_block_def list_all_iff and_bit_mask)

lemma block_lane_bound:
  assumes "nexbloom_wf nb"
  shows "block_lane (get_block_index h (nb_num_blocks nb)) + 8 \<le> length (nb_data nb)"
proof -
  let ?n = "nb_num_blocks nb" and ?b = "get_block_index h (nb_num_blocks nb)"
  have n: "0 < unat ?n" "unat ?n < 2 ^ 26" "length (nb_data nb) = 8 * unat ?n"
    using assms by (auto simp: nexbloom_wf_def)
  then have "?b < ?n"
    unfolding get_block_index_def
    by (metis word_mod_less_divisor unat_gt_0 word_neq_0_conv)
  then have b: "unat ?b < unat ?n" by (simp add: word_less_nat_alt)
  have "unat ?b * unat (64 :: u32) < 2 ^ LENGTH(32)"
    using b n(2) by simp
  then have "unat (?b * 64) = unat ?b * 64"
    by (subst unat_mult_lem [THEN iffD1]) simp_all
  with b n(3) show ?thesis
    by (simp add: block_lane_def)
qed

interpretation nexbloom: member_filter nexbloom_add nexbloom_check nexbloom_wf
proof
  fix f :: NexBloom and k k' :: u64
  assume wf: "nexbloom_wf f"
  then show "nexbloom_wf (nexbloom_add f k)"
    by (simp add: nexbloom_wf_def nexbloom_add_def)
  let ?off = "\<lambda>k. block_lane (get_block_index k (nb_num_blocks f))"
  show "nexbloom_check (nexbloom_add f k) k"
    using block_lane_bound [OF wf, of k] lane_bit_less
    by (auto simp: nexbloom_check_def nexbloom_add_def check_bit_in_block_iff set_bit_in_block_nth
        bit_simps)
  assume "nexbloom_check f k"
  then show "nexbloom_check (nexbloom_add f k') k"
    using block_lane_bound [OF wf, of k]
    by (auto simp: nexbloom_check_def nexbloom_add_def check_bit_in_block_iff set_bit_in_block_nth
        bit_simps)
qed

lemma nexbloom_wf_create:
  assumes "nexbloom_create n True = Some nb" and "unat n < 2 ^ 26"
  shows "nexbloom_wf nb"
proof -
  let ?n = "if n = 0 then 1 else n"
  have n: "0 < unat ?n" "unat ?n < 2 ^ 26"
    using assms(2) by (auto simp: unat_gt_0)
  have "unat (?n * 64) = unat ?n * 64"
    using n by (subst unat_mult_lem [THEN iffD1]) simp_all
  with assms(1) n show ?thesis
    by (auto simp: nexbloom_create_def nexbloom_wf_def Let_def)
qed

text \<open>After a reset nothing is reported present: every lane is zero.\<close>

lemma nexbloom_reset_empty:
  assumes "nexbloom_wf nb"
  shows "\<not> nexbloom_check (nexbloom_reset nb) h"
proof -
  have n: "unat (nb_num_blocks nb) < 2 ^ 26" "length (nb_data nb) = 8 * unat (nb_num_blocks nb)"
    using assms by (auto simp: nexbloom_wf_def)
  then have "unat (nb_num_blocks nb * 64) = unat (nb_num_blocks nb) * 64"
    by (subst unat_mult_lem [THEN iffD1]) simp_all
  with n have "nb_data (nexbloom_reset nb) = replicate (length (nb_data nb)) 0"
    by (simp add: nexbloom_reset_def)
  moreover have "nb_num_blocks (nexbloom_reset nb) = nb_num_blocks nb"
    by (simp add: nexbloom_reset_def)
  ultimately show ?thesis
    using block_lane_bound [OF assms, of h]
    by (auto simp: nexbloom_check_def check_bit_in_block_iff intro!: exI [of _ 0])
qed

text \<open>
  C22. A Bloom filter never reports a key absent that was added to it: for every well-formed
  filter and every sequence of additions, \<open>nexbloom_check\<close> answers "maybe present" for each
  hash of the sequence, whatever else was added before or after.
\<close>

theorem nexbloom_no_false_negatives:
  assumes "nexbloom_wf nb" and "h \<in> set hs"
  shows "nexbloom_check (foldl nexbloom_add nb hs) h"
  using assms by (rule nexbloom.no_false_negative)

theorem nexbloom_no_false_negatives_witness:
  "nexbloom_check (foldl nexbloom_add (the (nexbloom_create 2 True)) [7, 0x900000005, 42]) 0x900000005"
proof (rule nexbloom_no_false_negatives)
  show "nexbloom_wf (the (nexbloom_create 2 True))"
    by (rule nexbloom_wf_create [of 2]) (simp_all add: nexbloom_create_def)
qed simp

end
