(* ===== verification/Nex_Sovereign.thy ===== *)
theory Nex_Sovereign
  imports Nex_Bloom
begin

text \<open>
  The Sovereign extensions of \<open>sovereign.c\<close>: the speculative key filter that \<open>lookupKey\<close> asks
  before it touches the key space, the hardware sensing, the vitality counters of the memory
  gardener with the eviction score derived from them, and the synaptic map of \<open>MGET\<close> pairs.

  The key hash \<open>dictGenHashFunction\<close> and the decimal printer \<open>ll2string\<close> are arguments.  The
  gardener's random sampling (\<open>kvstoreHashtableRandomEntry\<close>) is an argument that says which
  entry each sample of each database picked; the comparison of the memory in use with 90 per
  cent of \<open>maxmemory\<close>, made in floating point, is the argument \<open>near_limit\<close>.
\<close>

definition FILTER_SIZE :: nat where
  "FILTER_SIZE = 1024 * 1024"

definition SYNAPTIC_SLOTS :: nat where
  "SYNAPTIC_SLOTS = 2048"

datatype hw_dna_t = HW_GENERIC | HW_INTEL_AVX2 | HW_INTEL_AVX512 | HW_ARM_SVE2 | HW_APPLE_AMX

record synaptic_link =
  sl_trigger :: u64
  sl_associate :: u64
  sl_strength :: u8

record sovereign =
  sovereign_filter :: "(nat \<Rightarrow> u8) option"
  server_dna :: hw_dna_t
  synaptic_map :: "nat \<Rightarrow> synaptic_link"

text \<open>A key object: integer encoded, or holding a string value that may be missing.\<close>

datatype key_obj = KeyInt int | KeySds "bytes option"

record val_obj =
  vitality :: u8
  shared :: bool

definition sovereign_start :: sovereign where
  "sovereign_start =
     \<lparr>sovereign_filter = None, server_dna = HW_GENERIC,
      synaptic_map = (\<lambda>_. \<lparr>sl_trigger = 0, sl_associate = 0, sl_strength = 0\<rparr>)\<rparr>"

definition Sovereign_Init :: "sovereign \<Rightarrow> sovereign" where
  "Sovereign_Init s =
     (case sovereign_filter s of
        None \<Rightarrow> s\<lparr>sovereign_filter := Some (\<lambda>_. 0)\<rparr>
      | Some _ \<Rightarrow> s)"

definition hash_sds :: "(bytes \<Rightarrow> u64) \<Rightarrow> bytes option \<Rightarrow> u64" where
  "hash_sds dictGenHashFunction key =
     (case key of None \<Rightarrow> 0 | Some s \<Rightarrow> dictGenHashFunction s)"

definition hash_key :: "(bytes \<Rightarrow> u64) \<Rightarrow> (int \<Rightarrow> bytes) \<Rightarrow> key_obj option \<Rightarrow> u64" where
  "hash_key dictGenHashFunction ll2string key =
     (case key of
        None \<Rightarrow> 0
      | Some (KeyInt n) \<Rightarrow> dictGenHashFunction (ll2string n)
      | Some (KeySds None) \<Rightarrow> 0
      | Some (KeySds (Some s)) \<Rightarrow> hash_sds dictGenHashFunction (Some s))"

subsection \<open>Pillar 2: hardware sensing\<close>

text \<open>The platform the code is compiled for, with what the probe of that platform answers.\<close>

datatype platform = Apple "bool option" | Arm64_Linux bool | Arm64_Other | X86_64 bool bool | Other

definition Sovereign_SenseDNA :: "platform \<Rightarrow> sovereign \<Rightarrow> sovereign" where
  "Sovereign_SenseDNA p s =
     s\<lparr>server_dna :=
        (case p of
           Apple amx \<Rightarrow> (if amx = Some True then HW_APPLE_AMX else HW_GENERIC)
         | Arm64_Linux sve2 \<Rightarrow> (if sve2 then HW_ARM_SVE2 else HW_GENERIC)
         | Arm64_Other \<Rightarrow> HW_GENERIC
         | X86_64 avx512f avx2 \<Rightarrow>
             (if avx512f then HW_INTEL_AVX512 else if avx2 then HW_INTEL_AVX2 else HW_GENERIC)
         | Other \<Rightarrow> HW_GENERIC)\<rparr>"

definition Sovereign_GetDNAName :: "sovereign \<Rightarrow> string" where
  "Sovereign_GetDNAName s =
     (case server_dna s of
        HW_APPLE_AMX \<Rightarrow> ''Apple AMX (Matrix Acceleration)''
      | HW_ARM_SVE2 \<Rightarrow> ''NVIDIA Rubin/Grace (ARM SVE2)''
      | HW_INTEL_AVX512 \<Rightarrow> ''Intel/AMD AVX-512''
      | HW_INTEL_AVX2 \<Rightarrow> ''Intel/AMD AVX2''
      | HW_GENERIC \<Rightarrow> ''Generic Hardware (Standard Mode)'')"

subsection \<open>Pillar 1: the speculative filter\<close>

definition filter_bit :: "u64 \<Rightarrow> u32" where
  "filter_bit h = ucast (h mod of_nat FILTER_SIZE)"

definition update_filter_hash :: "sovereign \<Rightarrow> u64 \<Rightarrow> sovereign" where
  "update_filter_hash s h =
     (let s = Sovereign_Init s; b = unat (filter_bit h); f = the (sovereign_filter s)
      in s\<lparr>sovereign_filter := Some (f(b div 8 := f (b div 8) OR push_bit (b mod 8) 1))\<rparr>)"

definition Sovereign_UpdateFilter ::
  "(bytes \<Rightarrow> u64) \<Rightarrow> (int \<Rightarrow> bytes) \<Rightarrow> sovereign \<Rightarrow> key_obj option \<Rightarrow> sovereign" where
  "Sovereign_UpdateFilter dg l2s s key = update_filter_hash s (hash_key dg l2s key)"

definition Sovereign_UpdateFilterSds :: "(bytes \<Rightarrow> u64) \<Rightarrow> sovereign \<Rightarrow> bytes option \<Rightarrow> sovereign" where
  "Sovereign_UpdateFilterSds dg s key = update_filter_hash s (hash_sds dg key)"

definition Sovereign_SpeculativeMissByHash :: "sovereign \<Rightarrow> u64 \<Rightarrow> bool" where
  "Sovereign_SpeculativeMissByHash s h =
     (case sovereign_filter s of
        None \<Rightarrow> False
      | Some f \<Rightarrow> (let b = unat (filter_bit h) in f (b div 8) AND push_bit (b mod 8) 1 = 0))"

definition Sovereign_SpeculativeMiss ::
  "(bytes \<Rightarrow> u64) \<Rightarrow> (int \<Rightarrow> bytes) \<Rightarrow> sovereign \<Rightarrow> key_obj option \<Rightarrow> bool" where
  "Sovereign_SpeculativeMiss dg l2s s key = Sovereign_SpeculativeMissByHash s (hash_key dg l2s key)"

subsection \<open>Pillar 3: vitality\<close>

definition Sovereign_ReinforceSynapse :: "val_obj option \<Rightarrow> val_obj option" where
  "Sovereign_ReinforceSynapse val =
     (case val of None \<Rightarrow> None
      | Some v \<Rightarrow> Some (if vitality v < 255 then v\<lparr>vitality := vitality v + 1\<rparr> else v))"

definition Sovereign_GetEvictionScore :: "val_obj option \<Rightarrow> u64" where
  "Sovereign_GetEvictionScore val =
     (case val of None \<Rightarrow> 0 | Some v \<Rightarrow> of_int (255 - uint (vitality v)))"

text \<open>
  The gardener: databases are lists of value objects (a missing one is a database that does not
  exist or has no shard); \<open>pick j i\<close> is the entry that sample \<open>i\<close> of database \<open>j\<close> drew, if any.
\<close>

definition decay_entry :: "val_obj \<Rightarrow> val_obj" where
  "decay_entry v =
     (if shared v then v else if 0 < vitality v then v\<lparr>vitality := vitality v - 1\<rparr> else v)"

definition gardener_samples :: "hw_dna_t \<Rightarrow> nat" where
  "gardener_samples dna = (if dna = HW_GENERIC then 4 else 16)"

definition gardener_db :: "hw_dna_t \<Rightarrow> (nat \<Rightarrow> nat option) \<Rightarrow> val_obj list \<Rightarrow> val_obj list" where
  "gardener_db dna pick db =
     fold (\<lambda>i db. case pick i of
                    None \<Rightarrow> db
                  | Some e \<Rightarrow> (if e < length db then db[e := decay_entry (db ! e)] else db))
          [0..<gardener_samples dna] db"

definition Sovereign_GardenerLoop ::
  "bool \<Rightarrow> (nat \<Rightarrow> nat \<Rightarrow> nat option) \<Rightarrow> sovereign \<Rightarrow> val_obj list option list \<Rightarrow> val_obj list option list" where
  "Sovereign_GardenerLoop near_limit pick s dbs =
     (if near_limit then dbs
      else map (\<lambda>(j, db). map_option (gardener_db (server_dna s) (pick j)) db) (enumerate 0 dbs))"

subsection \<open>Pillar 4: the synaptic map\<close>

definition link_hashes :: "sovereign \<Rightarrow> u64 \<Rightarrow> u64 \<Rightarrow> sovereign" where
  "link_hashes s h1 h2 =
     (if h1 = 0 \<or> h2 = 0 then s
      else
        let idx = unat h1 mod SYNAPTIC_SLOTS; l = synaptic_map s idx
        in s\<lparr>synaptic_map := (synaptic_map s)(idx :=
              (if sl_trigger l = h1 \<and> sl_associate l = h2
               then (if sl_strength l < 255 then l\<lparr>sl_strength := sl_strength l + 1\<rparr> else l)
               else \<lparr>sl_trigger = h1, sl_associate = h2, sl_strength = 1\<rparr>))\<rparr>)"

definition Sovereign_LinkKeys ::
  "(bytes \<Rightarrow> u64) \<Rightarrow> (int \<Rightarrow> bytes) \<Rightarrow> sovereign \<Rightarrow> key_obj option \<Rightarrow> key_obj option \<Rightarrow> sovereign" where
  "Sovereign_LinkKeys dg l2s s key1 key2 = link_hashes s (hash_key dg l2s key1) (hash_key dg l2s key2)"

text \<open>
  \<open>Sovereign_PrefetchAssociatesByHash\<close> only finds the link (the retrieval itself is a comment in
  the code): the model returns the associate it would fetch.
\<close>

definition Sovereign_PrefetchAssociatesByHash :: "sovereign \<Rightarrow> u64 \<Rightarrow> u64 option" where
  "Sovereign_PrefetchAssociatesByHash s h =
     (if h = 0 then None
      else let l = synaptic_map s (unat h mod SYNAPTIC_SLOTS)
           in if sl_trigger l = h \<and> 10 < sl_strength l then Some (sl_associate l) else None)"

subsection \<open>The filter meets the interface\<close>

lemma miss_iff:
  "sovereign_filter s = Some f \<Longrightarrow>
   Sovereign_SpeculativeMissByHash s h \<longleftrightarrow>
   \<not> bit (f (unat (filter_bit h) div 8)) (unat (filter_bit h) mod 8)"
  by (simp add: Sovereign_SpeculativeMissByHash_def Let_def and_bit_mask)

lemma filter_update:
  "sovereign_filter s = Some f \<Longrightarrow>
   sovereign_filter (update_filter_hash s h) =
     Some (f(unat (filter_bit h) div 8 :=
               f (unat (filter_bit h) div 8) OR push_bit (unat (filter_bit h) mod 8) 1))"
  by (simp add: update_filter_hash_def Sovereign_Init_def Let_def)

interpretation sov: member_filter update_filter_hash
  "\<lambda>s h. \<not> Sovereign_SpeculativeMissByHash s h" "\<lambda>s. sovereign_filter s \<noteq> None"
proof
  fix s :: sovereign and h h' :: u64
  assume "sovereign_filter s \<noteq> None"
  then obtain f where f: "sovereign_filter s = Some f" by auto
  show "sovereign_filter (update_filter_hash s h) \<noteq> None"
    by (simp add: filter_update [OF f])
  show "\<not> Sovereign_SpeculativeMissByHash (update_filter_hash s h) h"
    by (simp add: miss_iff [OF filter_update [OF f]] bit_simps)
  assume "\<not> Sovereign_SpeculativeMissByHash s h"
  then show "\<not> Sovereign_SpeculativeMissByHash (update_filter_hash s h') h"
    by (auto simp: miss_iff [OF filter_update [OF f]] miss_iff [OF f] bit_simps)
qed

text \<open>The byte that a hash addresses lies inside the allocated \<open>FILTER_SIZE / 8\<close> bytes.\<close>

lemma filter_bit_bound: "unat (filter_bit h) < FILTER_SIZE"
proof -
  have "unat (h mod of_nat FILTER_SIZE) < FILTER_SIZE"
    by (simp add: FILTER_SIZE_def unat_mod)
  moreover have "unat (filter_bit h) \<le> unat (h mod of_nat FILTER_SIZE)"
    by (simp add: filter_bit_def unat_ucast)
  ultimately show ?thesis by simp
qed

lemma foldl_update_filter:
  "foldl (Sovereign_UpdateFilter dg l2s) s ks = foldl update_filter_hash s (map (hash_key dg l2s) ks)"
  by (induction ks arbitrary: s) (auto simp: Sovereign_UpdateFilter_def)

text \<open>
  The speculative filter never hides a stored key: once the filter is initialised, a key
  that was entered with \<open>Sovereign_UpdateFilter\<close> is never a "definite miss", whatever other
  keys were entered before or after, for every key hash function and every encoding of the key.
\<close>

lemma speculative_miss_sound:
  assumes "sovereign_filter s \<noteq> None" and "key \<in> set keys"
  shows "\<not> Sovereign_SpeculativeMiss dg l2s (foldl (Sovereign_UpdateFilter dg l2s) s keys) key"
  unfolding foldl_update_filter Sovereign_SpeculativeMiss_def
  by (rule sov.no_false_negative) (use assms in auto)

lemma speculative_miss_sound_example:
  "\<not> Sovereign_SpeculativeMiss fnv1a_64 (\<lambda>n. [of_int n])
      (foldl (Sovereign_UpdateFilter fnv1a_64 (\<lambda>n. [of_int n])) (Sovereign_Init sovereign_start)
         [Some (KeyInt 7), Some (KeySds (Some [1, 2]))]) (Some (KeySds (Some [1, 2])))"
  by (rule speculative_miss_sound) (simp_all add: Sovereign_Init_def sovereign_start_def)

subsection \<open>Vitality and eviction\<close>

lemma score_unat: "unat (Sovereign_GetEvictionScore (Some v)) = 255 - unat (vitality v)"
proof -
  have u: "unat (ucast (vitality v) :: u64) = unat (vitality v)"
    using unat_u8_le [of "vitality v"] by (simp add: unat_ucast)
  then have "(ucast (vitality v) :: u64) \<le> 255"
    using unat_u8_le [of "vitality v"] by (simp add: word_le_nat_alt)
  then have "unat (255 - ucast (vitality v) :: u64) = unat (255 :: u64) - unat (ucast (vitality v) :: u64)"
    by (rule unat_sub)
  with u show ?thesis
    by (simp add: Sovereign_GetEvictionScore_def)
qed

lemma reinforce_vitality:
  "Sovereign_ReinforceSynapse (Some v) = Some v' \<Longrightarrow> unat (vitality v') = min 255 (unat (vitality v) + 1)"
  using unat_u8_le [of "vitality v"]
  by (auto simp: Sovereign_ReinforceSynapse_def word_less_nat_alt unat_word_ariths split: if_splits)

lemma decay_vitality: "unat (vitality (decay_entry v)) = (if shared v then unat (vitality v) else unat (vitality v) - 1)"
  by (auto simp: decay_entry_def unat_minus_one word_gt_0)

lemma shared_decay [simp]: "shared (decay_entry v) = shared v"
  by (simp add: decay_entry_def)

lemma gardener_db_fold:
  "length (fold (\<lambda>i db. case pick i of None \<Rightarrow> db
             | Some e \<Rightarrow> (if e < length db then db[e := decay_entry (db ! e)] else db)) is db) = length db \<and>
   (\<forall>e<length db.
      unat (vitality (fold (\<lambda>i db. case pick i of None \<Rightarrow> db
             | Some e \<Rightarrow> (if e < length db then db[e := decay_entry (db ! e)] else db)) is db ! e)) =
      (if shared (db ! e) then unat (vitality (db ! e))
       else unat (vitality (db ! e)) - length (filter (\<lambda>i. pick i = Some e) is)))"
proof (induction "is" arbitrary: db)
  case (Cons i "is")
  show ?case
  proof (cases "pick i")
    case None
    then show ?thesis using Cons.IH [of db] by simp
  next
    case (Some e)
    show ?thesis
    proof (cases "e < length db")
      case True
      with Some Cons.IH [of "db[e := decay_entry (db ! e)]"] show ?thesis
        by (auto simp: nth_list_update decay_vitality)
    next
      case False
      with Some Cons.IH [of db] show ?thesis by auto
    qed
  qed
qed simp

text \<open>
  The gardener's decay is exact and confined: a pass lowers the vitality of each entry that
  is not shared by the number of times the pass sampled it, never below zero, leaves shared
  objects untouched, and keeps the number of entries; so an entry decays by at most 16 in a pass
  (4 on generic hardware) and its eviction score never falls because of the gardener.
\<close>

lemma gardener_decay_exact:
  assumes "e < length db"
  shows "unat (vitality (gardener_db dna pick db ! e)) =
           (if shared (db ! e) then unat (vitality (db ! e))
            else unat (vitality (db ! e)) -
                 length (filter (\<lambda>i. pick i = Some e) [0..<gardener_samples dna]))
         \<and> Sovereign_GetEvictionScore (Some (db ! e)) \<le>
             Sovereign_GetEvictionScore (Some (gardener_db dna pick db ! e))
         \<and> length (gardener_db dna pick db) = length db"
  using assms gardener_db_fold [of pick "[0..<gardener_samples dna]" db]
  by (auto simp: gardener_db_def word_le_nat_alt score_unat)

lemma gardener_decay_exact_example:
  "unat (vitality (gardener_db HW_GENERIC (\<lambda>i. if i < 3 then Some 0 else None)
     [\<lparr>vitality = 5, shared = False\<rparr>] ! 0)) = 2"
proof -
  let ?db = "[\<lparr>vitality = 5, shared = False\<rparr>] :: val_obj list"
  have "0 < length ?db" by simp
  from gardener_decay_exact [OF this, of HW_GENERIC "\<lambda>i. if i < 3 then Some 0 else None"]
  show ?thesis by (simp add: gardener_samples_def upt_rec)
qed

text \<open>Repeating a link strengthens it up to the saturation point.\<close>

lemma link_again:
  assumes "h1 \<noteq> 0" "h2 \<noteq> 0" "k \<le> 255"
    and "synaptic_map s (unat h1 mod SYNAPTIC_SLOTS) = \<lparr>sl_trigger = h1, sl_associate = h2, sl_strength = of_nat k\<rparr>"
  shows "synaptic_map (link_hashes s h1 h2) (unat h1 mod SYNAPTIC_SLOTS) =
           \<lparr>sl_trigger = h1, sl_associate = h2, sl_strength = of_nat (min 255 (k + 1))\<rparr>"
proof -
  have "(of_nat k < (255 :: u8)) = (k < 255)"
    using assms(3) by (simp add: word_less_nat_alt unat_of_nat)
  with assms show ?thesis
    by (cases "k < 255") (auto simp: link_hashes_def Let_def min_absorb2 add.commute)
qed

lemma link_repeat:
  assumes "h1 \<noteq> 0" "h2 \<noteq> 0" "k \<le> 255"
    and "synaptic_map s (unat h1 mod SYNAPTIC_SLOTS) = \<lparr>sl_trigger = h1, sl_associate = h2, sl_strength = of_nat k\<rparr>"
  shows "synaptic_map (((\<lambda>s. link_hashes s h1 h2) ^^ n) s) (unat h1 mod SYNAPTIC_SLOTS) =
           \<lparr>sl_trigger = h1, sl_associate = h2, sl_strength = of_nat (min 255 (k + n))\<rparr>"
proof (induction n)
  case 0
  then show ?case using assms by simp
next
  case (Suc n)
  have "min 255 (k + n) \<le> 255" by simp
  from link_again [OF assms(1,2) this Suc.IH] show ?case
    by (simp add: min_def split: if_splits)
qed

lemma link_fresh_or_same:
  assumes "h1 \<noteq> 0" "h2 \<noteq> 0"
    and "sl_trigger (synaptic_map s (unat h1 mod SYNAPTIC_SLOTS)) \<noteq> h1 \<or>
         sl_associate (synaptic_map s (unat h1 mod SYNAPTIC_SLOTS)) \<noteq> h2"
  shows "synaptic_map (link_hashes s h1 h2) (unat h1 mod SYNAPTIC_SLOTS) =
           \<lparr>sl_trigger = h1, sl_associate = h2, sl_strength = of_nat 1\<rparr>"
  using assms by (auto simp: link_hashes_def Let_def)

text \<open>
  Associative prefetch needs exactly eleven sightings: starting from a slot that holds
  another pair, the associate of a key is proposed for prefetch after \<open>n\<close> consecutive links of
  the pair if and only if \<open>n > 10\<close>; the strength counter saturates instead of wrapping, so no
  number of further links ever loses the association.
\<close>

lemma prefetch_after_eleven_links:
  assumes "h1 \<noteq> 0" and "h2 \<noteq> 0" and "0 < n"
    and "sl_trigger (synaptic_map s (unat h1 mod SYNAPTIC_SLOTS)) \<noteq> h1"
  shows "Sovereign_PrefetchAssociatesByHash (((\<lambda>s. link_hashes s h1 h2) ^^ n) s) h1 =
           (if 10 < n then Some h2 else None)"
proof -
  obtain m where n: "n = Suc m" using assms(3) by (cases n) auto
  have f: "synaptic_map (link_hashes s h1 h2) (unat h1 mod SYNAPTIC_SLOTS) =
           \<lparr>sl_trigger = h1, sl_associate = h2, sl_strength = of_nat 1\<rparr>"
    using assms by (intro link_fresh_or_same) auto
  have "((\<lambda>s. link_hashes s h1 h2) ^^ n) s = ((\<lambda>s. link_hashes s h1 h2) ^^ m) (link_hashes s h1 h2)"
    by (simp only: n funpow_Suc_right comp_apply)
  moreover have "synaptic_map (((\<lambda>s. link_hashes s h1 h2) ^^ m) (link_hashes s h1 h2)) (unat h1 mod SYNAPTIC_SLOTS) =
           \<lparr>sl_trigger = h1, sl_associate = h2, sl_strength = of_nat (min 255 (1 + m))\<rparr>"
    by (rule link_repeat [OF assms(1,2) _ f]) simp
  moreover have "((10 :: u8) < of_nat (min 255 (1 + m))) = (10 < n)"
    by (simp add: word_less_nat_alt unat_of_nat n min_def)
  ultimately show ?thesis
    using assms(1) by (simp add: Sovereign_PrefetchAssociatesByHash_def Let_def)
qed

lemma prefetch_after_eleven_links_example:
  "Sovereign_PrefetchAssociatesByHash (((\<lambda>s. link_hashes s 5 9) ^^ 11) sovereign_start) 5 = Some 9"
proof -
  have "sl_trigger (synaptic_map sovereign_start (unat (5 :: u64) mod SYNAPTIC_SLOTS)) \<noteq> 5"
    by (simp add: sovereign_start_def)
  from prefetch_after_eleven_links [OF _ _ _ this, of 9 11] show ?thesis by simp
qed

end
