(* ===== verification/Nex_Map_Spec.thy ===== *)
theory Nex_Map_Spec
  imports Nex_Prelude
begin

text \<open>
  What NexCache expects of a key-value table: a lookup that sees the last update of a key and
  nothing else, and updates and deletions that keep the table well formed.  The key tables of the
  components interpret it, and a run of operations on any of them is a run on an abstract map.
\<close>

datatype ('k, 'v) map_op = Put 'k 'v | Del 'k

fun spec_op :: "('k \<Rightarrow> 'v option) \<Rightarrow> ('k, 'v) map_op \<Rightarrow> ('k \<Rightarrow> 'v option)" where
  "spec_op m (Put k v) = m(k \<mapsto> v)"
| "spec_op m (Del k) = m(k := None)"

fun impl_op :: "('k \<Rightarrow> 'v \<Rightarrow> 's \<Rightarrow> 's) \<Rightarrow> ('k \<Rightarrow> 's \<Rightarrow> 's) \<Rightarrow> 's \<Rightarrow> ('k, 'v) map_op \<Rightarrow> 's" where
  "impl_op update delete s (Put k v) = update k v s"
| "impl_op update delete s (Del k) = delete k s"

fun op_key :: "('k, 'v) map_op \<Rightarrow> 'k" where
  "op_key (Put k v) = k"
| "op_key (Del k) = k"

locale kv_table =
  fixes lookup :: "'s \<Rightarrow> 'k \<Rightarrow> 'v option"
    and update :: "'k \<Rightarrow> 'v \<Rightarrow> 's \<Rightarrow> 's"
    and delete :: "'k \<Rightarrow> 's \<Rightarrow> 's"
    and invar :: "'s \<Rightarrow> bool"
    and key_ok :: "'k \<Rightarrow> bool"
  assumes lookup_update: "invar s \<Longrightarrow> key_ok k \<Longrightarrow> lookup (update k v s) = (lookup s)(k \<mapsto> v)"
    and lookup_delete: "invar s \<Longrightarrow> key_ok k \<Longrightarrow> lookup (delete k s) = (lookup s)(k := None)"
    and invar_update: "invar s \<Longrightarrow> key_ok k \<Longrightarrow> invar (update k v s)"
    and invar_delete: "invar s \<Longrightarrow> key_ok k \<Longrightarrow> invar (delete k s)"
begin

lemma op_refines:
  assumes "invar s" "key_ok (op_key x)"
  shows "invar (impl_op update delete s x) \<and> lookup (impl_op update delete s x) = spec_op (lookup s) x"
  using assms by (cases x) (auto simp: lookup_update lookup_delete invar_update invar_delete)

lemma run_refines:
  assumes "invar s" "\<forall>x \<in> set xs. key_ok (op_key x)"
  shows "invar (foldl (impl_op update delete) s xs) \<and>
         lookup (foldl (impl_op update delete) s xs) = foldl spec_op (lookup s) xs"
  using assms
proof (induction xs arbitrary: s)
  case (Cons x xs)
  with op_refines [of s x] show ?case by simp
qed simp

end

subsection \<open>Association lists with one entry per key\<close>

text \<open>
  The tables below keep an array of entries and search it from the front.  The three operations
  they use on it, as list operations on any entry type with a key.
\<close>

lemma find_index_key_update:
  assumes "distinct (map key es)" "find_index (\<lambda>e. key e = k) es = Some i" "key e' = k"
  shows "distinct (map key (es[i := e']))"
    and "map_of (map (\<lambda>e. (key e, val e)) (es[i := e'])) = (map_of (map (\<lambda>e. (key e, val e)) es))(k \<mapsto> val e')"
proof -
  from find_index_SomeD [OF assms(2)] have i: "i < length es" "key (es ! i) = k" by auto
  have "map key (es[i := e']) = map key es"
    using i assms(3) by (simp add: map_update) (metis list_update_id nth_map)
  with assms(1) show "distinct (map key (es[i := e']))" by simp
  show "map_of (map (\<lambda>e. (key e, val e)) (es[i := e'])) = (map_of (map (\<lambda>e. (key e, val e)) es))(k \<mapsto> val e')"
    using assms(1) i
  proof (induction es arbitrary: i)
    case (Cons a es)
    show ?case
    proof (cases i)
      case 0
      with Cons.prems assms(3) show ?thesis by (auto simp: fun_eq_iff)
    next
      case (Suc j)
      with Cons.prems have "k \<in> key ` set es" by (metis image_eqI length_Cons nth_Cons_Suc nth_mem not_less_eq)
      with Cons.prems have ne: "key a \<noteq> k" by auto
      from Suc Cons.prems have IH: "map_of (map (\<lambda>e. (key e, val e)) (es[j := e'])) =
          (map_of (map (\<lambda>e. (key e, val e)) es))(k \<mapsto> val e')"
        by (intro Cons.IH) simp_all
      from ne show ?thesis by (intro ext) (simp add: Suc IH)
    qed
  qed simp
qed

lemma find_index_key_append:
  assumes "distinct (map key es)" "find_index (\<lambda>e. key e = k) es = None" "key e' = k"
  shows "distinct (map key (es @ [e']))"
    and "map_of (map (\<lambda>e. (key e, val e)) (es @ [e'])) = (map_of (map (\<lambda>e. (key e, val e)) es))(k \<mapsto> val e')"
proof -
  from assms(2) have fresh: "k \<notin> key ` set es" by (auto simp: find_index_None)
  with assms(1,3) show "distinct (map key (es @ [e']))" by auto
  from fresh assms(3) show "map_of (map (\<lambda>e. (key e, val e)) (es @ [e'])) =
      (map_of (map (\<lambda>e. (key e, val e)) es))(k \<mapsto> val e')"
    by (simp add: map_add_upd_left dom_map_of_conv_image_fst image_image)
qed

lemma find_index_map_of:
  "map_of (map (\<lambda>e. (key e, val e)) es) k =
     (case find_index (\<lambda>e. key e = k) es of None \<Rightarrow> None | Some i \<Rightarrow> Some (val (es ! i)))"
  by (induction es) (auto split: option.splits)

lemma map_of_distinct:
  assumes "distinct (map key es)"
  shows "map_of (map (\<lambda>e. (key e, val e)) es) k = Some v \<longleftrightarrow> (\<exists>e \<in> set es. key e = k \<and> val e = v)"
  using assms by (induction es) (auto simp: image_iff)

lemma map_of_distinct_eqI:
  assumes "distinct (map key es)" "\<And>k v. m k = Some v \<longleftrightarrow> (\<exists>e \<in> set es. key e = k \<and> val e = v)"
  shows "map_of (map (\<lambda>e. (key e, val e)) es) = m"
proof
  fix k
  have "\<And>v. map_of (map (\<lambda>e. (key e, val e)) es) k = Some v \<longleftrightarrow> m k = Some v"
    using assms by (simp add: map_of_distinct)
  then show "map_of (map (\<lambda>e. (key e, val e)) es) k = m k"
    by (metis option.exhaust)
qed

lemma find_index_key_remove:
  assumes "distinct (map key es)" "find_index (\<lambda>e. key e = k) es = Some i"
  shows "distinct (map key (swap_remove i es))"
    and "map_of (map (\<lambda>e. (key e, val e)) (swap_remove i es)) = (map_of (map (\<lambda>e. (key e, val e)) es))(k := None)"
proof -
  from find_index_SomeD [OF assms(2)] have i: "i < length es" "key (es ! i) = k" by auto
  show d: "distinct (map key (swap_remove i es))" by (rule distinct_map_swap_remove [OF i(1) assms(1)])
  show "map_of (map (\<lambda>e. (key e, val e)) (swap_remove i es)) = (map_of (map (\<lambda>e. (key e, val e)) es))(k := None)"
    using set_map_swap_remove [OF i(1) assms(1)] i(2)
    by (intro map_of_distinct_eqI [OF d]) (auto simp: map_of_distinct [OF assms(1)])
qed

end
