(* ===== verification/Nex_Crdt.thy ===== *)
theory Nex_Crdt
  imports Nex_Map_Spec
begin

text \<open>
  The conflict-free replicated data types of \<open>crdt/crdt.c\<close>: grow-only counter, positive-negative
  counter, observed-remove set and last-writer-wins register.

  All four promise their users the same thing, the interface \<open>state_crdt\<close>: \<open>merge\<close> is a join
  (commutative, associative, idempotent) on the replicated payload.  The locale proves once what
  an active-active deployment needs, that replicas which have merged the same set of states agree,
  in whatever order and however often each state arrived; every type is an interpretation.

  Node arrays have the fixed length \<open>CRDT_MAX_NODES\<close>.  The removal flag of a set entry, an \<open>int\<close>
  that is only ever 0 or 1, is a \<open>bool\<close>; the growth of the entry array is the argument \<open>can_grow\<close>.
\<close>

definition CRDT_MAX_NODES :: nat where
  "CRDT_MAX_NODES = 128"

definition UINT64_MAX :: u64 where
  "UINT64_MAX = - 1"

subsection \<open>The interface\<close>

locale state_crdt =
  fixes merge :: "'s \<Rightarrow> 's \<Rightarrow> 's"
    and payload :: "'s \<Rightarrow> 'p"
    and invar :: "'s \<Rightarrow> bool"
  assumes invar_merge: "invar a \<Longrightarrow> invar b \<Longrightarrow> invar (merge a b)"
    and merge_cong: "invar a \<Longrightarrow> invar a' \<Longrightarrow> invar b \<Longrightarrow> invar b' \<Longrightarrow>
       payload a = payload a' \<Longrightarrow> payload b = payload b' \<Longrightarrow> payload (merge a b) = payload (merge a' b')"
    and merge_comm: "invar a \<Longrightarrow> invar b \<Longrightarrow> payload (merge a b) = payload (merge b a)"
    and merge_assoc: "invar a \<Longrightarrow> invar b \<Longrightarrow> invar c \<Longrightarrow>
       payload (merge (merge a b) c) = payload (merge a (merge b c))"
    and merge_idem: "invar a \<Longrightarrow> payload (merge a a) = payload a"
begin

lemma invar_foldl: "invar a \<Longrightarrow> list_all invar bs \<Longrightarrow> invar (foldl merge a bs)"
  by (induction bs arbitrary: a) (auto simp: invar_merge)

text \<open>A state that already contains \<open>b\<close> keeps containing it when it merges more.\<close>

lemma absorb_merge:
  assumes "invar a" "invar b" "invar c" and "payload (merge a b) = payload a"
  shows "payload (merge (merge a c) b) = payload (merge a c)"
proof -
  have "payload (merge (merge a c) b) = payload (merge a (merge c b))"
    using assms by (simp add: merge_assoc)
  also have "\<dots> = payload (merge a (merge b c))"
  proof (rule merge_cong)
    show "payload (merge c b) = payload (merge b c)" using assms by (intro merge_comm)
  qed (use assms in \<open>simp_all add: invar_merge\<close>)
  also have "\<dots> = payload (merge (merge a b) c)"
    using assms by (simp add: merge_assoc)
  also have "\<dots> = payload (merge a c)"
    using assms by (intro merge_cong) (auto simp: invar_merge)
  finally show ?thesis .
qed

lemma absorb_foldl:
  "invar a \<Longrightarrow> invar b \<Longrightarrow> list_all invar cs \<Longrightarrow> payload (merge a b) = payload a \<Longrightarrow>
   payload (merge (foldl merge a cs) b) = payload (foldl merge a cs)"
proof (induction cs arbitrary: a)
  case (Cons c cs)
  then have "payload (merge (merge a c) b) = payload (merge a c)"
    by (intro absorb_merge) auto
  with Cons show ?case by (simp add: invar_merge)
qed simp

lemma absorb_merged:
  assumes "invar a" "invar b"
  shows "payload (merge (merge a b) b) = payload (merge a b)"
proof -
  have "payload (merge (merge a b) b) = payload (merge a (merge b b))"
    using assms by (simp add: merge_assoc)
  also have "\<dots> = payload (merge a b)"
    using assms by (intro merge_cong) (auto simp: invar_merge merge_idem)
  finally show ?thesis .
qed

lemma absorb_member:
  "invar a \<Longrightarrow> list_all invar cs \<Longrightarrow> c \<in> set cs \<Longrightarrow>
   payload (merge (foldl merge a cs) c) = payload (foldl merge a cs)"
proof (induction cs arbitrary: a)
  case (Cons d cs)
  show ?case
  proof (cases "c = d")
    case True
    with Cons.prems have "payload (merge (foldl merge (merge a d) cs) d) = payload (foldl merge (merge a d) cs)"
      by (intro absorb_foldl) (auto simp: invar_merge absorb_merged)
    with True show ?thesis by simp
  next
    case False
    with Cons show ?thesis by (simp add: invar_merge)
  qed
qed simp

lemma absorb_all:
  "invar f \<Longrightarrow> invar a \<Longrightarrow> list_all invar cs \<Longrightarrow> payload (merge f a) = payload f \<Longrightarrow>
   (\<And>c. c \<in> set cs \<Longrightarrow> payload (merge f c) = payload f) \<Longrightarrow>
   payload (merge f (foldl merge a cs)) = payload f"
proof (induction cs arbitrary: a)
  case (Cons c cs)
  have "payload (merge f (merge a c)) = payload (merge (merge f a) c)"
    using Cons.prems by (simp add: merge_assoc)
  also have "\<dots> = payload (merge f c)"
    using Cons.prems by (intro merge_cong) (auto simp: invar_merge)
  also have "\<dots> = payload f" using Cons.prems by simp
  finally show ?case
    using Cons by (simp add: invar_merge)
qed simp

text \<open>Strong convergence: same states merged, same payload.\<close>

lemma absorb_fold_fold:
  assumes "invar a" "list_all invar us" "list_all invar vs" "payload ` set vs \<subseteq> payload ` set us"
  shows "payload (merge (foldl merge a us) (foldl merge a vs)) = payload (foldl merge a us)"
proof (rule absorb_all)
  show i: "invar (foldl merge a us)" using assms(1,2) by (rule invar_foldl)
  show "payload (merge (foldl merge a us) a) = payload (foldl merge a us)"
    using assms(1,2) by (intro absorb_foldl merge_idem)
  fix c assume c: "c \<in> set vs"
  then have "payload c \<in> payload ` set us" using assms(4) by auto
  then obtain d where d: "d \<in> set us" "payload c = payload d" by (rule imageE)
  have "invar c" "invar d"
    using assms(2,3) c d(1) by (auto simp: list_all_iff)
  with i d(2) have "payload (merge (foldl merge a us) c) = payload (merge (foldl merge a us) d)"
    by (intro merge_cong) simp_all
  also have "\<dots> = payload (foldl merge a us)"
    using assms(1,2) d(1) by (rule absorb_member)
  finally show "payload (merge (foldl merge a us) c) = payload (foldl merge a us)" .
qed (rule assms)+

lemma convergence:
  assumes "invar a" "list_all invar xs" "list_all invar ys"
    and "payload ` set xs = payload ` set ys"
  shows "payload (foldl merge a xs) = payload (foldl merge a ys)"
proof -
  have "payload (foldl merge a xs) = payload (merge (foldl merge a xs) (foldl merge a ys))"
    using absorb_fold_fold [of a xs ys] assms by simp
  also have "\<dots> = payload (merge (foldl merge a ys) (foldl merge a xs))"
    using assms by (intro merge_comm invar_foldl)
  also have "\<dots> = payload (foldl merge a ys)"
    using absorb_fold_fold [of a ys xs] assms by simp
  finally show ?thesis .
qed

end

text \<open>
  The way every type of \<open>crdt.c\<close> meets the contract: merging states joins their payloads.
\<close>

locale join_crdt =
  fixes merge :: "'s \<Rightarrow> 's \<Rightarrow> 's"
    and payload :: "'s \<Rightarrow> 'p"
    and invar :: "'s \<Rightarrow> bool"
    and join :: "'p \<Rightarrow> 'p \<Rightarrow> 'p"
  assumes invar_join: "invar a \<Longrightarrow> invar b \<Longrightarrow> invar (merge a b)"
    and payload_merge: "invar a \<Longrightarrow> invar b \<Longrightarrow> payload (merge a b) = join (payload a) (payload b)"
    and join_comm: "invar a \<Longrightarrow> invar b \<Longrightarrow> join (payload a) (payload b) = join (payload b) (payload a)"
    and join_assoc: "invar a \<Longrightarrow> invar b \<Longrightarrow> invar c \<Longrightarrow>
       join (join (payload a) (payload b)) (payload c) = join (payload a) (join (payload b) (payload c))"
    and join_idem: "invar a \<Longrightarrow> join (payload a) (payload a) = payload a"

sublocale join_crdt \<subseteq> state_crdt merge payload invar
proof
  fix a b
  assume "invar a" "invar b"
  then show "payload (merge a b) = payload (merge b a)"
    using join_comm [of a b] by (simp add: payload_merge)
qed (simp_all add: invar_join payload_merge join_assoc join_idem)

subsection \<open>Component-wise maximum\<close>

text \<open>The loop \<open>for (i = 0; i < n; i++) if (src[i] > dst[i]) dst[i] = src[i];\<close>\<close>

definition max_upto :: "nat \<Rightarrow> u64 list \<Rightarrow> u64 list \<Rightarrow> u64 list" where
  "max_upto n src dst = fold (\<lambda>i d. if d ! i < src ! i then d[i := src ! i] else d) [0..<n] dst"

lemma length_max_upto [simp]: "length (max_upto n src dst) = length dst"
  by (induction n) (auto simp: max_upto_def)

lemma max_upto_nth:
  "n \<le> length dst \<Longrightarrow> max_upto n src dst ! i = (if i < n then max (dst ! i) (src ! i) else dst ! i)"
proof (induction n arbitrary: i)
  case (Suc n)
  let ?d = "max_upto n src dst"
  have "max_upto (Suc n) src dst = (if ?d ! n < src ! n then ?d[n := src ! n] else ?d)"
    by (simp add: max_upto_def)
  moreover have "?d ! n = dst ! n" "length ?d = length dst" using Suc by simp_all
  ultimately show ?case
    using Suc by (auto simp: nth_list_update max_def less_Suc_eq)
qed (simp add: max_upto_def)

text \<open>Node arrays that are zero from \<open>n\<close> on: the part of the array no node uses.\<close>

definition zero_from :: "nat \<Rightarrow> u64 list \<Rightarrow> bool" where
  "zero_from n vs \<longleftrightarrow> length vs = CRDT_MAX_NODES \<and> (\<forall>i. n \<le> i \<longrightarrow> i < CRDT_MAX_NODES \<longrightarrow> vs ! i = 0)"

lemma zero_from_mono: "zero_from n vs \<Longrightarrow> n \<le> m \<Longrightarrow> zero_from m vs"
  by (auto simp: zero_from_def)

lemma max_upto_eq:
  assumes "zero_from n1 dst" "zero_from n2 src"
  shows "max_upto (min (max n1 n2) CRDT_MAX_NODES) src dst =
           map2 max dst src"
proof (rule nth_equalityI)
  fix i
  assume "i < length (max_upto (min (max n1 n2) CRDT_MAX_NODES) src dst)"
  with assms show "max_upto (min (max n1 n2) CRDT_MAX_NODES) src dst ! i = map2 max dst src ! i"
    by (auto simp: max_upto_nth zero_from_def max_def)
qed (use assms in \<open>simp add: zero_from_def\<close>)

lemma zero_from_map2_max: "zero_from n1 a \<Longrightarrow> zero_from n2 b \<Longrightarrow> zero_from (max n1 n2) (map2 max a b)"
  by (auto simp: zero_from_def)

lemma map2_max_comm: "length a = length b \<Longrightarrow> map2 max a b = map2 max b (a :: u64 list)"
  by (rule nth_equalityI) (simp_all add: max.commute)

lemma map2_max_assoc:
  "length a = length b \<Longrightarrow> length b = length c \<Longrightarrow>
   map2 max (map2 max a b) c = map2 max a (map2 max b (c :: u64 list))"
  by (rule nth_equalityI) (simp_all add: max.assoc)

lemma map2_max_idem: "map2 max a a = (a :: u64 list)"
  by (rule nth_equalityI) simp_all

text \<open>The payload of a node array with its node count, and its join.\<close>

fun vec_join :: "u64 list \<times> int \<Rightarrow> u64 list \<times> int \<Rightarrow> u64 list \<times> int" where
  "vec_join (a, n) (b, m) = (map2 max a b, max n m)"

lemma vec_join_comm: "length a = length b \<Longrightarrow> vec_join (a, n) (b, m) = vec_join (b, m) (a, n)"
  by (simp only: vec_join.simps max.commute [of n m] map2_max_comm [of a b])

lemma vec_join_assoc:
  "length a = length b \<Longrightarrow> length b = length c \<Longrightarrow>
     vec_join (vec_join (a, n) (b, m)) (c, k) = vec_join (a, n) (vec_join (b, m) (c, k))"
  by (simp only: vec_join.simps max.assoc map2_max_assoc)

lemma vec_join_idem: "vec_join (a, n) (a, n) = (a, n)"
  by (simp only: vec_join.simps max.idem map2_max_idem)

subsection \<open>G-Counter\<close>

record GCounter =
  g_values :: "u64 list"
  g_num_nodes :: int
  g_self_node :: u32

definition gcounter_create :: "u32 \<Rightarrow> int \<Rightarrow> GCounter" where
  "gcounter_create self_node_id num_nodes =
     \<lparr>g_values = replicate CRDT_MAX_NODES 0,
      g_num_nodes = (if int CRDT_MAX_NODES < num_nodes then int CRDT_MAX_NODES else num_nodes),
      g_self_node = self_node_id\<rparr>"

definition saturating_add :: "u64 list \<Rightarrow> nat \<Rightarrow> u64 \<Rightarrow> u64 list" where
  "saturating_add vs i delta =
     (if UINT64_MAX - vs ! i < delta then vs[i := UINT64_MAX] else vs[i := vs ! i + delta])"

definition gcounter_increment :: "GCounter \<Rightarrow> u64 \<Rightarrow> GCounter" where
  "gcounter_increment g delta =
     (if of_int (g_num_nodes g) \<le> g_self_node g then g
      else g\<lparr>g_values := saturating_add (g_values g) (unat (g_self_node g)) delta\<rparr>)"

definition gcounter_value :: "GCounter \<Rightarrow> u64" where
  "gcounter_value g = foldl (\<lambda>sum i. sum + g_values g ! i) 0 [0..<nat (g_num_nodes g)]"

definition gcounter_merge :: "GCounter \<Rightarrow> GCounter \<Rightarrow> GCounter" where
  "gcounter_merge dst src =
     (let n = min (max (g_num_nodes dst) (g_num_nodes src)) (int CRDT_MAX_NODES)
      in dst\<lparr>g_values := max_upto (nat n) (g_values src) (g_values dst),
             g_num_nodes := max (g_num_nodes dst) (g_num_nodes src)\<rparr>)"

definition gcounter_wf :: "GCounter \<Rightarrow> bool" where
  "gcounter_wf g \<longleftrightarrow>
     0 \<le> g_num_nodes g \<and> g_num_nodes g \<le> int CRDT_MAX_NODES \<and>
     zero_from (nat (g_num_nodes g)) (g_values g)"

definition gcounter_payload :: "GCounter \<Rightarrow> u64 list \<times> int" where
  "gcounter_payload g = (g_values g, g_num_nodes g)"

lemma vec_merge:
  assumes "0 \<le> n" "n \<le> int CRDT_MAX_NODES" "zero_from (nat n) a"
    and "0 \<le> m" "m \<le> int CRDT_MAX_NODES" "zero_from (nat m) b"
  shows "max_upto (nat (min (max n m) (int CRDT_MAX_NODES))) b a = map2 max a b"
    and "zero_from (nat (max n m)) (map2 max a b)"
  using max_upto_eq [OF assms(3,6)] zero_from_map2_max [OF assms(3,6)]
  by (simp_all only: nat_min_distrib nat_max_distrib nat_int)

lemma gcounter_merge_fields:
  assumes "gcounter_wf a" "gcounter_wf b"
  shows "g_values (gcounter_merge a b) = map2 max (g_values a) (g_values b)"
    and "g_num_nodes (gcounter_merge a b) = max (g_num_nodes a) (g_num_nodes b)"
    and "g_self_node (gcounter_merge a b) = g_self_node a"
  using assms vec_merge(1) [of "g_num_nodes a" "g_values a" "g_num_nodes b" "g_values b"]
  by (simp_all add: gcounter_merge_def gcounter_wf_def Let_def)

lemma gcounter_wf_length: "gcounter_wf g \<Longrightarrow> length (g_values g) = CRDT_MAX_NODES"
  by (simp add: gcounter_wf_def zero_from_def)

lemma gcounter_wf_merge:
  assumes "gcounter_wf a" "gcounter_wf b"
  shows "gcounter_wf (gcounter_merge a b)"
  using assms vec_merge(2) [of "g_num_nodes a" "g_values a" "g_num_nodes b" "g_values b"]
  by (auto simp: gcounter_merge_fields [OF assms] gcounter_wf_def)

interpretation gc: join_crdt gcounter_merge gcounter_payload gcounter_wf vec_join
proof
  fix a b c :: GCounter
  assume a: "gcounter_wf a"
  then show "vec_join (gcounter_payload a) (gcounter_payload a) = gcounter_payload a"
    by (simp only: gcounter_payload_def vec_join_idem)
  assume b: "gcounter_wf b"
  from a b show "gcounter_wf (gcounter_merge a b)" by (rule gcounter_wf_merge)
  from a b show "gcounter_payload (gcounter_merge a b) = vec_join (gcounter_payload a) (gcounter_payload b)"
    by (simp add: gcounter_payload_def gcounter_merge_fields)
  from a b show "vec_join (gcounter_payload a) (gcounter_payload b) =
      vec_join (gcounter_payload b) (gcounter_payload a)"
    unfolding gcounter_payload_def by (intro vec_join_comm) (simp add: gcounter_wf_length)
  assume "gcounter_wf c"
  with a b show "vec_join (vec_join (gcounter_payload a) (gcounter_payload b)) (gcounter_payload c) =
      vec_join (gcounter_payload a) (vec_join (gcounter_payload b) (gcounter_payload c))"
    unfolding gcounter_payload_def by (intro vec_join_assoc) (simp_all add: gcounter_wf_length)
qed


lemma gcounter_wf_create: "0 \<le> n \<Longrightarrow> gcounter_wf (gcounter_create self n)"
  by (auto simp: gcounter_create_def gcounter_wf_def zero_from_def)

text \<open>The sum that \<open>gcounter_value\<close> and \<open>pncounter_value\<close> compute.\<close>

lemma foldl_sum_words:
  "foldl (\<lambda>sum i. sum + vs ! i) acc is = acc + (\<Sum>i\<leftarrow>is. (vs ! i :: u64))"
  by (induction "is" arbitrary: acc) (auto simp: add.assoc)

lemma sum_list_words_exact:
  assumes "(\<Sum>i\<leftarrow>is. unat (vs ! i :: u64)) < 2 ^ 64"
  shows "unat (\<Sum>i\<leftarrow>is. vs ! i) = (\<Sum>i\<leftarrow>is. unat (vs ! i))"
  using assms
proof (induction "is")
  case (Cons i "is")
  then have "unat (\<Sum>i\<leftarrow>is. vs ! i) = (\<Sum>i\<leftarrow>is. unat (vs ! i))" by simp
  with Cons.prems show ?case
    by (simp add: unat_word_ariths)
qed simp

lemma saturating_add_nth:
  assumes "i < length vs"
  shows "unat (saturating_add vs i delta ! i) = min (2 ^ 64 - 1) (unat (vs ! i) + unat delta)"
    and "j \<noteq> i \<Longrightarrow> saturating_add vs i delta ! j = vs ! j"
    and "length (saturating_add vs i delta) = length vs"
proof -
  have m: "unat UINT64_MAX = 2 ^ 64 - 1" by (simp add: UINT64_MAX_def unsigned_minus_1_eq_mask mask_eq_exp_minus_1)
  have "unat (UINT64_MAX - vs ! i) = 2 ^ 64 - 1 - unat (vs ! i)"
  proof (subst unat_sub)
    show "vs ! i \<le> UINT64_MAX" by (simp add: UINT64_MAX_def)
  qed (simp add: m)
  with assms m unat_bound [of "vs ! i"] unat_bound [of delta]
  show "unat (saturating_add vs i delta ! i) = min (2 ^ 64 - 1) (unat (vs ! i) + unat delta)"
    by (auto simp: saturating_add_def word_less_nat_alt unat_word_ariths)
qed (auto simp: saturating_add_def)

lemma saturating_add_zero_from:
  "zero_from n vs \<Longrightarrow> i < n \<Longrightarrow> zero_from n (saturating_add vs i delta)"
  by (auto simp: zero_from_def saturating_add_def nth_list_update)

text \<open>The guard \<open>self_node >= (uint32_t)num_nodes\<close> of the counters.\<close>

lemma node_guard:
  assumes "0 \<le> n" "n \<le> int CRDT_MAX_NODES"
  shows "(of_int n :: u32) \<le> self \<longleftrightarrow> \<not> unat self < nat n"
proof -
  have "uint (of_int n :: u32) = n"
    using assms by (simp add: CRDT_MAX_NODES_def uint_word_of_int_eq take_bit_int_eq_self)
  moreover have "uint self = int (unat self)" by simp
  ultimately show ?thesis using assms(1) by (simp only: word_le_def) linarith
qed

lemma gcounter_wf_increment:
  assumes "gcounter_wf g"
  shows "gcounter_wf (gcounter_increment g delta)"
  using assms
  by (auto simp: gcounter_increment_def gcounter_wf_def node_guard intro: saturating_add_zero_from)

text \<open>
  Increments are exact until they saturate: an increment by a member node adds \<open>delta\<close> to
  that node's own component, capped at \<open>UINT64_MAX\<close> instead of wrapping around, changes no other
  node's component, and keeps the counter well formed.
\<close>

lemma gcounter_increment_saturates:
  assumes "gcounter_wf g" and "int (unat (g_self_node g)) < g_num_nodes g"
  shows "unat (g_values (gcounter_increment g delta) ! unat (g_self_node g)) =
           min (2 ^ 64 - 1) (unat (g_values g ! unat (g_self_node g)) + unat delta)
         \<and> (\<forall>j. j \<noteq> unat (g_self_node g) \<longrightarrow> g_values (gcounter_increment g delta) ! j = g_values g ! j)
         \<and> gcounter_wf (gcounter_increment g delta)"
proof -
  let ?i = "unat (g_self_node g)"
  have i: "?i < nat (g_num_nodes g)" using assms(2) by linarith
  then have l: "?i < length (g_values g)"
    using assms(1) by (auto simp: gcounter_wf_def zero_from_def)
  have e: "gcounter_increment g delta = g\<lparr>g_values := saturating_add (g_values g) ?i delta\<rparr>"
    using assms(1) i by (simp add: gcounter_increment_def gcounter_wf_def node_guard)
  with saturating_add_nth [OF l] gcounter_wf_increment [OF assms(1), of delta] show ?thesis by simp
qed

lemma gcounter_increment_saturates_example:
  "unat (g_values (gcounter_increment (gcounter_create 2 3) 5) ! 2) = 5"
proof -
  have w: "gcounter_wf (gcounter_create 2 3)" by (rule gcounter_wf_create) simp
  have "int (unat (g_self_node (gcounter_create 2 3))) < g_num_nodes (gcounter_create 2 3)"
    by (simp add: gcounter_create_def CRDT_MAX_NODES_def)
  from gcounter_increment_saturates [OF w this, of 5] show ?thesis
    by (simp add: gcounter_create_def CRDT_MAX_NODES_def)
qed

text \<open>
  G-Counter replicas converge: two replicas that started from the same state and merged the
  same set of replica states, in any order and any number of times each, report the same value.
\<close>

lemma gcounter_converges:
  assumes "gcounter_wf g" and "list_all gcounter_wf xs" and "list_all gcounter_wf ys"
    and "gcounter_payload ` set xs = gcounter_payload ` set ys"
  shows "gcounter_value (foldl gcounter_merge g xs) = gcounter_value (foldl gcounter_merge g ys)"
  using gc.convergence [OF assms] by (simp add: gcounter_payload_def gcounter_value_def)

lemma gcounter_converges_example:
  "let a = gcounter_increment (gcounter_create 0 3) 5; b = gcounter_increment (gcounter_create 1 3) 7
   in gcounter_value (foldl gcounter_merge (gcounter_create 2 3) [a, b]) =
      gcounter_value (foldl gcounter_merge (gcounter_create 2 3) [b, a, b])"
proof -
  have w: "gcounter_wf (gcounter_increment (gcounter_create i 3) d)" for i d
    by (intro gcounter_wf_increment gcounter_wf_create) simp
  have "gcounter_wf (gcounter_create 2 3)" by (rule gcounter_wf_create) simp
  from gcounter_converges [OF this] show ?thesis
    unfolding Let_def by (rule) (simp_all add: w, blast)
qed

subsection \<open>PN-Counter\<close>

record PNCounter =
  p_positive :: "u64 list"
  p_negative :: "u64 list"
  p_num_nodes :: int
  p_self_node :: u32

definition pncounter_create :: "u32 \<Rightarrow> int \<Rightarrow> PNCounter" where
  "pncounter_create self_node_id num_nodes =
     \<lparr>p_positive = replicate CRDT_MAX_NODES 0, p_negative = replicate CRDT_MAX_NODES 0,
      p_num_nodes = (if int CRDT_MAX_NODES < num_nodes then int CRDT_MAX_NODES else num_nodes),
      p_self_node = self_node_id\<rparr>"

definition pncounter_increment :: "PNCounter \<Rightarrow> u64 \<Rightarrow> PNCounter" where
  "pncounter_increment p delta =
     (if of_int (p_num_nodes p) \<le> p_self_node p then p
      else p\<lparr>p_positive := saturating_add (p_positive p) (unat (p_self_node p)) delta\<rparr>)"

definition pncounter_decrement :: "PNCounter \<Rightarrow> u64 \<Rightarrow> PNCounter" where
  "pncounter_decrement p delta =
     (if of_int (p_num_nodes p) \<le> p_self_node p then p
      else p\<lparr>p_negative := saturating_add (p_negative p) (unat (p_self_node p)) delta\<rparr>)"

text \<open>
  The two sums wrap at 64 bits and are read back as \<open>int64_t\<close>.  Their difference is kept as an
  integer: where it leaves the \<open>int64_t\<close> range the C subtraction has no defined result.
\<close>

definition pncounter_value :: "PNCounter \<Rightarrow> int" where
  "pncounter_value p =
     (let (pos, neg) = foldl (\<lambda>(pos, neg) i. (pos + p_positive p ! i, neg + p_negative p ! i)) (0 :: u64, 0 :: u64)
                          [0..<nat (p_num_nodes p)]
      in sint pos - sint neg)"

definition pncounter_merge :: "PNCounter \<Rightarrow> PNCounter \<Rightarrow> PNCounter" where
  "pncounter_merge dst src =
     (let n = min (max (p_num_nodes dst) (p_num_nodes src)) (int CRDT_MAX_NODES)
      in dst\<lparr>p_positive := max_upto (nat n) (p_positive src) (p_positive dst),
             p_negative := max_upto (nat n) (p_negative src) (p_negative dst),
             p_num_nodes := max (p_num_nodes dst) (p_num_nodes src)\<rparr>)"

definition pncounter_wf :: "PNCounter \<Rightarrow> bool" where
  "pncounter_wf p \<longleftrightarrow>
     0 \<le> p_num_nodes p \<and> p_num_nodes p \<le> int CRDT_MAX_NODES \<and>
     zero_from (nat (p_num_nodes p)) (p_positive p) \<and> zero_from (nat (p_num_nodes p)) (p_negative p)"

definition pncounter_payload :: "PNCounter \<Rightarrow> (u64 list \<times> int) \<times> (u64 list \<times> int)" where
  "pncounter_payload p = ((p_positive p, p_num_nodes p), (p_negative p, p_num_nodes p))"

fun pn_join ::
  "(u64 list \<times> int) \<times> (u64 list \<times> int) \<Rightarrow> (u64 list \<times> int) \<times> (u64 list \<times> int) \<Rightarrow>
   (u64 list \<times> int) \<times> (u64 list \<times> int)" where
  "pn_join (a, b) (c, d) = (vec_join a c, vec_join b d)"

lemma pncounter_merge_fields:
  assumes "pncounter_wf a" "pncounter_wf b"
  shows "p_positive (pncounter_merge a b) = map2 max (p_positive a) (p_positive b)"
    and "p_negative (pncounter_merge a b) = map2 max (p_negative a) (p_negative b)"
    and "p_num_nodes (pncounter_merge a b) = max (p_num_nodes a) (p_num_nodes b)"
  using assms vec_merge(1) [of "p_num_nodes a" "p_positive a" "p_num_nodes b" "p_positive b"]
    vec_merge(1) [of "p_num_nodes a" "p_negative a" "p_num_nodes b" "p_negative b"]
  by (simp_all add: pncounter_merge_def pncounter_wf_def Let_def)

lemma pncounter_wf_length:
  "pncounter_wf p \<Longrightarrow> length (p_positive p) = CRDT_MAX_NODES"
  "pncounter_wf p \<Longrightarrow> length (p_negative p) = CRDT_MAX_NODES"
  by (simp_all add: pncounter_wf_def zero_from_def)

lemma pncounter_wf_merge:
  assumes "pncounter_wf a" "pncounter_wf b"
  shows "pncounter_wf (pncounter_merge a b)"
  using assms vec_merge(2) [of "p_num_nodes a" "p_positive a" "p_num_nodes b" "p_positive b"]
    vec_merge(2) [of "p_num_nodes a" "p_negative a" "p_num_nodes b" "p_negative b"]
  by (auto simp: pncounter_merge_fields [OF assms] pncounter_wf_def)

lemma pncounter_wf_ops:
  "0 \<le> n \<Longrightarrow> pncounter_wf (pncounter_create self n)"
  "pncounter_wf p \<Longrightarrow> pncounter_wf (pncounter_increment p delta)"
  "pncounter_wf p \<Longrightarrow> pncounter_wf (pncounter_decrement p delta)"
  by (auto simp: pncounter_create_def pncounter_increment_def pncounter_decrement_def pncounter_wf_def
      node_guard zero_from_def [of _ "replicate _ _"] intro: saturating_add_zero_from)

interpretation pn: join_crdt pncounter_merge pncounter_payload pncounter_wf pn_join
proof
  fix a b c :: PNCounter
  assume a: "pncounter_wf a"
  show "pn_join (pncounter_payload a) (pncounter_payload a) = pncounter_payload a"
    by (simp only: pncounter_payload_def pn_join.simps vec_join_idem)
  assume b: "pncounter_wf b"
  from a b show "pncounter_wf (pncounter_merge a b)" by (rule pncounter_wf_merge)
  from a b show "pncounter_payload (pncounter_merge a b) = pn_join (pncounter_payload a) (pncounter_payload b)"
    by (simp add: pncounter_payload_def pncounter_merge_fields)
  from a b show "pn_join (pncounter_payload a) (pncounter_payload b) =
      pn_join (pncounter_payload b) (pncounter_payload a)"
    unfolding pncounter_payload_def pn_join.simps prod.inject
    by (intro conjI vec_join_comm) (simp_all add: pncounter_wf_length)
  assume "pncounter_wf c"
  with a b show "pn_join (pn_join (pncounter_payload a) (pncounter_payload b)) (pncounter_payload c) =
      pn_join (pncounter_payload a) (pn_join (pncounter_payload b) (pncounter_payload c))"
    unfolding pncounter_payload_def pn_join.simps prod.inject
    by (intro conjI vec_join_assoc) (simp_all add: pncounter_wf_length)
qed

lemma foldl_pair_sums:
  "foldl (\<lambda>(pos, neg) i. (pos + vs ! i, neg + ws ! i)) (a, b) is =
     (a + (\<Sum>i\<leftarrow>is. (vs ! i :: u64)), b + (\<Sum>i\<leftarrow>is. (ws ! i :: u64)))"
  by (induction "is" arbitrary: a b) (auto simp: add.assoc)

lemma sint_of_small: "unat w < 2 ^ 63 \<Longrightarrow> sint (w :: u64) = int (unat w)"
proof -
  assume "unat w < 2 ^ 63"
  moreover have "uint w = int (unat w)" by simp
  moreover have "int (unat w) < int (2 ^ 63)" using calculation(1) by (simp only: of_nat_less_iff)
  ultimately have "uint w < 2 ^ 63" by simp
  moreover have "- (2 ^ 63) \<le> uint w" by (rule order_trans [of _ 0]) simp_all
  ultimately have "signed_take_bit 63 (uint w) = uint w" by (intro signed_take_bit_int_eq_self)
  then show ?thesis by (simp add: sint_uint)
qed

lemma pncounter_value_exact:
  assumes "(\<Sum>i\<leftarrow>[0..<nat (p_num_nodes p)]. unat (p_positive p ! i)) < 2 ^ 63"
    and "(\<Sum>i\<leftarrow>[0..<nat (p_num_nodes p)]. unat (p_negative p ! i)) < 2 ^ 63"
  shows "pncounter_value p =
           int (\<Sum>i\<leftarrow>[0..<nat (p_num_nodes p)]. unat (p_positive p ! i)) -
           int (\<Sum>i\<leftarrow>[0..<nat (p_num_nodes p)]. unat (p_negative p ! i))"
  using assms sum_list_words_exact [of "p_positive p" "[0..<nat (p_num_nodes p)]"]
    sum_list_words_exact [of "p_negative p" "[0..<nat (p_num_nodes p)]"]
  by (simp add: pncounter_value_def foldl_pair_sums sint_of_small)

lemma sum_list_update:
  assumes "i < n" "n \<le> length vs" "length ws = length vs"
    and "\<And>j. j \<noteq> i \<Longrightarrow> ws ! j = vs ! j"
  shows "(\<Sum>j\<leftarrow>[0..<n]. unat (ws ! j :: u64)) + unat (vs ! i) = (\<Sum>j\<leftarrow>[0..<n]. unat (vs ! j)) + unat (ws ! i)"
proof -
  have "(\<Sum>j\<in>{0..<n}. unat (us ! j)) = unat (us ! i) + (\<Sum>j\<in>{0..<n} - {i}. unat (us ! j))" for us :: "u64 list"
    using assms(1) by (intro sum.remove) auto
  moreover have "(\<Sum>j\<in>{0..<n} - {i}. unat (ws ! j)) = (\<Sum>j\<in>{0..<n} - {i}. unat (vs ! j))"
    using assms(4) by (intro sum.cong) auto
  ultimately show ?thesis by (simp add: interv_sum_list_conv_sum_set_nat)
qed

lemma sum_saturating_add:
  assumes "i < n" "zero_from n vs" "n \<le> CRDT_MAX_NODES"
    and "(\<Sum>j\<leftarrow>[0..<n]. unat (vs ! j)) + unat delta < 2 ^ 63"
  shows "(\<Sum>j\<leftarrow>[0..<n]. unat (saturating_add vs i delta ! j)) = (\<Sum>j\<leftarrow>[0..<n]. unat (vs ! j)) + unat delta"
proof -
  have l: "i < length vs" "n \<le> length vs" using assms by (auto simp: zero_from_def)
  have "unat (vs ! i) \<le> (\<Sum>j\<leftarrow>[0..<n]. unat (vs ! j))"
    using assms(1) by (intro member_le_sum_list) auto
  then have "unat (saturating_add vs i delta ! i) = unat (vs ! i) + unat delta"
    using assms(4) saturating_add_nth(1) [OF l(1), of delta] by simp
  with sum_list_update [of i n vs "saturating_add vs i delta"] assms(1) l saturating_add_nth [OF l(1)]
  show ?thesis by simp
qed

text \<open>
  On a member node of a well-formed PN-Counter whose two sums stay below \<open>2^63\<close>, incrementing
  by \<open>delta\<close> raises the reported signed value by exactly \<open>delta\<close> and decrementing lowers it by
  exactly \<open>delta\<close>, below zero where that is the result.
\<close>

lemma pncounter_updates_exact:
  assumes "pncounter_wf p" and "int (unat (p_self_node p)) < p_num_nodes p"
    and "(\<Sum>i\<leftarrow>[0..<nat (p_num_nodes p)]. unat (p_positive p ! i)) + unat delta < 2 ^ 63"
    and "(\<Sum>i\<leftarrow>[0..<nat (p_num_nodes p)]. unat (p_negative p ! i)) + unat delta < 2 ^ 63"
  shows "pncounter_value (pncounter_increment p delta) = pncounter_value p + int (unat delta)
         \<and> pncounter_value (pncounter_decrement p delta) = pncounter_value p - int (unat delta)"
proof -
  let ?i = "unat (p_self_node p)" and ?n = "nat (p_num_nodes p)"
  have i: "?i < ?n" using assms(2) by linarith
  have n: "?n \<le> CRDT_MAX_NODES" using assms(1) by (simp add: pncounter_wf_def nat_le_iff)
  have z: "zero_from ?n (p_positive p)" "zero_from ?n (p_negative p)"
    using assms(1) by (auto simp: pncounter_wf_def)
  note sums = sum_saturating_add [OF i z(1) n assms(3)] sum_saturating_add [OF i z(2) n assms(4)]
  have "pncounter_increment p delta = p\<lparr>p_positive := saturating_add (p_positive p) ?i delta\<rparr>"
    "pncounter_decrement p delta = p\<lparr>p_negative := saturating_add (p_negative p) ?i delta\<rparr>"
    using assms(1) i by (simp_all add: pncounter_increment_def pncounter_decrement_def pncounter_wf_def node_guard)
  with assms(3,4) sums show ?thesis
    by (simp add: pncounter_value_exact)
qed

lemma pncounter_updates_exact_example:
  "pncounter_value (pncounter_decrement (pncounter_create 1 2) 9) = - 9"
proof -
  have "p_num_nodes (pncounter_create 1 2) = 2" "p_self_node (pncounter_create 1 2) = 1"
    "p_positive (pncounter_create 1 2) = replicate 128 0" "p_negative (pncounter_create 1 2) = replicate 128 0"
    by (simp_all add: pncounter_create_def CRDT_MAX_NODES_def)
  note f = this
  have "pncounter_wf (pncounter_create 1 2)" by (rule pncounter_wf_ops) simp
  then have "pncounter_value (pncounter_decrement (pncounter_create 1 2) 9) =
      pncounter_value (pncounter_create 1 2) - 9"
    using pncounter_updates_exact [of "pncounter_create 1 2" 9] by (simp add: f upt_rec)
  moreover have "pncounter_value (pncounter_create 1 2) = 0"
    by (simp add: pncounter_value_def f foldl_pair_sums upt_rec)
  ultimately show ?thesis by simp
qed

text \<open>
  PN-Counter replicas converge: two replicas that started from the same state and merged the
  same set of replica states, in any order and any number of times each, report the same value.
\<close>

lemma pncounter_converges:
  assumes "pncounter_wf p" and "list_all pncounter_wf xs" and "list_all pncounter_wf ys"
    and "pncounter_payload ` set xs = pncounter_payload ` set ys"
  shows "pncounter_value (foldl pncounter_merge p xs) = pncounter_value (foldl pncounter_merge p ys)"
  using pn.convergence [OF assms] by (simp add: pncounter_payload_def pncounter_value_def)

lemma pncounter_converges_example:
  "let a = pncounter_increment (pncounter_create 0 3) 5; b = pncounter_decrement (pncounter_create 1 3) 7
   in pncounter_value (foldl pncounter_merge (pncounter_create 2 3) [a, b]) =
      pncounter_value (foldl pncounter_merge (pncounter_create 2 3) [b, a, b])"
proof -
  have "pncounter_wf (pncounter_create i 3)" for i by (rule pncounter_wf_ops) simp
  then have w: "pncounter_wf (pncounter_create 2 3)"
    "pncounter_wf (pncounter_increment (pncounter_create 0 3) 5)"
    "pncounter_wf (pncounter_decrement (pncounter_create 1 3) 7)"
    by (simp_all add: pncounter_wf_ops)
  from pncounter_converges [OF w(1)] show ?thesis
    unfolding Let_def by (rule) (simp_all add: w, blast)
qed

subsection \<open>LWW-Register\<close>

text \<open>
  The bytes of \<open>value\<close> beyond \<open>value_len\<close> are never read, so the register holds the list of its
  first \<open>value_len\<close> bytes.  The clock \<open>crdt_us_now\<close> is an argument of \<open>lww_set\<close>.
\<close>

record LWWRegister =
  l_value :: bytes
  l_timestamp_us :: u64
  l_node_id :: u32
  l_clocks :: "u64 list"
  l_num_nodes :: int

definition lww_create :: "u32 \<Rightarrow> int \<Rightarrow> LWWRegister" where
  "lww_create self_node_id num_nodes =
     \<lparr>l_value = [], l_timestamp_us = 0, l_node_id = self_node_id, l_clocks = replicate CRDT_MAX_NODES 0,
      l_num_nodes = (if num_nodes < int CRDT_MAX_NODES then num_nodes else int CRDT_MAX_NODES)\<rparr>"

definition lww_set :: "u64 \<Rightarrow> LWWRegister \<Rightarrow> bytes option \<Rightarrow> int \<times> LWWRegister" where
  "lww_set now r value =
     (case value of None \<Rightarrow> (- 1, r)
      | Some v \<Rightarrow>
          if length v = 0 \<or> 1023 < length v then (- 1, r)
          else (0, r\<lparr>l_timestamp_us := now,
                     l_clocks := (if l_node_id r < of_int (l_num_nodes r)
                                  then (l_clocks r)[unat (l_node_id r) := l_clocks r ! unat (l_node_id r) + 1]
                                  else l_clocks r),
                     l_value := v\<rparr>))"

definition lww_get :: "LWWRegister \<Rightarrow> nat \<Rightarrow> bytes" where
  "lww_get r buf_len = take (if length (l_value r) < buf_len then length (l_value r) else buf_len) (l_value r)"

definition lww_should_update :: "LWWRegister \<Rightarrow> LWWRegister \<Rightarrow> bool" where
  "lww_should_update dst src \<longleftrightarrow>
     l_timestamp_us dst < l_timestamp_us src \<or>
     l_timestamp_us src = l_timestamp_us dst \<and> l_node_id dst < l_node_id src"

definition lww_merge :: "LWWRegister \<Rightarrow> LWWRegister \<Rightarrow> LWWRegister" where
  "lww_merge dst src =
     (let dst' = (if lww_should_update dst src \<and> length (l_value src) \<le> 1024
                  then dst\<lparr>l_value := l_value src, l_timestamp_us := l_timestamp_us src, l_node_id := l_node_id src\<rparr>
                  else dst);
          n = min (max (l_num_nodes dst) (l_num_nodes src)) (int CRDT_MAX_NODES)
      in dst'\<lparr>l_clocks := max_upto (nat n) (l_clocks src) (l_clocks dst)\<rparr>)"

text \<open>
  The well-formedness of a register relative to the write log \<open>reg\<close> of the system: the value held
  is the one written under its (timestamp, node) stamp.
\<close>

definition lww_wf :: "(u64 \<times> u32 \<Rightarrow> bytes) \<Rightarrow> LWWRegister \<Rightarrow> bool" where
  "lww_wf reg r \<longleftrightarrow> length (l_value r) \<le> 1023 \<and> l_value r = reg (l_timestamp_us r, l_node_id r)"

definition lww_payload :: "LWWRegister \<Rightarrow> (u64 \<times> u32) \<times> bytes" where
  "lww_payload r = ((l_timestamp_us r, l_node_id r), l_value r)"

fun lww_join :: "(u64 \<times> u32) \<times> bytes \<Rightarrow> (u64 \<times> u32) \<times> bytes \<Rightarrow> (u64 \<times> u32) \<times> bytes" where
  "lww_join ((t, n), v) ((t', n'), v') =
     (if t < t' \<or> t' = t \<and> n < n' then ((t', n'), v') else ((t, n), v))"

lemma lww_payload_merge:
  assumes "lww_wf reg b"
  shows "lww_payload (lww_merge a b) = lww_join (lww_payload a) (lww_payload b)"
  using assms by (auto simp: lww_merge_def lww_payload_def lww_should_update_def lww_wf_def Let_def)

lemma lww_wf_payload: "lww_wf reg r \<longleftrightarrow> (\<lambda>(s, v). length v \<le> 1023 \<and> v = reg s) (lww_payload r)"
  by (simp add: lww_wf_def lww_payload_def)

interpretation lww: join_crdt lww_merge lww_payload "lww_wf reg" lww_join for reg
proof
  fix a b c :: LWWRegister
  assume a: "lww_wf reg a"
  show "lww_join (lww_payload a) (lww_payload a) = lww_payload a"
    by (simp add: lww_payload_def)
  assume b: "lww_wf reg b"
  show p: "lww_payload (lww_merge a b) = lww_join (lww_payload a) (lww_payload b)"
    using b by (rule lww_payload_merge)
  show "lww_wf reg (lww_merge a b)"
    using a b by (auto simp: lww_wf_payload p) (auto simp: lww_payload_def split: if_splits)
  show "lww_join (lww_payload a) (lww_payload b) = lww_join (lww_payload b) (lww_payload a)"
    using a b by (auto simp: lww_payload_def lww_wf_def)
  show "lww_join (lww_join (lww_payload a) (lww_payload b)) (lww_payload c) =
      lww_join (lww_payload a) (lww_join (lww_payload b) (lww_payload c))"
    by (auto simp: lww_payload_def)
qed

text \<open>
  C23. LWW-Register replicas converge: when every (timestamp, node) stamp names one written value,
  two replicas that merged the same set of replica states in any order and multiplicity read the
  same value.
\<close>

theorem lww_converges:
  assumes "lww_wf reg r" and "list_all (lww_wf reg) xs" and "list_all (lww_wf reg) ys"
    and "lww_payload ` set xs = lww_payload ` set ys"
  shows "lww_get (foldl lww_merge r xs) n = lww_get (foldl lww_merge r ys) n"
  using lww.convergence [OF assms] by (simp add: lww_payload_def lww_get_def)

theorem lww_converges_witness:
  "let r = lww_create 0 3; a = snd (lww_set 10 (lww_create 1 3) (Some [65]));
       b = snd (lww_set 10 (lww_create 2 3) (Some [66]))
   in lww_get (foldl lww_merge r [a, b]) 16 = lww_get (foldl lww_merge r [b, a, b]) 16"
proof -
  let ?reg = "\<lambda>(t, n). if t = 0 then [] else if n = 1 then [65] else [66 :: u8]"
  have w: "lww_wf ?reg (lww_create 0 3)" "lww_wf ?reg (snd (lww_set 10 (lww_create 1 3) (Some [65])))"
    "lww_wf ?reg (snd (lww_set 10 (lww_create 2 3) (Some [66])))"
    by (simp_all add: lww_wf_def lww_create_def lww_set_def)
  from lww_converges [OF w(1)] show ?thesis
    unfolding Let_def by (rule) (simp_all add: w, blast)
qed

text \<open>
  The tie-break does not identify the writer once a register has merged: \<open>lww_merge\<close> copies
  the remote \<open>node_id\<close> over the local one.  Here node 1 merges a register of node 2 and then both
  write in the same microsecond.  Both writes carry node 2's identity, and after exchanging and
  merging their states the two replicas still hold different values.
\<close>

lemma lww_merge_loses_identity:
  "let b0 = snd (lww_set 5 (lww_create 2 3) (Some [1]));
       a = snd (lww_set 9 (lww_merge (lww_create 1 3) b0) (Some [65]));
       b = snd (lww_set 9 b0 (Some [66]))
   in l_node_id a = 2 \<and> l_node_id b = 2 \<and>
      lww_get (lww_merge a b) 16 = [65] \<and> lww_get (lww_merge b a) 16 = [66]"
  by (simp add: Let_def lww_set_def lww_merge_def lww_should_update_def lww_create_def lww_get_def CRDT_MAX_NODES_def)

subsection \<open>OR-Set\<close>

text \<open>
  An entry holds the first \<open>value_len\<close> bytes of its \<open>value\<close> array, and \<open>count\<close> is the length of
  the list of entries.  \<open>can_grow\<close> says whether a \<open>realloc\<close> of the entry array succeeds.
\<close>

record ORSetEntry =
  oe_value :: bytes
  oe_add_tag :: u64
  oe_origin_node :: u32
  oe_is_removed :: bool

record ORSet =
  os_entries :: "ORSetEntry list"
  os_capacity :: u32
  os_next_tag :: u64
  os_self_node :: u32

definition orset_create :: "u32 \<Rightarrow> ORSet" where
  "orset_create self_node_id = \<lparr>os_entries = [], os_capacity = 64, os_next_tag = 1, os_self_node = self_node_id\<rparr>"

definition oe_id :: "ORSetEntry \<Rightarrow> u64 \<times> u32" where
  "oe_id e = (oe_add_tag e, oe_origin_node e)"

definition oe_live :: "bytes \<Rightarrow> ORSetEntry \<Rightarrow> bool" where
  "oe_live v e \<longleftrightarrow> \<not> oe_is_removed e \<and> oe_value e = v"

text \<open>Room for one more entry: \<open>None\<close> where the array is full and cannot grow.\<close>

definition orset_reserve :: "bool \<Rightarrow> ORSet \<Rightarrow> ORSet option" where
  "orset_reserve can_grow s =
     (if os_capacity s \<le> of_nat (length (os_entries s))
      then if can_grow then Some (s\<lparr>os_capacity := os_capacity s * 2\<rparr>) else None
      else Some s)"

definition orset_add :: "bool \<Rightarrow> ORSet \<Rightarrow> bytes option \<Rightarrow> int \<times> ORSet" where
  "orset_add can_grow s value =
     (case value of None \<Rightarrow> (- 1, s)
      | Some v \<Rightarrow>
          if length v = 0 \<or> 255 < length v then (- 1, s)
          else case orset_reserve can_grow s of None \<Rightarrow> (- 1, s)
            | Some s' \<Rightarrow>
                (0, s'\<lparr>os_entries := os_entries s' @
                        [\<lparr>oe_value = v, oe_add_tag = os_next_tag s', oe_origin_node = os_self_node s',
                          oe_is_removed = False\<rparr>],
                       os_next_tag := os_next_tag s' + 1\<rparr>))"

definition orset_remove :: "ORSet \<Rightarrow> bytes option \<Rightarrow> int \<times> ORSet" where
  "orset_remove s value =
     (case value of None \<Rightarrow> (- 1, s)
      | Some v \<Rightarrow>
          if length v = 0 then (- 1, s)
          else (if list_ex (oe_live v) (os_entries s) then 1 else 0,
                s\<lparr>os_entries := map (\<lambda>e. if oe_live v e then e\<lparr>oe_is_removed := True\<rparr> else e) (os_entries s)\<rparr>))"

definition orset_contains :: "ORSet \<Rightarrow> bytes option \<Rightarrow> bool" where
  "orset_contains s value =
     (case value of None \<Rightarrow> False
      | Some v \<Rightarrow> length v \<noteq> 0 \<and> list_ex (oe_live v) (os_entries s))"

definition orset_size :: "ORSet \<Rightarrow> u32" where
  "orset_size s = foldl (\<lambda>count e. if oe_is_removed e then count else count + 1) 0 (os_entries s)"

text \<open>One iteration of the outer loop of \<open>orset_merge\<close>; \<open>None\<close> is its \<open>break\<close>.\<close>

definition orset_merge_entry :: "bool \<Rightarrow> ORSet \<Rightarrow> ORSetEntry \<Rightarrow> ORSet option" where
  "orset_merge_entry can_grow dst se =
     (case find_index (\<lambda>e. oe_add_tag e = oe_add_tag se \<and> oe_origin_node e = oe_origin_node se) (os_entries dst) of
        Some j \<Rightarrow>
          Some (dst\<lparr>os_entries := (os_entries dst)
                  [j := (os_entries dst ! j)\<lparr>oe_is_removed := oe_is_removed (os_entries dst ! j) \<or> oe_is_removed se\<rparr>]\<rparr>)
      | None \<Rightarrow>
          (case orset_reserve can_grow dst of
             None \<Rightarrow> None
           | Some dst' \<Rightarrow> Some (dst'\<lparr>os_entries := os_entries dst' @ [se]\<rparr>)))"

primrec orset_merge_entries :: "bool \<Rightarrow> ORSetEntry list \<Rightarrow> ORSet \<Rightarrow> ORSet" where
  "orset_merge_entries can_grow [] dst = dst"
| "orset_merge_entries can_grow (se # ses) dst =
     (case orset_merge_entry can_grow dst se of
        None \<Rightarrow> dst
      | Some dst' \<Rightarrow> orset_merge_entries can_grow ses dst')"

definition orset_merge :: "bool \<Rightarrow> ORSet \<Rightarrow> ORSet \<Rightarrow> ORSet" where
  "orset_merge can_grow dst src = orset_merge_entries can_grow (os_entries src) dst"

text \<open>
  The entry history an OR-Set stands for: what it knows of each (tag, origin) identity, the value
  added under it and whether it has been removed.
\<close>

definition orset_payload :: "ORSet \<Rightarrow> u64 \<times> u32 \<Rightarrow> (bytes \<times> bool) option" where
  "orset_payload s = map_of (map (\<lambda>e. (oe_id e, (oe_value e, oe_is_removed e))) (os_entries s))"

definition orset_wf :: "(u64 \<times> u32 \<Rightarrow> bytes) \<Rightarrow> ORSet \<Rightarrow> bool" where
  "orset_wf reg s \<longleftrightarrow>
     distinct (map oe_id (os_entries s)) \<and> (\<forall>e \<in> set (os_entries s). oe_value e = reg (oe_id e))"

fun entry_join :: "(bytes \<times> bool) option \<Rightarrow> (bytes \<times> bool) option \<Rightarrow> (bytes \<times> bool) option" where
  "entry_join None y = y"
| "entry_join x None = x"
| "entry_join (Some (v, r)) (Some (v', r')) = Some (v, r \<or> r')"

definition orset_join ::
  "(u64 \<times> u32 \<Rightarrow> (bytes \<times> bool) option) \<Rightarrow> (u64 \<times> u32 \<Rightarrow> (bytes \<times> bool) option) \<Rightarrow>
   (u64 \<times> u32 \<Rightarrow> (bytes \<times> bool) option)" where
  "orset_join p q = (\<lambda>i. entry_join (p i) (q i))"

lemma entry_join_None [simp]: "entry_join x None = x"
  by (cases x) auto

lemma orset_payload_Some:
  assumes "orset_wf reg s"
  shows "orset_payload s i = Some (v, r) \<longleftrightarrow>
           (\<exists>e \<in> set (os_entries s). oe_id e = i \<and> oe_value e = v \<and> oe_is_removed e = r)"
  using assms by (simp add: orset_payload_def orset_wf_def map_of_distinct)

lemma orset_payload_None: "orset_payload s i = None \<longleftrightarrow> i \<notin> oe_id ` set (os_entries s)"
  by (force simp: orset_payload_def map_of_eq_None_iff)

lemma orset_reserve_True: "\<exists>s'. orset_reserve True s = Some s' \<and> os_entries s' = os_entries s \<and>
    os_next_tag s' = os_next_tag s \<and> os_self_node s' = os_self_node s"
  by (simp add: orset_reserve_def)

lemma orset_merge_entry_step:
  assumes wf: "orset_wf reg dst" and se: "oe_value se = reg (oe_id se)"
  shows "\<exists>dst'. orset_merge_entry True dst se = Some dst' \<and> orset_wf reg dst' \<and>
           orset_payload dst' = (orset_payload dst)
             (oe_id se := entry_join (orset_payload dst (oe_id se)) (Some (oe_value se, oe_is_removed se)))"
proof -
  let ?es = "os_entries dst" and ?val = "\<lambda>e. (oe_value e, oe_is_removed e)"
  let ?f = "find_index (\<lambda>e. oe_id e = oe_id se) ?es"
  have dist: "distinct (map oe_id ?es)" using wf by (simp add: orset_wf_def)
  have me: "orset_merge_entry True dst se = (case ?f of
      Some j \<Rightarrow> Some (dst\<lparr>os_entries := ?es[j := (?es ! j)\<lparr>oe_is_removed := oe_is_removed (?es ! j) \<or> oe_is_removed se\<rparr>]\<rparr>)
    | None \<Rightarrow> map_option (\<lambda>d. d\<lparr>os_entries := os_entries d @ [se]\<rparr>) (orset_reserve True dst))"
    by (simp add: orset_merge_entry_def oe_id_def orset_reserve_def split: option.split)
  show ?thesis
  proof (cases ?f)
    case None
    obtain d where d: "orset_reserve True dst = Some d" "os_entries d = ?es" using orset_reserve_True by blast
    from wf se d find_index_key_append(1) [OF dist None refl] have "orset_wf reg (d\<lparr>os_entries := ?es @ [se]\<rparr>)"
      by (auto simp: orset_wf_def)
    moreover have "orset_payload (d\<lparr>os_entries := ?es @ [se]\<rparr>) = (orset_payload dst)(oe_id se \<mapsto> ?val se)"
      using find_index_key_append(2) [OF dist None refl, of ?val] by (simp add: orset_payload_def)
    moreover have "orset_payload dst (oe_id se) = None" using None by (simp add: orset_payload_def find_index_map_of)
    ultimately show ?thesis using None d by (simp add: me)
  next
    case (Some j)
    let ?e = "(?es ! j)\<lparr>oe_is_removed := oe_is_removed (?es ! j) \<or> oe_is_removed se\<rparr>"
    from find_index_SomeD [OF Some] have j: "j < length ?es" "oe_id (?es ! j) = oe_id se" by auto
    then have id: "oe_id ?e = oe_id se" by (simp add: oe_id_def)
    have "orset_wf reg (dst\<lparr>os_entries := ?es[j := ?e]\<rparr>)"
      using wf j id find_index_key_update(1) [OF dist Some id] set_update_subset_insert [of ?es j ?e]
      by (auto simp: orset_wf_def)
    moreover have "orset_payload (dst\<lparr>os_entries := ?es[j := ?e]\<rparr>) = (orset_payload dst)(oe_id se \<mapsto> ?val ?e)"
      using find_index_key_update(2) [OF dist Some id, of ?val] by (simp add: orset_payload_def)
    moreover have "orset_payload dst (oe_id se) = Some (?val (?es ! j))"
      using Some by (simp add: orset_payload_def find_index_map_of)
    ultimately show ?thesis using Some by (simp add: me)
  qed
qed

lemma orset_merge_entries_join:
  assumes "orset_wf reg dst" "distinct (map oe_id es)" "\<forall>e \<in> set es. oe_value e = reg (oe_id e)"
  shows "orset_wf reg (orset_merge_entries True es dst) \<and>
         orset_payload (orset_merge_entries True es dst) =
           orset_join (orset_payload dst) (map_of (map (\<lambda>e. (oe_id e, (oe_value e, oe_is_removed e))) es))"
  using assms
proof (induction es arbitrary: dst)
  case Nil
  then show ?case by (simp add: orset_join_def)
next
  case (Cons se es)
  then obtain d where d: "orset_merge_entry True dst se = Some d" "orset_wf reg d"
    "orset_payload d = (orset_payload dst)
       (oe_id se := entry_join (orset_payload dst (oe_id se)) (Some (oe_value se, oe_is_removed se)))"
    using orset_merge_entry_step [of reg dst se] by auto
  have "map_of (map (\<lambda>e. (oe_id e, (oe_value e, oe_is_removed e))) es) (oe_id se) = None"
    using Cons.prems(2) by (auto simp: map_of_eq_None_iff)
  with d Cons.IH [OF d(2)] Cons.prems show ?case
    by (auto simp: orset_join_def fun_eq_iff)
qed

lemma orset_merge_join:
  assumes "orset_wf reg a" "orset_wf reg b"
  shows "orset_wf reg (orset_merge True a b)"
    and "orset_payload (orset_merge True a b) = orset_join (orset_payload a) (orset_payload b)"
proof -
  have "distinct (map oe_id (os_entries b))" "\<forall>e \<in> set (os_entries b). oe_value e = reg (oe_id e)"
    using assms(2) by (simp_all add: orset_wf_def)
  note j = orset_merge_entries_join [OF assms(1) this]
  from j show "orset_wf reg (orset_merge True a b)" by (simp add: orset_merge_def)
  from j show "orset_payload (orset_merge True a b) = orset_join (orset_payload a) (orset_payload b)"
    by (simp only: orset_merge_def orset_payload_def [of b])
qed

lemma orset_payload_value: "orset_wf reg s \<Longrightarrow> orset_payload s i = Some (v, r) \<Longrightarrow> v = reg i"
  using orset_payload_Some [of reg s i v r] by (auto simp: orset_wf_def)

lemma entry_join_idem: "entry_join x x = x"
  by (cases x) auto

lemma entry_join_assoc: "entry_join (entry_join x y) z = entry_join x (entry_join y z)"
  by (cases x; cases y; cases z) auto

lemma orset_join_comm:
  assumes "orset_wf reg a" "orset_wf reg b"
  shows "orset_join (orset_payload a) (orset_payload b) = orset_join (orset_payload b) (orset_payload a)"
  unfolding orset_join_def
proof
  fix i
  show "entry_join (orset_payload a i) (orset_payload b i) = entry_join (orset_payload b i) (orset_payload a i)"
  proof (cases "orset_payload a i = None \<or> orset_payload b i = None")
    case False
    then obtain v r w q where p: "orset_payload a i = Some (v, r)" "orset_payload b i = Some (w, q)"
      by (cases "orset_payload a i"; cases "orset_payload b i") auto
    then have "v = w" using assms orset_payload_value by metis
    with p show ?thesis by auto
  qed auto
qed

interpretation ors: join_crdt "orset_merge True" orset_payload "orset_wf reg" orset_join for reg
proof
  fix a b c :: ORSet
  show "orset_join (orset_payload a) (orset_payload a) = orset_payload a"
    by (simp add: orset_join_def entry_join_idem)
  assume a: "orset_wf reg a" and b: "orset_wf reg b"
  from a b show "orset_wf reg (orset_merge True a b)" by (rule orset_merge_join)
  from a b show "orset_payload (orset_merge True a b) = orset_join (orset_payload a) (orset_payload b)"
    by (rule orset_merge_join)
  from a b show "orset_join (orset_payload a) (orset_payload b) = orset_join (orset_payload b) (orset_payload a)"
    by (rule orset_join_comm)
  show "orset_join (orset_join (orset_payload a) (orset_payload b)) (orset_payload c) =
      orset_join (orset_payload a) (orset_join (orset_payload b) (orset_payload c))"
    unfolding orset_join_def by (intro ext entry_join_assoc)
qed

lemma orset_contains_payload:
  assumes "orset_wf reg s" and "v \<noteq> []"
  shows "orset_contains s (Some v) \<longleftrightarrow> (\<exists>i. orset_payload s i = Some (v, False))"
  using assms
  by (auto simp: orset_contains_def list_ex_iff oe_live_def orset_payload_Some simp del: split_paired_Ex)

lemma orset_size_filter: "orset_size s = of_nat (length (filter (\<lambda>e. \<not> oe_is_removed e) (os_entries s)))"
proof -
  have "foldl (\<lambda>count e. if oe_is_removed e then count else count + 1) n es =
      n + of_nat (length (filter (\<lambda>e. \<not> oe_is_removed e) es))" for n :: u32 and es
    by (induction es arbitrary: n) auto
  from this [of 0 "os_entries s"] show ?thesis by (simp add: orset_size_def)
qed

lemma orset_size_payload:
  assumes "orset_wf reg s"
  shows "orset_size s = of_nat (card {i. \<exists>v. orset_payload s i = Some (v, False)})"
proof -
  let ?l = "filter (\<lambda>e. \<not> oe_is_removed e) (os_entries s)"
  have "{i. \<exists>v. orset_payload s i = Some (v, False)} = set (map oe_id ?l)"
    unfolding orset_payload_Some [OF assms] set_map set_filter by blast
  moreover have "distinct (map oe_id ?l)"
    using assms by (simp add: orset_wf_def distinct_map_filter)
  ultimately have "card {i. \<exists>v. orset_payload s i = Some (v, False)} = length ?l"
    by (metis distinct_card length_map)
  then show ?thesis by (simp add: orset_size_filter)
qed

text \<open>
  C20. OR-Set replicas converge: when every (tag, origin) identity names one added value and the
  entry arrays can grow, two replicas that merged the same set of replica states in any order and
  multiplicity have the same members and the same size.
\<close>

theorem orset_converges:
  assumes "orset_wf reg s" and "list_all (orset_wf reg) xs" and "list_all (orset_wf reg) ys"
    and "orset_payload ` set xs = orset_payload ` set ys"
  shows "orset_contains (foldl (orset_merge True) s xs) v = orset_contains (foldl (orset_merge True) s ys) v
         \<and> orset_size (foldl (orset_merge True) s xs) = orset_size (foldl (orset_merge True) s ys)"
proof -
  have w: "orset_wf reg (foldl (orset_merge True) s xs)" "orset_wf reg (foldl (orset_merge True) s ys)"
    using assms by (auto intro: ors.invar_foldl)
  have e: "orset_payload (foldl (orset_merge True) s xs) = orset_payload (foldl (orset_merge True) s ys)"
    using assms by (rule ors.convergence)
  have "orset_contains (foldl (orset_merge True) s xs) v = orset_contains (foldl (orset_merge True) s ys) v"
  proof (cases "v = None \<or> v = Some []")
    case False
    then obtain u where "v = Some u" "u \<noteq> []" by auto
    with w e show ?thesis by (simp add: orset_contains_payload)
  qed (auto simp: orset_contains_def)
  with w e show ?thesis by (simp add: orset_size_payload)
qed

theorem orset_converges_witness:
  "let s = orset_create 0; a = snd (orset_add True (orset_create 1) (Some [7]));
       b = snd (orset_remove (orset_merge True (orset_create 2) a) (Some [7]))
   in orset_contains (foldl (orset_merge True) s [a, b]) (Some [7]) =
      orset_contains (foldl (orset_merge True) s [b, a, b]) (Some [7])"
proof -
  let ?reg = "\<lambda>i :: u64 \<times> u32. [7 :: u8]"
  have w: "orset_wf ?reg (orset_create 0)" "orset_wf ?reg (snd (orset_add True (orset_create 1) (Some [7])))"
    "orset_wf ?reg (snd (orset_remove (orset_merge True (orset_create 2)
       (snd (orset_add True (orset_create 1) (Some [7])))) (Some [7])))"
    by (simp_all add: orset_wf_def orset_create_def orset_add_def orset_reserve_def orset_remove_def
        orset_merge_def orset_merge_entry_def oe_id_def)
  have "orset_contains (foldl (orset_merge True) (orset_create 0) [a, b]) (Some [7]) =
      orset_contains (foldl (orset_merge True) (orset_create 0) [b, a, b]) (Some [7])"
    if "orset_wf ?reg a" "orset_wf ?reg b" for a b
    using that by (intro orset_converges [OF w(1), THEN conjunct1]) auto
  with w show ?thesis unfolding Let_def by blast
qed

lemma orset_remove_entries:
  "v \<noteq> [] \<Longrightarrow> os_entries (snd (orset_remove s (Some v))) =
     map (\<lambda>e. if oe_live v e then e\<lparr>oe_is_removed := True\<rparr> else e) (os_entries s)"
  by (simp add: orset_remove_def)

lemma oe_id_removed [simp]: "oe_id (e\<lparr>oe_is_removed := b\<rparr>) = oe_id e"
  by (simp add: oe_id_def)

lemma orset_wf_remove: "orset_wf reg s \<Longrightarrow> orset_wf reg (snd (orset_remove s value))"
  by (auto simp: orset_wf_def orset_remove_def comp_def if_distrib cong: if_cong split: option.splits)

lemma orset_payload_remove:
  assumes "orset_wf reg s" and "v \<noteq> []"
  shows "orset_payload (snd (orset_remove s (Some v))) i =
           map_option (\<lambda>(u, r). (u, r \<or> u = v)) (orset_payload s i)"
proof -
  have "map_of (map (\<lambda>e. (oe_id e, (oe_value e, oe_is_removed e)))
          (map (\<lambda>e. if oe_live v e then e\<lparr>oe_is_removed := True\<rparr> else e) es)) i =
        map_option (\<lambda>(u, r). (u, r \<or> u = v)) (map_of (map (\<lambda>e. (oe_id e, (oe_value e, oe_is_removed e))) es) i)" for es
    by (induction es) (auto simp: oe_live_def)
  with assms(2) show ?thesis by (simp add: orset_payload_def orset_remove_entries)
qed

text \<open>
  C21. Observed-remove semantics: when replica \<open>a\<close> removes \<open>v\<close> and is then merged with replica
  \<open>b\<close>, in either direction, the value is a member of the result exactly when \<open>b\<close> holds a live
  entry for it that \<open>a\<close> had not seen.  A concurrent add wins over a remove that did not observe
  it, and a remove deletes every entry it did observe.
\<close>

theorem orset_observed_remove:
  assumes "orset_wf reg a" and "orset_wf reg b" and "v \<noteq> []"
  shows "(orset_contains (orset_merge True (snd (orset_remove a (Some v))) b) (Some v) \<longleftrightarrow>
            (\<exists>e \<in> set (os_entries b). oe_live v e \<and> oe_id e \<notin> oe_id ` set (os_entries a)))
         \<and> (orset_contains (orset_merge True b (snd (orset_remove a (Some v)))) (Some v) \<longleftrightarrow>
            (\<exists>e \<in> set (os_entries b). oe_live v e \<and> oe_id e \<notin> oe_id ` set (os_entries a)))"
proof -
  let ?a = "snd (orset_remove a (Some v))"
  have wa: "orset_wf reg ?a" using assms(1) by (rule orset_wf_remove)
  have key: "entry_join (orset_payload ?a i) (orset_payload b i) = Some (v, False) \<longleftrightarrow>
      orset_payload a i = None \<and> orset_payload b i = Some (v, False)" for i
  proof (cases "orset_payload a i")
    case (Some x)
    moreover have "u = v" if "orset_payload a i = Some (u, r)" "orset_payload b i = Some (v, q)" for u r q
      using that assms(1,2) orset_payload_value by metis
    ultimately show ?thesis
      by (cases x; cases "orset_payload b i") (auto simp: orset_payload_remove [OF assms(1,3)])
  qed (simp add: orset_payload_remove [OF assms(1,3)])
  have ex: "(\<exists>i. orset_payload a i = None \<and> orset_payload b i = Some (v, False)) \<longleftrightarrow>
      (\<exists>e \<in> set (os_entries b). oe_live v e \<and> oe_id e \<notin> oe_id ` set (os_entries a))"
    unfolding orset_payload_None orset_payload_Some [OF assms(2)] oe_live_def by blast
  have ab: "orset_contains (orset_merge True ?a b) (Some v) \<longleftrightarrow>
      (\<exists>e \<in> set (os_entries b). oe_live v e \<and> oe_id e \<notin> oe_id ` set (os_entries a))"
    unfolding orset_contains_payload [OF orset_merge_join(1) [OF wa assms(2)] assms(3)]
      orset_merge_join(2) [OF wa assms(2)] orset_join_def key ex ..
  moreover have "orset_contains (orset_merge True b ?a) (Some v) = orset_contains (orset_merge True ?a b) (Some v)"
    unfolding orset_contains_payload [OF orset_merge_join(1) [OF wa assms(2)] assms(3)]
      orset_contains_payload [OF orset_merge_join(1) [OF assms(2) wa] assms(3)]
      orset_merge_join(2) [OF wa assms(2)] orset_merge_join(2) [OF assms(2) wa]
      orset_join_comm [OF wa assms(2)] ..
  ultimately show ?thesis by blast
qed

theorem orset_observed_remove_witness:
  "let a = snd (orset_add True (orset_create 1) (Some [7]));
       b = snd (orset_add True (orset_merge True (orset_create 2) a) (Some [7]))
   in orset_contains (orset_merge True b (snd (orset_remove a (Some [7])))) (Some [7]) \<and>
      \<not> orset_contains (orset_merge True a (snd (orset_remove b (Some [7])))) (Some [7])"
proof -
  define a where "a = snd (orset_add True (orset_create 1) (Some [7]))"
  define b where "b = snd (orset_add True (orset_merge True (orset_create 2) a) (Some [7]))"
  have a: "os_entries a = [\<lparr>oe_value = [7], oe_add_tag = 1, oe_origin_node = 1, oe_is_removed = False\<rparr>]"
    by (simp add: a_def orset_add_def orset_create_def orset_reserve_def)
  have b: "os_entries b = os_entries a @ [\<lparr>oe_value = [7], oe_add_tag = 1, oe_origin_node = 2, oe_is_removed = False\<rparr>]"
    by (simp add: b_def a orset_add_def orset_create_def orset_reserve_def orset_merge_def orset_merge_entry_def)
  have w: "orset_wf (\<lambda>i. [7]) a" "orset_wf (\<lambda>i. [7]) b"
    by (simp_all add: orset_wf_def b a oe_id_def)
  have "orset_contains (orset_merge True b (snd (orset_remove a (Some [7])))) (Some [7])"
    using orset_observed_remove [OF w, of "[7]"] by (simp add: a b oe_live_def oe_id_def)
  moreover have "\<not> orset_contains (orset_merge True a (snd (orset_remove b (Some [7])))) (Some [7])"
    using orset_observed_remove [OF w(2,1), of "[7]"] by (simp add: a b oe_live_def oe_id_def)
  ultimately show ?thesis unfolding Let_def a_def b_def by blast
qed

subsection \<open>OR-Set images\<close>

text \<open>
  \<open>sizeof(ORSetEntry)\<close> is 280: the 256-byte value, the 16-bit length, six bytes of padding, the
  64-bit tag, the 32-bit origin and the 32-bit removal flag.  \<open>orset_add\<close> clears an entry before
  filling it, so the unused value bytes and the padding are zero.
\<close>

definition ORSET_ENTRY_SIZE :: nat where
  "ORSET_ENTRY_SIZE = 280"

definition entry_image :: "ORSetEntry \<Rightarrow> bytes" where
  "entry_image e =
     oe_value e @ replicate (256 - length (oe_value e)) 0 @ le_enc 2 (of_nat (length (oe_value e)) :: u16) @
     replicate 6 0 @ le_enc 8 (oe_add_tag e) @ le_enc 4 (oe_origin_node e) @
     le_enc 4 (if oe_is_removed e then 1 else 0 :: u32)"

definition entry_of_image :: "bytes \<Rightarrow> ORSetEntry" where
  "entry_of_image bs =
     \<lparr>oe_value = take (unat (le_dec (take 2 (drop 256 bs)) :: u16)) bs,
      oe_add_tag = le_dec (take 8 (drop 264 bs)),
      oe_origin_node = le_dec (take 4 (drop 272 bs)),
      oe_is_removed = ((le_dec (take 4 (drop 276 bs)) :: u32) \<noteq> 0)\<rparr>"

definition orset_serialized_size :: "ORSet \<Rightarrow> nat" where
  "orset_serialized_size s = 4 * 2 + length (os_entries s) * ORSET_ENTRY_SIZE"

definition orset_serialize :: "ORSet \<Rightarrow> nat \<Rightarrow> nat \<times> bytes" where
  "orset_serialize s buf_cap =
     (let needed = 4 * 2 + length (os_entries s) * ORSET_ENTRY_SIZE
      in if buf_cap < needed then (0, [])
         else (needed, le_enc 4 (of_nat (length (os_entries s)) :: u32) @ le_enc 4 (ucast (os_next_tag s) :: u32) @
                       concat (map entry_image (os_entries s))))"

definition orset_deserialize :: "bytes \<Rightarrow> u32 \<Rightarrow> ORSet" where
  "orset_deserialize buf self_node_id =
     (if length buf < 4 * 2 then orset_create self_node_id
      else let count = le_dec (take 4 buf) :: u32;
               next_tag32 = le_dec (take 4 (drop 4 buf)) :: u32
           in if length buf < 4 * 2 + unat count * ORSET_ENTRY_SIZE then orset_create self_node_id
              else \<lparr>os_entries = map (\<lambda>i. entry_of_image (take ORSET_ENTRY_SIZE (drop (ORSET_ENTRY_SIZE * i) (drop 8 buf))))
                                   [0..<unat count],
                    os_capacity = (if 0 < count then count else 1),
                    os_next_tag = ucast next_tag32,
                    os_self_node = self_node_id\<rparr>)"

lemma length_entry_image: "length (oe_value e) \<le> 255 \<Longrightarrow> length (entry_image e) = ORSET_ENTRY_SIZE"
  by (simp add: entry_image_def ORSET_ENTRY_SIZE_def)

lemma entry_of_entry_image:
  assumes "length (oe_value e) \<le> 255"
  shows "entry_of_image (entry_image e) = e"
proof -
  let ?v = "oe_value e @ replicate (256 - length (oe_value e)) 0"
  have l: "length ?v = 256" using assms by simp
  have i: "entry_image e = ?v @ le_enc 2 (of_nat (length (oe_value e)) :: u16) @ replicate 6 0 @
      le_enc 8 (oe_add_tag e) @ le_enc 4 (oe_origin_node e) @ le_enc 4 (if oe_is_removed e then 1 else 0 :: u32)"
    by (simp add: entry_image_def)
  have d: "drop (256 + k) (entry_image e) = drop k (le_enc 2 (of_nat (length (oe_value e)) :: u16) @ replicate 6 0 @
      le_enc 8 (oe_add_tag e) @ le_enc 4 (oe_origin_node e) @ le_enc 4 (if oe_is_removed e then 1 else 0 :: u32))" for k
    unfolding i by (rule drop_plus_append [OF l])
  have "unat (of_nat (length (oe_value e)) :: u16) = length (oe_value e)"
    using assms by (simp add: unat_of_nat_eq)
  then show ?thesis
    using d [of 0] d [of 8] d [of 16] d [of 20]
    by (simp add: entry_of_image_def) (simp add: entry_image_def)
qed

lemma orset_image_load:
  assumes "\<forall>e \<in> set (os_entries s). length (oe_value e) \<le> 255" and "length (os_entries s) < 2 ^ 32"
    and "orset_serialized_size s \<le> buf_cap"
  shows "fst (orset_serialize s buf_cap) = length (snd (orset_serialize s buf_cap))
         \<and> orset_deserialize (snd (orset_serialize s buf_cap)) self =
           \<lparr>os_entries = os_entries s,
            os_capacity = (if os_entries s = [] then 1 else of_nat (length (os_entries s))),
            os_next_tag = take_bit 32 (os_next_tag s),
            os_self_node = self\<rparr>"
proof -
  have li: "\<forall>e \<in> set (os_entries s). length (entry_image e) = ORSET_ENTRY_SIZE"
    using assms(1) by (simp add: length_entry_image)
  have lc: "length (concat (map entry_image (os_entries s))) = ORSET_ENTRY_SIZE * length (os_entries s)"
    using li by (rule length_concat_chunks)
  have un: "unat (of_nat (length (os_entries s)) :: u32) = length (os_entries s)"
    using assms(2) by (simp add: unat_of_nat_eq)
  have ch: "map (\<lambda>i. entry_of_image (take ORSET_ENTRY_SIZE (drop (ORSET_ENTRY_SIZE * i)
      (concat (map entry_image (os_entries s)))))) [0..<length (os_entries s)] = os_entries s"
    using concat_chunks [OF li, of entry_of_image] assms(1) by (simp add: entry_of_entry_image cong: map_cong)
  have z: "0 < (of_nat (length (os_entries s)) :: u32) \<longleftrightarrow> os_entries s \<noteq> []"
    using un by (auto simp: word_less_nat_alt)
  have "(ucast (ucast (os_next_tag s) :: u32) :: u64) = take_bit 32 (os_next_tag s)"
    by (rule bit_word_eqI) (auto simp: bit_simps)
  with assms(3) lc un ch z show ?thesis
    by (simp add: orset_serialize_def orset_deserialize_def orset_serialized_size_def Let_def mult.commute)
qed

text \<open>
  C24. Saving an OR-Set and loading it back gives the same entries in the same order, tombstones
  and tags included, for a set whose values have at most 255 bytes and whose buffer is large
  enough.  The tag generator is not preserved: its upper 32 bits are dropped.
\<close>

theorem orset_image_roundtrip:
  assumes "\<forall>e \<in> set (os_entries s). length (oe_value e) \<le> 255" and "length (os_entries s) < 2 ^ 32"
    and "orset_serialized_size s \<le> buf_cap"
  shows "fst (orset_serialize s buf_cap) = length (snd (orset_serialize s buf_cap))
         \<and> orset_deserialize (snd (orset_serialize s buf_cap)) self =
           \<lparr>os_entries = os_entries s,
            os_capacity = (if os_entries s = [] then 1 else of_nat (length (os_entries s))),
            os_next_tag = take_bit 32 (os_next_tag s),
            os_self_node = self\<rparr>"
  using assms by (rule orset_image_load)

theorem orset_image_roundtrip_witness:
  "let s = \<lparr>os_entries = [\<lparr>oe_value = [7], oe_add_tag = 9, oe_origin_node = 1, oe_is_removed = True\<rparr>],
            os_capacity = 64, os_next_tag = 2 ^ 32 + 10, os_self_node = 3\<rparr>
   in os_entries (orset_deserialize (snd (orset_serialize s 288)) 3) = os_entries s \<and>
      os_next_tag (orset_deserialize (snd (orset_serialize s 288)) 3) = 10"
proof -
  let ?s = "\<lparr>os_entries = [\<lparr>oe_value = [7], oe_add_tag = 9, oe_origin_node = 1, oe_is_removed = True\<rparr>],
            os_capacity = 64, os_next_tag = 2 ^ 32 + 10, os_self_node = 3\<rparr>"
  have "orset_deserialize (snd (orset_serialize ?s 288)) 3 =
           \<lparr>os_entries = os_entries ?s,
            os_capacity = (if os_entries ?s = [] then 1 else of_nat (length (os_entries ?s))),
            os_next_tag = take_bit 32 (os_next_tag ?s), os_self_node = 3\<rparr>"
    by (rule orset_image_roundtrip [THEN conjunct2])
      (simp_all add: orset_serialized_size_def ORSET_ENTRY_SIZE_def)
  then show ?thesis by (simp add: Let_def)
qed

end
