(* ===== verification/Nex_Vll.thy ===== *)
theory Nex_Vll
  imports Nex_Prelude
begin

text \<open>
  The transaction lock manager of \<open>core/vll.c\<close>: a table with a reader count and a writer flag per
  slot, all-or-nothing acquisition of the sorted keys of a request, the retry loop with its
  deadline and backoff, and release.

  One pass of the retry loop runs under \<open>table_lock\<close> and is one atomic definition here.  The
  clock readings are an argument, and so is what other threads do to the manager while a request
  sleeps.  The pattern arrays are allocated and never used by the code; they and the running
  average of the waiting time, a floating-point statistic, are left out.
\<close>

subsection \<open>Data\<close>

definition VLL_TIMEOUT_US :: u64 where
  "VLL_TIMEOUT_US = 10000"

definition VLL_MAX_KEYS_PER_TXN :: nat where
  "VLL_MAX_KEYS_PER_TXN = 64"

datatype VLLLockType = VLL_LOCK_READ | VLL_LOCK_WRITE

datatype VLLStatus = VLL_OK | VLL_CONFLICT | VLL_TIMEOUT | VLL_ABORTED

record VLLKey =
  key_hash :: u64
  lock_type :: VLLLockType

record VLLRequest =
  txn_id :: u64
  req_keys :: "VLLKey list"
  req_status :: VLLStatus
  submit_us :: u64
  acquired_us :: u64

record VLLStats =
  txns_submitted :: u64
  txns_committed :: u64
  txns_timeout :: u64
  conflicts_resolved :: u64
  predictive_reorders :: u64

record VLLManager =
  read_counts :: "u32 list"
  write_flags :: "u8 list"
  table_size :: u32
  vll_stats :: VLLStats
  next_txn_id :: u64

subsection \<open>Creation\<close>

text \<open>The loop \<open>while (sz < table_size) sz <<= 1\<close>; it is given fuel, as it need not end.\<close>

primrec vll_table_size :: "nat \<Rightarrow> u32 \<Rightarrow> u32 \<Rightarrow> u32 option" where
  "vll_table_size 0 sz n = None"
| "vll_table_size (Suc fuel) sz n = (if sz < n then vll_table_size fuel (push_bit 1 sz) n else Some sz)"

definition vll_create :: "nat \<Rightarrow> u32 \<Rightarrow> VLLManager option" where
  "vll_create fuel n =
     (case vll_table_size fuel 1024 n of
        None \<Rightarrow> None
      | Some sz \<Rightarrow>
          Some \<lparr>read_counts = replicate (unat sz) 0, write_flags = replicate (unat sz) 0, table_size = sz,
                vll_stats = \<lparr>txns_submitted = 0, txns_committed = 0, txns_timeout = 0, conflicts_resolved = 0,
                             predictive_reorders = 0\<rparr>,
                next_txn_id = 1\<rparr>)"

definition key_to_slot :: "VLLManager \<Rightarrow> u64 \<Rightarrow> u32" where
  "key_to_slot mgr h = ucast (h AND ucast (table_size mgr - 1))"

subsection \<open>Sorting\<close>

definition lock_type_int :: "VLLLockType \<Rightarrow> int" where
  "lock_type_int t = (case t of VLL_LOCK_READ \<Rightarrow> 0 | VLL_LOCK_WRITE \<Rightarrow> 1)"

definition cmp_key_hash :: "VLLKey \<Rightarrow> VLLKey \<Rightarrow> int" where
  "cmp_key_hash a b =
     (if key_hash a < key_hash b then - 1
      else if key_hash b < key_hash a then 1
      else lock_type_int (lock_type b) - lock_type_int (lock_type a))"

text \<open>
  \<open>qsort\<close> with this comparison: keys that compare equal are equal, so the sorted sequence is unique
  and is the one that sorting by \<open>key_rank\<close> gives.
\<close>

definition key_rank :: "VLLKey \<Rightarrow> nat" where
  "key_rank k = 2 * unat (key_hash k) + (case lock_type k of VLL_LOCK_READ \<Rightarrow> 1 | VLL_LOCK_WRITE \<Rightarrow> 0)"

definition vll_sort_keys :: "VLLManager \<Rightarrow> VLLRequest \<Rightarrow> VLLManager \<times> VLLRequest" where
  "vll_sort_keys mgr req =
     (mgr\<lparr>vll_stats := (vll_stats mgr)\<lparr>predictive_reorders := predictive_reorders (vll_stats mgr) + 1\<rparr>\<rparr>,
      req\<lparr>req_keys := sort_key key_rank (req_keys req)\<rparr>)"

subsection \<open>One attempt\<close>

text \<open>Locking one key; \<open>None\<close> is a conflict.\<close>

definition lock_key :: "VLLManager \<Rightarrow> VLLKey \<Rightarrow> VLLManager option" where
  "lock_key mgr k =
     (let slot = unat (key_to_slot mgr (key_hash k))
      in if lock_type k = VLL_LOCK_READ
         then if write_flags mgr ! slot \<noteq> 0 then None
              else Some (mgr\<lparr>read_counts := (read_counts mgr)[slot := read_counts mgr ! slot + 1]\<rparr>)
         else if write_flags mgr ! slot \<noteq> 0 \<or> 0 < read_counts mgr ! slot then None
              else Some (mgr\<lparr>write_flags := (write_flags mgr)[slot := 1]\<rparr>))"

definition unlock_key :: "VLLManager \<Rightarrow> VLLKey \<Rightarrow> VLLManager" where
  "unlock_key mgr k =
     (let slot = unat (key_to_slot mgr (key_hash k))
      in if lock_type k = VLL_LOCK_READ
         then if 0 < read_counts mgr ! slot
              then mgr\<lparr>read_counts := (read_counts mgr)[slot := read_counts mgr ! slot - 1]\<rparr> else mgr
         else mgr\<lparr>write_flags := (write_flags mgr)[slot := 0]\<rparr>)"

definition count_conflict :: "VLLManager \<Rightarrow> VLLManager" where
  "count_conflict mgr =
     mgr\<lparr>vll_stats := (vll_stats mgr)\<lparr>conflicts_resolved := conflicts_resolved (vll_stats mgr) + 1\<rparr>\<rparr>"

text \<open>The locking loop: the manager, the number of keys acquired, and whether a conflict broke it.\<close>

fun lock_keys :: "VLLManager \<Rightarrow> VLLKey list \<Rightarrow> nat \<Rightarrow> VLLManager \<times> nat \<times> bool" where
  "lock_keys mgr [] acquired = (mgr, acquired, False)"
| "lock_keys mgr (k # ks) acquired =
     (case lock_key mgr k of
        None \<Rightarrow> (count_conflict mgr, acquired, True)
      | Some mgr' \<Rightarrow> lock_keys mgr' ks (acquired + 1))"

definition vll_attempt :: "VLLManager \<Rightarrow> VLLKey list \<Rightarrow> VLLManager \<times> bool" where
  "vll_attempt mgr ks =
     (case lock_keys mgr ks 0 of (mgr', acquired, conflict) \<Rightarrow>
        if \<not> conflict then (mgr', True) else (foldl unlock_key mgr' (take acquired ks), False))"

subsection \<open>Acquire and release\<close>

definition count_result :: "VLLStatus \<Rightarrow> VLLManager \<Rightarrow> VLLManager" where
  "count_result st mgr =
     mgr\<lparr>vll_stats := (vll_stats mgr)
        \<lparr>txns_submitted := txns_submitted (vll_stats mgr) + 1,
         txns_committed := txns_committed (vll_stats mgr) + (if st = VLL_OK then 1 else 0),
         txns_timeout := txns_timeout (vll_stats mgr) + (if st = VLL_TIMEOUT then 1 else 0)\<rparr>\<rparr>"

text \<open>
  One iteration of the retry loop of \<open>vll_acquire\<close>, with the clock reading that ends it; the third
  component is the status returned, \<open>None\<close> where the loop goes on.
\<close>

definition vll_acquire_step ::
  "u64 \<Rightarrow> VLLManager \<Rightarrow> VLLRequest \<Rightarrow> VLLManager \<times> VLLRequest \<times> VLLStatus option" where
  "vll_acquire_step now mgr req =
     (case vll_attempt mgr (req_keys req) of (mgr', ok) \<Rightarrow>
        if ok then (count_result VLL_OK mgr', req\<lparr>req_status := VLL_OK, acquired_us := now\<rparr>, Some VLL_OK)
        else if submit_us req + VLL_TIMEOUT_US \<le> now
        then (count_result VLL_TIMEOUT mgr', req\<lparr>req_status := VLL_TIMEOUT\<rparr>, Some VLL_TIMEOUT)
        else (mgr', req, None))"

definition vll_backoff_us :: "nat \<Rightarrow> u64" where
  "vll_backoff_us attempt = push_bit (if attempt < 7 then attempt else 7) 10"

text \<open>
  The retry loop: \<open>clock n\<close> is the time read after attempt \<open>n\<close>, and \<open>others n\<close> is what the other
  threads did to the manager while the request slept after attempt \<open>n\<close>.
\<close>

primrec vll_acquire_loop ::
  "nat \<Rightarrow> (nat \<Rightarrow> u64) \<Rightarrow> (nat \<Rightarrow> VLLManager \<Rightarrow> VLLManager) \<Rightarrow> nat \<Rightarrow> VLLManager \<Rightarrow> VLLRequest \<Rightarrow>
   (VLLManager \<times> VLLRequest \<times> VLLStatus) option" where
  "vll_acquire_loop 0 clock others attempt mgr req = None"
| "vll_acquire_loop (Suc fuel) clock others attempt mgr req =
     (case vll_acquire_step (clock (attempt + 1)) mgr req of
        (mgr', req', Some st) \<Rightarrow> Some (mgr', req', st)
      | (mgr', req', None) \<Rightarrow>
          vll_acquire_loop fuel clock others (attempt + 1) (others (attempt + 1) mgr') req')"

definition vll_acquire ::
  "nat \<Rightarrow> (nat \<Rightarrow> u64) \<Rightarrow> (nat \<Rightarrow> VLLManager \<Rightarrow> VLLManager) \<Rightarrow> VLLManager \<Rightarrow> VLLRequest \<Rightarrow>
   (VLLManager \<times> VLLRequest \<times> VLLStatus) option" where
  "vll_acquire fuel clock others mgr req =
     (if req_keys req = [] then Some (mgr, req, VLL_ABORTED)
      else case vll_sort_keys mgr req of (mgr', req') \<Rightarrow>
             vll_acquire_loop fuel clock others 0 mgr' (req'\<lparr>submit_us := clock 0\<rparr>))"

definition vll_release :: "VLLManager \<Rightarrow> VLLRequest \<Rightarrow> VLLManager \<times> VLLRequest" where
  "vll_release mgr req =
     (if req_status req \<noteq> VLL_OK then (mgr, req)
      else (foldl unlock_key mgr (req_keys req), req\<lparr>req_status := VLL_ABORTED\<rparr>))"

definition vll_request_create :: "VLLManager \<Rightarrow> u64 list \<Rightarrow> VLLLockType list \<Rightarrow> VLLManager \<times> VLLRequest option" where
  "vll_request_create mgr key_hashes lock_types =
     (if length key_hashes = 0 \<or> VLL_MAX_KEYS_PER_TXN < length key_hashes then (mgr, None)
      else (mgr\<lparr>next_txn_id := next_txn_id mgr + 1\<rparr>,
            Some \<lparr>txn_id = next_txn_id mgr,
                  req_keys = map2 (\<lambda>h t. \<lparr>key_hash = h, lock_type = t\<rparr>) key_hashes lock_types,
                  req_status = VLL_CONFLICT, submit_us = 0, acquired_us = 0\<rparr>))"

subsection \<open>The lock table as an account of the held keys\<close>

text \<open>
  The held keys form a multiset.  A multiset is compatible when no slot has two writers, or a writer
  and a reader; the table accounts for a multiset when every counter and flag says what it holds.
\<close>

definition slot_of :: "u32 \<Rightarrow> VLLKey \<Rightarrow> nat" where
  "slot_of sz k = unat (ucast (key_hash k AND ucast (sz - 1)) :: u32)"

definition readers :: "u32 \<Rightarrow> VLLKey multiset \<Rightarrow> nat \<Rightarrow> nat" where
  "readers sz H s = size {#k \<in># H. lock_type k = VLL_LOCK_READ \<and> slot_of sz k = s#}"

definition writers :: "u32 \<Rightarrow> VLLKey multiset \<Rightarrow> nat \<Rightarrow> nat" where
  "writers sz H s = size {#k \<in># H. lock_type k = VLL_LOCK_WRITE \<and> slot_of sz k = s#}"

definition compatible :: "u32 \<Rightarrow> VLLKey multiset \<Rightarrow> bool" where
  "compatible sz H \<longleftrightarrow> (\<forall>s. writers sz H s \<le> 1 \<and> (0 < writers sz H s \<longrightarrow> readers sz H s = 0))"

definition accounts :: "VLLManager \<Rightarrow> VLLKey multiset \<Rightarrow> bool" where
  "accounts mgr H \<longleftrightarrow>
     table_size mgr \<noteq> 0 \<and> length (read_counts mgr) = unat (table_size mgr) \<and>
     length (write_flags mgr) = unat (table_size mgr) \<and>
     (\<forall>s < unat (table_size mgr).
        read_counts mgr ! s = of_nat (readers (table_size mgr) H s) \<and>
        write_flags mgr ! s = (if 0 < writers (table_size mgr) H s then 1 else 0))"

definition vll_inv :: "VLLManager \<Rightarrow> VLLKey multiset \<Rightarrow> bool" where
  "vll_inv mgr H \<longleftrightarrow> accounts mgr H \<and> compatible (table_size mgr) H \<and> size H < 2 ^ 32"

lemma slot_of_bound: "sz \<noteq> 0 \<Longrightarrow> slot_of sz k < unat sz"
proof -
  assume sz: "sz \<noteq> 0"
  have "unat (ucast (key_hash k AND ucast (sz - 1)) :: u32) \<le> unat (key_hash k AND ucast (sz - 1))"
    by (simp add: unat_ucast)
  also have "\<dots> \<le> unat (ucast (sz - 1) :: u64)"
    by (simp add: word_and_le1 flip: word_le_nat_alt)
  also have "\<dots> = unat (sz - 1)"
    using unat_bound [of "sz - 1"] by (simp add: unat_ucast)
  also have "\<dots> < unat sz" using sz by (simp add: unat_minus_one unat_gt_0)
  finally show ?thesis by (simp add: slot_of_def)
qed

lemma key_slot: "unat (key_to_slot mgr (key_hash k)) = slot_of (table_size mgr) k"
  by (simp add: key_to_slot_def slot_of_def)

lemma readers_add: "readers sz (add_mset k H) s =
    readers sz H s + (if lock_type k = VLL_LOCK_READ \<and> slot_of sz k = s then 1 else 0)"
  by (simp add: readers_def)

lemma writers_add: "writers sz (add_mset k H) s =
    writers sz H s + (if lock_type k = VLL_LOCK_WRITE \<and> slot_of sz k = s then 1 else 0)"
  by (simp add: writers_def)

lemma readers_bound: "readers sz H s \<le> size H"
  by (simp add: readers_def size_filter_mset_lesseq)

lemma not_read: "t \<noteq> VLL_LOCK_READ \<longleftrightarrow> t = VLL_LOCK_WRITE"
  by (cases t) auto

lemma compatible_add:
  assumes "compatible sz H"
  shows "compatible sz (add_mset k H) \<longleftrightarrow>
    writers sz H (slot_of sz k) = 0 \<and> (lock_type k = VLL_LOCK_WRITE \<longrightarrow> readers sz H (slot_of sz k) = 0)"
  using assms by (cases "lock_type k") (auto simp: compatible_def readers_add writers_add le_Suc_eq)

lemma readers_union: "readers sz (A + B) s = readers sz A s + readers sz B s"
  by (simp add: readers_def)

lemma writers_union: "writers sz (A + B) s = writers sz A s + writers sz B s"
  by (simp add: writers_def)

lemma compatible_mono: "compatible sz (A + B) \<Longrightarrow> compatible sz A"
  unfolding compatible_def readers_union writers_union
  by (metis add_is_0 le_add1 le_trans less_le_trans)

text \<open>Locking one key succeeds exactly when the key is compatible with the held ones.\<close>

lemma lock_key_exact:
  assumes inv: "vll_inv mgr H" and bound: "size H + 1 < 2 ^ 32"
  shows "case lock_key mgr k of
           None \<Rightarrow> \<not> compatible (table_size mgr) (add_mset k H)
         | Some mgr' \<Rightarrow> vll_inv mgr' (add_mset k H) \<and> table_size mgr' = table_size mgr"
proof -
  let ?sz = "table_size mgr" and ?s = "slot_of (table_size mgr) k"
  have sz: "?sz \<noteq> 0" using inv by (simp add: vll_inv_def accounts_def)
  then have s: "?s < unat ?sz" by (rule slot_of_bound)
  have rc: "read_counts mgr ! ?s = of_nat (readers ?sz H ?s)"
    and wf: "write_flags mgr ! ?s = (if 0 < writers ?sz H ?s then 1 else 0)"
    using inv s by (auto simp: vll_inv_def accounts_def)
  have "unat (of_nat (readers ?sz H ?s) :: u32) = readers ?sz H ?s"
    using readers_bound [of ?sz H ?s] inv by (intro unat_of_nat_eq) (simp add: vll_inv_def)
  then have rc0: "0 < read_counts mgr ! ?s \<longleftrightarrow> 0 < readers ?sz H ?s"
    by (simp add: rc word_less_nat_alt)
  have comp: "compatible ?sz H" using inv by (simp add: vll_inv_def)
  show ?thesis
  proof (cases "compatible ?sz (add_mset k H)")
    case True
    then show ?thesis using comp s rc rc0 wf inv bound
      by (cases "lock_type k")
        (auto simp: lock_key_def key_slot Let_def compatible_add [OF comp] vll_inv_def accounts_def readers_add
          writers_add nth_list_update)
  next
    case False
    then show ?thesis using comp rc0 wf
      by (cases "lock_type k") (auto simp: lock_key_def key_slot Let_def compatible_add [OF comp])
  qed
qed

lemma unlock_key_inv:
  assumes inv: "vll_inv mgr (add_mset k H)"
  shows "vll_inv (unlock_key mgr k) H \<and> table_size (unlock_key mgr k) = table_size mgr"
proof -
  let ?sz = "table_size mgr" and ?s = "slot_of (table_size mgr) k"
  have sz: "?sz \<noteq> 0" using inv by (simp add: vll_inv_def accounts_def)
  then have s: "?s < unat ?sz" by (rule slot_of_bound)
  have comp: "compatible ?sz (add_mset k H)" using inv by (simp add: vll_inv_def)
  then have compH: "compatible ?sz H" using compatible_mono [of ?sz H "{#k#}"] by simp
  note ca = comp [unfolded compatible_add [OF compH]]
  have rc: "read_counts mgr ! ?s = of_nat (readers ?sz (add_mset k H) ?s)"
    using inv s by (auto simp: vll_inv_def accounts_def)
  have "unat (of_nat (readers ?sz (add_mset k H) ?s) :: u32) = readers ?sz (add_mset k H) ?s"
    using readers_bound [of ?sz "add_mset k H" ?s] inv by (intro unat_of_nat_eq) (simp add: vll_inv_def)
  then have "lock_type k = VLL_LOCK_READ \<Longrightarrow> 0 < (of_nat (readers ?sz (add_mset k H) ?s) :: u32)"
    by (simp add: readers_add word_less_nat_alt)
  then have rc0: "lock_type k = VLL_LOCK_READ \<Longrightarrow> 0 < (of_nat (readers ?sz H ?s) + 1 :: u32)"
    by (simp add: readers_add add.commute)
  show ?thesis
    using compH ca s rc rc0 inv
    by (cases "lock_type k")
      (auto simp: unlock_key_def key_slot Let_def vll_inv_def accounts_def readers_add writers_add nth_list_update)
qed

lemma unlock_keys_inv:
  "vll_inv mgr (mset ks + H) \<Longrightarrow>
   vll_inv (foldl unlock_key mgr ks) H \<and> table_size (foldl unlock_key mgr ks) = table_size mgr"
proof (induction ks arbitrary: mgr)
  case (Cons k ks)
  then have "vll_inv (unlock_key mgr k) (mset ks + H) \<and> table_size (unlock_key mgr k) = table_size mgr"
    by (intro unlock_key_inv) simp
  with Cons.IH [of "unlock_key mgr k"] show ?case by simp
qed simp

text \<open>The table is determined by what it accounts for.\<close>

lemma accounts_unique:
  assumes "accounts m H" "accounts m' H" "table_size m = table_size m'"
  shows "read_counts m = read_counts m' \<and> write_flags m = write_flags m'"
  using assms by (auto simp: accounts_def intro!: nth_equalityI)

lemma count_conflict_inv [simp]:
  "vll_inv (count_conflict mgr) H = vll_inv mgr H"
  "table_size (count_conflict mgr) = table_size mgr"
  by (simp_all add: count_conflict_def vll_inv_def accounts_def)

lemma count_result_inv [simp]:
  "vll_inv (count_result st mgr) H = vll_inv mgr H"
  "table_size (count_result st mgr) = table_size mgr"
  by (simp_all add: count_result_def vll_inv_def accounts_def)

lemma lock_keys_exact:
  assumes "vll_inv mgr H" "size H + length ks < 2 ^ 32" "lock_keys mgr ks n = (mgr', m, conflict)"
  shows "table_size mgr' = table_size mgr \<and> (conflict \<longleftrightarrow> \<not> compatible (table_size mgr) (mset ks + H)) \<and>
         n \<le> m \<and> m \<le> n + length ks \<and> (\<not> conflict \<longrightarrow> m = n + length ks) \<and>
         vll_inv mgr' (mset (take (m - n) ks) + H)"
  using assms
proof (induction ks arbitrary: mgr n H)
  case Nil
  then show ?case by (auto simp: vll_inv_def)
next
  case (Cons k ks)
  have b: "size H + 1 < 2 ^ 32" using Cons.prems(2) by simp
  show ?case
  proof (cases "lock_key mgr k")
    case None
    with lock_key_exact [OF Cons.prems(1) b, of k] have "\<not> compatible (table_size mgr) (add_mset k H)" by simp
    then have "\<not> compatible (table_size mgr) (mset (k # ks) + H)"
      using compatible_mono [of "table_size mgr" "add_mset k H" "mset ks"] by (auto simp: ac_simps)
    with None Cons.prems show ?thesis by auto
  next
    case (Some m1)
    with lock_key_exact [OF Cons.prems(1) b, of k]
    have m1: "vll_inv m1 (add_mset k H)" "table_size m1 = table_size mgr" by simp_all
    from Some Cons.prems have l: "lock_keys m1 ks (n + 1) = (mgr', m, conflict)" by simp
    from Cons.IH [OF m1(1) _ l] Cons.prems(2) m1(2)
    have IH: "table_size mgr' = table_size mgr" "conflict \<longleftrightarrow> \<not> compatible (table_size mgr) (mset ks + add_mset k H)"
      "n + 1 \<le> m" "m \<le> n + 1 + length ks" "\<not> conflict \<longrightarrow> m = n + 1 + length ks"
      "vll_inv mgr' (mset (take (m - (n + 1)) ks) + add_mset k H)"
      by auto
    moreover have "take (m - n) (k # ks) = k # take (m - (n + 1)) ks"
      using IH(3) by (simp add: take_Cons')
    ultimately show ?thesis by simp
  qed
qed

lemma vll_attempt_inv:
  assumes inv: "vll_inv mgr H" and b: "size H + length ks < 2 ^ 32" and a: "vll_attempt mgr ks = (mgr', ok)"
  shows "table_size mgr' = table_size mgr" and "ok \<longleftrightarrow> compatible (table_size mgr) (mset ks + H)"
    and "vll_inv mgr' (if ok then mset ks + H else H)"
proof -
  obtain m n c where l: "lock_keys mgr ks 0 = (m, n, c)" by (cases "lock_keys mgr ks 0")
  note x = lock_keys_exact [OF inv b l]
  from x have "vll_inv m (mset (take n ks) + H)" by simp
  note u = unlock_keys_inv [OF this]
  show "table_size mgr' = table_size mgr" "ok \<longleftrightarrow> compatible (table_size mgr) (mset ks + H)"
    "vll_inv mgr' (if ok then mset ks + H else H)"
    using a l x u by (auto simp: vll_attempt_def split: if_splits)
qed

text \<open>
  C25. An acquisition attempt is all or nothing and grants exactly what is compatible: with a table
  that accounts for the held keys, the attempt succeeds if and only if the requested keys together
  with the held ones have no slot with two writers or with a writer and a reader.  On success the
  table accounts for the enlarged multiset; on failure it is exactly the table before.
\<close>

theorem vll_attempt_exact:
  assumes "vll_inv mgr H" and "size H + length ks < 2 ^ 32"
  shows "case vll_attempt mgr ks of (mgr', ok) \<Rightarrow>
           (ok \<longleftrightarrow> compatible (table_size mgr) (mset ks + H)) \<and>
           (ok \<longrightarrow> vll_inv mgr' (mset ks + H)) \<and>
           (\<not> ok \<longrightarrow> read_counts mgr' = read_counts mgr \<and> write_flags mgr' = write_flags mgr)"
proof -
  obtain m ok where a: "vll_attempt mgr ks = (m, ok)" by (cases "vll_attempt mgr ks")
  note i = vll_attempt_inv [OF assms a]
  have "read_counts m = read_counts mgr \<and> write_flags m = write_flags mgr" if "\<not> ok"
    using accounts_unique [of m H mgr] i assms(1) that by (simp add: vll_inv_def)
  with i show ?thesis by (auto simp: a)
qed

text \<open>A table of the size the code starts from, with no lock held.\<close>

lemma create_1024:
  "vll_create (Suc 0) 1024 = Some \<lparr>read_counts = replicate 1024 0, write_flags = replicate 1024 0, table_size = 1024,
     vll_stats = \<lparr>txns_submitted = 0, txns_committed = 0, txns_timeout = 0, conflicts_resolved = 0,
                  predictive_reorders = 0\<rparr>, next_txn_id = 1\<rparr>"
  by (simp add: vll_create_def)

lemma vll_inv_create: "vll_create fuel n = Some mgr \<Longrightarrow> table_size mgr \<noteq> 0 \<Longrightarrow> vll_inv mgr {#}"
  by (auto simp: vll_create_def vll_inv_def accounts_def compatible_def readers_def writers_def split: option.splits)

theorem vll_attempt_exact_witness:
  "snd (vll_attempt (the (vll_create (Suc 0) 1024))
      [\<lparr>key_hash = 5, lock_type = VLL_LOCK_WRITE\<rparr>, \<lparr>key_hash = 6, lock_type = VLL_LOCK_READ\<rparr>])
   \<and> \<not> snd (vll_attempt (the (vll_create (Suc 0) 1024))
      [\<lparr>key_hash = 5, lock_type = VLL_LOCK_WRITE\<rparr>, \<lparr>key_hash = 1029, lock_type = VLL_LOCK_READ\<rparr>])"
proof -
  let ?m = "the (vll_create (Suc 0) 1024)"
  have i: "vll_inv ?m {#}" by (rule vll_inv_create [of "Suc 0" 1024]) (simp_all add: create_1024)
  have "snd (vll_attempt ?m ks) \<longleftrightarrow> compatible 1024 (mset ks)" if "length ks < 2 ^ 32" for ks
    using vll_attempt_exact [OF i, of ks] that by (cases "vll_attempt ?m ks") (simp add: create_1024)
  then show ?thesis
    by (auto simp: compatible_def writers_add readers_add writers_def readers_def slot_of_def intro: exI [of _ 5])
qed

subsection \<open>Interleaved transactions\<close>

text \<open>
  The system: the shared manager and the requests of all threads.  A step creates a request, starts
  or restarts one (the sorting and the submission time of \<open>vll_acquire\<close>), runs one iteration of its
  retry loop, or releases it.  A thread does not acquire again what it holds, and the held keys
  number fewer than \<open>2^32\<close>, the range of the reader counters.
\<close>

type_synonym vll_system = "VLLManager \<times> VLLRequest list"

definition held_by :: "VLLRequest \<Rightarrow> VLLKey multiset" where
  "held_by r = (if req_status r = VLL_OK then mset (req_keys r) else {#})"

definition held :: "VLLRequest list \<Rightarrow> VLLKey multiset" where
  "held rs = sum_list (map held_by rs)"

inductive vll_step :: "vll_system \<Rightarrow> vll_system \<Rightarrow> bool" where
  create: "vll_request_create m hs ts = (m', Some r) \<Longrightarrow> vll_step (m, rs) (m', rs @ [r])"
| submit: "i < length rs \<Longrightarrow> req_status (rs ! i) \<noteq> VLL_OK \<Longrightarrow> vll_sort_keys m (rs ! i) = (m', r) \<Longrightarrow>
    vll_step (m, rs) (m', rs[i := r\<lparr>submit_us := now\<rparr>])"
| attempt: "i < length rs \<Longrightarrow> req_status (rs ! i) \<noteq> VLL_OK \<Longrightarrow>
    size (held rs) + length (req_keys (rs ! i)) < 2 ^ 32 \<Longrightarrow>
    vll_acquire_step now m (rs ! i) = (m', r, st) \<Longrightarrow> vll_step (m, rs) (m', rs[i := r])"
| release: "i < length rs \<Longrightarrow> vll_release m (rs ! i) = (m', r) \<Longrightarrow> vll_step (m, rs) (m', rs[i := r])"

inductive vll_reachable :: "vll_system \<Rightarrow> bool" where
  start: "vll_create fuel n = Some m \<Longrightarrow> table_size m \<noteq> 0 \<Longrightarrow> vll_reachable (m, [])"
| step: "vll_reachable s \<Longrightarrow> vll_step s s' \<Longrightarrow> vll_reachable s'"

lemma held_update: "i < length rs \<Longrightarrow> held (rs[i := r]) + held_by (rs ! i) = held rs + held_by r"
proof (induction rs arbitrary: i)
  case (Cons a rs)
  then show ?case by (cases i) (auto simp: held_def add.assoc ac_simps)
qed simp

lemma vll_step_inv:
  assumes "vll_step (m, rs) (m', rs')" "vll_inv m (held rs)"
  shows "vll_inv m' (held rs')"
  using assms(1)
proof cases
  case (create hs ts r)
  with assms(2) show ?thesis
    by (auto simp: vll_request_create_def held_def held_by_def vll_inv_def accounts_def split: if_splits)
next
  case (submit i r now)
  with held_update [of i rs "r\<lparr>submit_us := now\<rparr>"] assms(2) show ?thesis
    by (auto simp: vll_sort_keys_def held_by_def vll_inv_def accounts_def)
next
  case (attempt i now r st)
  obtain m1 ok where a: "vll_attempt m (req_keys (rs ! i)) = (m1, ok)" by (cases "vll_attempt m (req_keys (rs ! i))")
  from vll_attempt_inv(3) [OF assms(2) attempt(4) a] held_update [OF attempt(2), of r] attempt a
  show ?thesis by (auto simp: vll_acquire_step_def held_by_def ac_simps split: if_splits)
next
  case (release i r)
  show ?thesis
  proof (cases "req_status (rs ! i) = VLL_OK")
    case True
    with held_update [OF release(2), of r] release
    have h: "held rs = mset (req_keys (rs ! i)) + held rs'"
      by (auto simp: vll_release_def held_by_def ac_simps)
    with assms(2) have "vll_inv m (mset (req_keys (rs ! i)) + held rs')" by simp
    from unlock_keys_inv [OF this] True release show ?thesis by (auto simp: vll_release_def)
  next
    case False
    with release assms(2) show ?thesis by (auto simp: vll_release_def)
  qed
qed

lemma vll_reachable_inv: "vll_reachable s \<Longrightarrow> vll_inv (fst s) (held (snd s))"
proof (induction rule: vll_reachable.induct)
  case (start fuel n m)
  then show ?case by (simp add: vll_inv_create held_def)
next
  case (step s s')
  obtain m rs m' rs' where "s = (m, rs)" "s' = (m', rs')" by (cases s; cases s')
  with step vll_step_inv [of m rs m' rs'] show ?case by simp
qed

lemma held_two:
  assumes "i < length rs" "j < length rs" "i \<noteq> j"
  shows "\<exists>R. held rs = held_by (rs ! i) + held_by (rs ! j) + R"
proof -
  let ?z = "(rs ! i)\<lparr>req_status := VLL_ABORTED\<rparr>"
  let ?w = "(rs ! j)\<lparr>req_status := VLL_ABORTED\<rparr>"
  have "held rs = held (rs[i := ?z]) + held_by (rs ! i)"
    using held_update [OF assms(1), of ?z] by (simp add: held_by_def)
  moreover have "held (rs[i := ?z]) = held (rs[i := ?z, j := ?w]) + held_by (rs ! j)"
    using held_update [of j "rs[i := ?z]" ?w] assms by (simp add: held_by_def)
  ultimately show ?thesis by (metis add.assoc add.commute)
qed

text \<open>
  C8. Mutual exclusion over every interleaving: whenever two different requests hold their locks in
  a reachable state, keys of theirs that fall in the same slot are both held for reading.
\<close>

theorem vll_mutual_exclusion:
  assumes "vll_reachable (m, rs)" and "i < length rs" and "j < length rs" and "i \<noteq> j"
    and "req_status (rs ! i) = VLL_OK" and "req_status (rs ! j) = VLL_OK"
    and "a \<in> set (req_keys (rs ! i))" and "b \<in> set (req_keys (rs ! j))"
    and "slot_of (table_size m) a = slot_of (table_size m) b"
  shows "lock_type a = VLL_LOCK_READ \<and> lock_type b = VLL_LOCK_READ"
proof -
  let ?sz = "table_size m" and ?s = "slot_of (table_size m) a"
  have "compatible ?sz (held rs)"
    using vll_reachable_inv [OF assms(1)] by (simp add: vll_inv_def)
  moreover obtain R where "held rs = held_by (rs ! i) + held_by (rs ! j) + R"
    using held_two assms(2-4) by blast
  moreover obtain A where "held_by (rs ! i) = add_mset a A"
    using assms(5,7) by (metis held_by_def multi_member_split set_mset_mset)
  moreover obtain B where "held_by (rs ! j) = add_mset b B"
    using assms(6,8) by (metis held_by_def multi_member_split set_mset_mset)
  ultimately have c: "compatible ?sz (add_mset a (add_mset b (A + B + R)))"
    by (simp add: ac_simps add_mset_commute)
  then have "writers ?sz (add_mset a (add_mset b (A + B + R))) ?s \<le> 1 \<and>
      (0 < writers ?sz (add_mset a (add_mset b (A + B + R))) ?s \<longrightarrow>
       readers ?sz (add_mset a (add_mset b (A + B + R))) ?s = 0)"
    by (simp add: compatible_def)
  with assms(9) show ?thesis
    by (cases "lock_type a"; cases "lock_type b") (auto simp: writers_add readers_add)
qed

text \<open>A run in which two threads come to hold the same key for reading.\<close>

lemma two_readers_reachable:
  "\<exists>m r r'. vll_reachable (m, [r, r']) \<and> table_size m = 1024 \<and> req_status r = VLL_OK \<and> req_status r' = VLL_OK \<and>
     req_keys r = [\<lparr>key_hash = 5, lock_type = VLL_LOCK_READ\<rparr>] \<and>
     req_keys r' = [\<lparr>key_hash = 5, lock_type = VLL_LOCK_READ\<rparr>]"
proof -
  let ?k = "\<lparr>key_hash = 5, lock_type = VLL_LOCK_READ\<rparr>"
  let ?r = "\<lambda>i. \<lparr>txn_id = i, req_keys = [?k], req_status = VLL_CONFLICT, submit_us = 0, acquired_us = 0\<rparr>"
  have "\<exists>m. vll_create (Suc 0) 1024 = Some m \<and> table_size m = 1024 \<and> next_txn_id m = 1 \<and>
      write_flags m = replicate 1024 0"
    by (simp add: create_1024)
  then obtain m where m: "vll_create (Suc 0) 1024 = Some m" "table_size m = 1024" "next_txn_id m = 1"
    "write_flags m = replicate 1024 0" by blast
  then have "vll_reachable (m, [])" by (intro vll_reachable.start) auto
  from step [OF this vll_step.create [of m "[5]" "[VLL_LOCK_READ]"]]
  have "vll_reachable (m\<lparr>next_txn_id := 2\<rparr>, [?r 1])"
    by (simp add: vll_request_create_def VLL_MAX_KEYS_PER_TXN_def m)
  from step [OF this vll_step.create [of _ "[5]" "[VLL_LOCK_READ]"]]
  have "vll_reachable (m\<lparr>next_txn_id := 3\<rparr>, [?r 1, ?r 2])"
    by (simp add: vll_request_create_def VLL_MAX_KEYS_PER_TXN_def m)
  then have "\<exists>m'. vll_reachable (m', [(?r 1)\<lparr>req_status := VLL_OK, acquired_us := 0\<rparr>, ?r 2]) \<and> table_size m' = 1024 \<and>
      write_flags m' = replicate 1024 0"
    using step [OF _ vll_step.attempt [of 0 "[?r 1, ?r 2]" 0 "m\<lparr>next_txn_id := 3\<rparr>"]] m
    by (auto simp: vll_acquire_step_def vll_attempt_def lock_key_def key_to_slot_def Let_def held_def held_by_def
        count_result_def)
  then obtain m' where m': "vll_reachable (m', [(?r 1)\<lparr>req_status := VLL_OK, acquired_us := 0\<rparr>, ?r 2])"
    "table_size m' = 1024" "write_flags m' = replicate 1024 0" by blast
  from step [OF m'(1) vll_step.attempt [of 1 _ 0]] m'(2,3)
  have "\<exists>m. vll_reachable (m, [(?r 1)\<lparr>req_status := VLL_OK, acquired_us := 0\<rparr>,
      (?r 2)\<lparr>req_status := VLL_OK, acquired_us := 0\<rparr>]) \<and> table_size m = 1024"
    by (auto simp: vll_acquire_step_def vll_attempt_def lock_key_def key_to_slot_def Let_def held_def held_by_def
        count_result_def)
  then show ?thesis by force
qed

theorem vll_mutual_exclusion_witness:
  "\<exists>m r r'. vll_reachable (m, [r, r']) \<and> req_status r = VLL_OK \<and> req_status r' = VLL_OK \<and>
     lock_type (hd (req_keys r)) = VLL_LOCK_READ \<and> lock_type (hd (req_keys r')) = VLL_LOCK_READ"
proof -
  obtain m r r' where h: "vll_reachable (m, [r, r'])" "req_status r = VLL_OK" "req_status r' = VLL_OK"
    "req_keys r = [\<lparr>key_hash = 5, lock_type = VLL_LOCK_READ\<rparr>]" "req_keys r' = [\<lparr>key_hash = 5, lock_type = VLL_LOCK_READ\<rparr>]"
    using two_readers_reachable by blast
  then have "lock_type (hd (req_keys r)) = VLL_LOCK_READ \<and> lock_type (hd (req_keys r')) = VLL_LOCK_READ"
    using vll_mutual_exclusion [OF h(1), of 0 1 "hd (req_keys r)" "hd (req_keys r')"] by simp
  with h show ?thesis by blast
qed

subsection \<open>The retry loop\<close>

lemma vll_acquire_loop_returns:
  assumes "submit_us req + VLL_TIMEOUT_US \<le> clock (attempt + fuel)" and "0 < fuel"
  shows "\<exists>mgr' req' st. vll_acquire_loop fuel clock others attempt mgr req = Some (mgr', req', st) \<and>
           (st = VLL_OK \<or> st = VLL_TIMEOUT) \<and> req_status req' = st"
  using assms
proof (induction fuel arbitrary: attempt mgr)
  case (Suc fuel)
  obtain m ok where a: "vll_attempt mgr (req_keys req) = (m, ok)" by (cases "vll_attempt mgr (req_keys req)")
  show ?case
  proof (cases "ok \<or> submit_us req + VLL_TIMEOUT_US \<le> clock (attempt + 1)")
    case True
    with a show ?thesis by (auto simp: vll_acquire_step_def)
  next
    case False
    moreover from this Suc.prems have "0 < fuel" by (cases fuel) auto
    ultimately show ?thesis
      using a Suc.IH [of "attempt + 1" "others (attempt + 1) m"] Suc.prems(1) by (simp add: vll_acquire_step_def)
  qed
qed simp

lemma unat_backoff: "unat (vll_backoff_us n) = 10 * 2 ^ (if n < 7 then n else 7)"
proof -
  let ?k = "if n < 7 then n else 7"
  have "vll_backoff_us n = of_nat (10 * 2 ^ ?k)"
    by (simp add: vll_backoff_us_def push_bit_eq_mult)
  moreover have "(2 :: nat) ^ ?k \<le> 2 ^ 7" by (intro power_increasing) auto
  then have "10 * 2 ^ ?k < (2 :: nat) ^ LENGTH(64)" by simp
  ultimately show ?thesis by (simp only: unat_of_nat_eq)
qed

lemma backoff_bound: "unat (vll_backoff_us n) \<le> 1280"
proof -
  have "(2 :: nat) ^ (if n < 7 then n else 7) \<le> 2 ^ 7" by (intro power_increasing) auto
  then show ?thesis unfolding unat_backoff by simp
qed

text \<open>
  C26. The blocking acquire returns: when every sleep lasts at least its backoff and the clock does
  not wrap, \<open>vll_acquire\<close> on a request with keys ends after at most 14 attempts with \<open>VLL_OK\<close> or
  \<open>VLL_TIMEOUT\<close>, whatever the other threads do to the table in between.
\<close>

theorem vll_acquire_returns:
  assumes "req_keys req \<noteq> []" and "unat (clock 0) \<le> unat (clock 1)" and "unat (clock 0) + 10000 < 2 ^ 64"
    and "\<forall>n < 13. unat (clock (n + 1)) + unat (vll_backoff_us (n + 1)) \<le> unat (clock (n + 2))"
  shows "\<exists>mgr' req' st. vll_acquire 14 clock others mgr req = Some (mgr', req', st) \<and>
           (st = VLL_OK \<or> st = VLL_TIMEOUT) \<and> req_status req' = st"
proof -
  have st: "unat (clock (n + 1)) + 10 * 2 ^ (if n + 1 < 7 then n + 1 else 7) \<le> unat (clock (n + 2))" if "n < 13" for n
    using assms(4) that unfolding unat_backoff by blast
  have "unat (clock 0) + 10000 \<le> unat (clock 14)"
    using st [of 0] st [of 1] st [of 2] st [of 3] st [of 4] st [of 5] st [of 6] st [of 7] st [of 8] st [of 9]
      st [of 10] st [of 11] st [of 12] assms(2) by (simp add: numeral_2_eq_2 [symmetric] numeral_3_eq_3 [symmetric])
  moreover have "unat (clock 0 + VLL_TIMEOUT_US) = unat (clock 0) + 10000"
    using assms(3) by (simp add: VLL_TIMEOUT_US_def unat_word_ariths)
  ultimately have "clock 0 + VLL_TIMEOUT_US \<le> clock (0 + 14)"
    by (simp add: word_le_nat_alt)
  with assms(1) vll_acquire_loop_returns [of "(snd (vll_sort_keys mgr req))\<lparr>submit_us := clock 0\<rparr>" clock 0 14 others
      "fst (vll_sort_keys mgr req)"]
  show ?thesis by (simp add: vll_acquire_def vll_sort_keys_def)
qed

theorem vll_acquire_returns_witness:
  "\<exists>mgr' req' st. vll_acquire 14 (\<lambda>n. of_nat n * 1280) (\<lambda>n m. m) (the (vll_create (Suc 0) 1024))
      \<lparr>txn_id = 1, req_keys = [\<lparr>key_hash = 5, lock_type = VLL_LOCK_WRITE\<rparr>], req_status = VLL_CONFLICT,
       submit_us = 0, acquired_us = 0\<rparr> = Some (mgr', req', st) \<and>
      (st = VLL_OK \<or> st = VLL_TIMEOUT) \<and> req_status req' = st"
proof (rule vll_acquire_returns)
  have u: "unat (of_nat n * 1280 :: u64) = n * 1280" if "n < 20" for n
  proof -
    have "of_nat n * (1280 :: u64) = of_nat (n * 1280)" by simp
    moreover have "n * 1280 < 2 ^ LENGTH(64)" using that by simp
    ultimately show ?thesis by (simp only: unat_of_nat_eq)
  qed
  show "\<forall>n < 13. unat (of_nat (n + 1) * (1280 :: u64)) + unat (vll_backoff_us (n + 1)) \<le> unat (of_nat (n + 2) * (1280 :: u64))"
  proof (intro allI impI)
    fix n :: nat
    assume "n < 13"
    then have n: "n + 1 < 20" "n + 2 < 20" by simp_all
    have "(n + 1) * 1280 + unat (vll_backoff_us (n + 1)) \<le> (n + 2) * 1280"
      using backoff_bound [of "n + 1"] by simp
    then show "unat (of_nat (n + 1) * (1280 :: u64)) + unat (vll_backoff_us (n + 1)) \<le> unat (of_nat (n + 2) * (1280 :: u64))"
      unfolding u [OF n(1)] u [OF n(2)] .
  qed
qed simp_all

text \<open>
  A request that conflicts with itself is never granted.  When two of its keys fall in one slot
  and one of them is a write, as when a transaction reads and writes the same key, no attempt can
  succeed even on an idle table, and \<open>vll_acquire\<close> can only return \<open>VLL_TIMEOUT\<close>.
\<close>

lemma vll_self_conflict_times_out:
  assumes "vll_inv mgr H" and "size H + length (req_keys req) < 2 ^ 32"
    and "\<And>n m H. vll_inv m H \<Longrightarrow> size H + length (req_keys req) < 2 ^ 32 \<Longrightarrow>
           \<exists>H'. vll_inv (others n m) H' \<and> size H' + length (req_keys req) < 2 ^ 32 \<and> table_size (others n m) = table_size m"
    and "\<not> compatible (table_size mgr) (mset (req_keys req))" and "req_keys req \<noteq> []"
    and "vll_acquire fuel clock others mgr req = Some (mgr', req', st)"
  shows "st = VLL_TIMEOUT"
proof -
  let ?l = "length (req_keys req)" and ?ks = "sort_key key_rank (req_keys req)"
  have loop: "vll_inv m H \<Longrightarrow> size H + ?l < 2 ^ 32 \<Longrightarrow> table_size m = table_size mgr \<Longrightarrow> req_keys r = ?ks \<Longrightarrow>
      vll_acquire_loop fuel clock others n m r = Some (mgr', req', st) \<Longrightarrow> st = VLL_TIMEOUT" for m H r n
  proof (induction fuel arbitrary: m H n)
    case (Suc fuel)
    obtain m1 ok where a: "vll_attempt m ?ks = (m1, ok)" by (cases "vll_attempt m ?ks")
    have b: "size H + length ?ks < 2 ^ 32" using Suc.prems(2) by simp
    note i = vll_attempt_inv [OF Suc.prems(1) b a]
    have nok: "\<not> ok"
      using i(2) assms(4) Suc.prems(3) compatible_mono [of _ "mset ?ks" H] by auto
    then obtain H' where "vll_inv (others (n + 1) m1) H'" "size H' + ?l < 2 ^ 32"
      "table_size (others (n + 1) m1) = table_size mgr"
      using assms(3) [of m1 H "n + 1"] i Suc.prems by auto
    with Suc nok a show ?case by (auto simp: vll_acquire_step_def split: if_splits)
  qed simp
  have "vll_inv (fst (vll_sort_keys mgr req)) H"
    using assms(1) by (simp add: vll_sort_keys_def vll_inv_def accounts_def)
  from loop [OF this assms(2), of "(snd (vll_sort_keys mgr req))\<lparr>submit_us := clock 0\<rparr>" 0] assms(5,6) show ?thesis
    by (simp add: vll_acquire_def vll_sort_keys_def)
qed

lemma vll_self_conflict_times_out_example:
  "\<exists>mgr' req' st. vll_acquire 1 (\<lambda>n. of_nat n * 10000) (\<lambda>n m. m) (the (vll_create (Suc 0) 1024))
      \<lparr>txn_id = 1, req_keys = [\<lparr>key_hash = 5, lock_type = VLL_LOCK_WRITE\<rparr>, \<lparr>key_hash = 5, lock_type = VLL_LOCK_READ\<rparr>],
       req_status = VLL_CONFLICT, submit_us = 0, acquired_us = 0\<rparr> = Some (mgr', req', st) \<and> st = VLL_TIMEOUT"
proof -
  let ?m = "the (vll_create (Suc 0) 1024)" and ?c = "\<lambda>n. of_nat n * (10000 :: u64)"
  let ?r = "\<lparr>txn_id = 1, req_keys = [\<lparr>key_hash = 5, lock_type = VLL_LOCK_WRITE\<rparr>, \<lparr>key_hash = 5, lock_type = VLL_LOCK_READ\<rparr>],
       req_status = VLL_CONFLICT, submit_us = 0, acquired_us = 0\<rparr>"
  have "\<exists>m r st. vll_acquire_loop 1 ?c (\<lambda>n m. m) 0 (fst (vll_sort_keys ?m ?r))
      ((snd (vll_sort_keys ?m ?r))\<lparr>submit_us := ?c 0\<rparr>) = Some (m, r, st) \<and> (st = VLL_OK \<or> st = VLL_TIMEOUT) \<and> req_status r = st"
    by (intro vll_acquire_loop_returns) (simp_all add: VLL_TIMEOUT_US_def)
  then obtain m r st where a: "vll_acquire 1 ?c (\<lambda>n m. m) ?m ?r = Some (m, r, st)"
    by (auto simp: vll_acquire_def case_prod_beta)
  have "vll_inv ?m {#}" by (rule vll_inv_create [of "Suc 0" 1024]) (simp_all add: create_1024)
  moreover have "\<not> compatible 1024 (mset (req_keys ?r))"
    by (auto simp: compatible_def writers_add readers_add writers_def readers_def slot_of_def intro!: exI [of _ 5])
  ultimately have "st = VLL_TIMEOUT"
    using a by (intro vll_self_conflict_times_out [of ?m "{#}" ?r "\<lambda>n m. m"]) (auto simp: create_1024)
  with a show ?thesis by blast
qed

subsection \<open>The table size\<close>

lemma unat_shift: "unat sz = 2 ^ k \<Longrightarrow> k < 31 \<Longrightarrow> unat (push_bit 1 sz :: u32) = 2 ^ (k + 1)"
proof -
  assume h: "unat sz = 2 ^ k" "k < 31"
  have "(2 :: nat) * 2 ^ k \<le> 2 * 2 ^ 30" using h(2) by (intro mult_le_mono power_increasing) auto
  with h(1) show ?thesis by (simp add: push_bit_eq_mult unat_word_ariths)
qed

lemma vll_table_size_returns:
  assumes "unat sz = 2 ^ k" "k \<le> 31" "n \<le> 2 ^ 31"
  shows "\<exists>sz' j. vll_table_size (32 - k) sz n = Some sz' \<and> unat sz' = 2 ^ j \<and> n \<le> sz'"
  using assms(1,2)
proof (induction "31 - k" arbitrary: k sz)
  case 0
  then have "k = 31" by simp
  with 0 have "\<not> sz < n" using assms(3) by (auto simp: word_less_nat_alt word_le_nat_alt)
  with 0 \<open>k = 31\<close> show ?case by (auto intro: exI [of _ 31])
next
  case (Suc d)
  then have k: "k < 31" "32 - k = Suc (32 - (k + 1))" by auto
  show ?case
  proof (cases "sz < n")
    case True
    from Suc.hyps(1) [of "k + 1" "push_bit 1 sz"] Suc.hyps(2) unat_shift [OF Suc.prems(1) k(1)] k True
    show ?thesis by auto
  next
    case False
    with Suc.prems k show ?thesis by auto
  qed
qed

lemma vll_table_size_diverges:
  assumes "2 ^ 31 < n" "sz = 0 \<or> (\<exists>k \<le> 31. unat sz = 2 ^ k)"
  shows "vll_table_size fuel sz n = None"
  using assms(2)
proof (induction fuel arbitrary: sz)
  case (Suc fuel)
  have n: "2 ^ 31 < unat n" using assms(1) by (simp add: word_less_nat_alt)
  have "unat sz \<le> 2 ^ 31"
    using Suc.prems power_increasing [of _ 31 "2 :: nat"] by auto
  with n have "sz < n" by (simp add: word_less_nat_alt)
  moreover have "push_bit 1 sz = 0 \<or> (\<exists>k \<le> 31. unat (push_bit 1 sz) = 2 ^ k)"
  proof (cases "sz = 0 \<or> unat sz = 2 ^ 31")
    case True
    then have "sz = 0 \<or> sz = 2 ^ 31" by (auto simp: word_unat_eq_iff)
    then show ?thesis by (auto simp: push_bit_eq_mult)
  next
    case False
    with Suc.prems obtain k where "k \<le> 31" "unat sz = 2 ^ k" by auto
    with False have "k < 31" by (cases "k = 31") auto
    with unat_shift [OF \<open>unat sz = 2 ^ k\<close>] show ?thesis by (intro disjI2 exI [of _ "k + 1"]) simp
  qed
  ultimately show ?case using Suc.IH by simp
qed simp

text \<open>
  The lock table is created exactly for requested sizes up to \<open>2^31\<close>; it then has a power of
  two of at least the requested number of slots, and all of them free.  For a larger request the
  doubling of the 32-bit size wraps to zero and the creation loop never ends.
\<close>

lemma vll_create_exact:
  "(if n \<le> 2 ^ 31
    then \<exists>mgr k. vll_create 22 n = Some mgr \<and> unat (table_size mgr) = 2 ^ k \<and> n \<le> table_size mgr \<and> vll_inv mgr {#}
    else \<forall>fuel. vll_create fuel n = None)"
proof (cases "n \<le> 2 ^ 31")
  case True
  then obtain sz j where sz: "vll_table_size 22 1024 n = Some sz" "unat sz = 2 ^ j" "n \<le> sz"
    using vll_table_size_returns [of 1024 10 n] by auto
  then have "\<exists>mgr. vll_create 22 n = Some mgr \<and> table_size mgr = sz" by (simp add: vll_create_def)
  moreover have "sz \<noteq> 0" using sz(2) by auto
  ultimately show ?thesis using True sz vll_inv_create by auto
next
  case False
  then have "vll_table_size fuel 1024 n = None" for fuel
    by (intro vll_table_size_diverges disjI2 exI [of _ 10]) auto
  with False show ?thesis by (simp add: vll_create_def)
qed

end
