(* ===== verification/Nex_Subkey_Ttl.thy ===== *)
theory Nex_Subkey_Ttl
  imports Nex_Map_Spec
begin

text \<open>
  The expiry tables for fields of a key, \<open>core/subkey_ttl.c\<close>: an array of (field, expiry) entries
  searched from the front, the scan that reports and removes expired fields, and the manager that
  scans the registered tables.

  A field is its bytes; \<open>uint8_t field_len\<close> makes them at most 255, so \<open>copy_len\<close> is \<open>field_len\<close>.
  \<open>can_grow\<close> says whether a \<open>realloc\<close> succeeds and \<open>now\<close> is the reading of \<open>unix_now\<close>.  The scan
  releases the table lock around every callback: what other threads do to the table there is an
  argument.
\<close>

datatype SubkeyContainerType = SKC_HASH | SKC_SET | SKC_ZSET | SKC_LIST | SKC_JSON | SKC_VECTOR

record SubkeyEntry =
  field :: bytes
  expire_unix :: u32

record SubkeyTTL =
  st_entries :: "SubkeyEntry list"
  st_capacity :: u32
  container_type :: SubkeyContainerType
  parent_key :: bytes

definition subkey_ttl_create :: "bytes option \<Rightarrow> SubkeyContainerType \<Rightarrow> SubkeyTTL" where
  "subkey_ttl_create pk ty =
     \<lparr>st_entries = [], st_capacity = 64, container_type = ty,
      parent_key = (case pk of None \<Rightarrow> [] | Some k \<Rightarrow> take 255 k)\<rparr>"

definition subkey_ttl_set :: "bool \<Rightarrow> SubkeyTTL \<Rightarrow> bytes option \<Rightarrow> u32 \<Rightarrow> int \<times> SubkeyTTL" where
  "subkey_ttl_set can_grow s fld expire =
     (case fld of None \<Rightarrow> (- 1, s)
      | Some f \<Rightarrow>
          if length f = 0 then (- 1, s)
          else case find_index (\<lambda>e. field e = f) (st_entries s) of
                 Some i \<Rightarrow> (1, s\<lparr>st_entries := (st_entries s)[i := (st_entries s ! i)\<lparr>expire_unix := expire\<rparr>]\<rparr>)
               | None \<Rightarrow>
                   if st_capacity s \<le> of_nat (length (st_entries s)) \<and> \<not> can_grow then (- 1, s)
                   else (0, s\<lparr>st_capacity := (if st_capacity s \<le> of_nat (length (st_entries s))
                                              then st_capacity s * 2 else st_capacity s),
                              st_entries := st_entries s @ [\<lparr>field = f, expire_unix = expire\<rparr>]\<rparr>))"

definition subkey_ttl_clear :: "SubkeyTTL \<Rightarrow> bytes option \<Rightarrow> int \<times> SubkeyTTL" where
  "subkey_ttl_clear s fld =
     (case fld of None \<Rightarrow> (- 1, s)
      | Some f \<Rightarrow>
          (case find_index (\<lambda>e. field e = f) (st_entries s) of
             Some i \<Rightarrow> (1, s\<lparr>st_entries := swap_remove i (st_entries s)\<rparr>)
           | None \<Rightarrow> (0, s)))"

definition subkey_ttl_get :: "SubkeyTTL \<Rightarrow> bytes option \<Rightarrow> u32" where
  "subkey_ttl_get s fld =
     (case fld of None \<Rightarrow> 0
      | Some f \<Rightarrow>
          (case find_index (\<lambda>e. field e = f) (st_entries s) of
             Some i \<Rightarrow> expire_unix (st_entries s ! i)
           | None \<Rightarrow> 0))"

subsection \<open>The expiry scan\<close>

definition expired_at :: "u32 \<Rightarrow> SubkeyEntry \<Rightarrow> bool" where
  "expired_at now e \<longleftrightarrow> 0 < expire_unix e \<and> expire_unix e \<le> now"

text \<open>
  The outcome of a scan: the entries left and the fields reported, in order; an access beyond the
  entries, where the other threads removed the entry the scan was about to remove; or no end within
  the fuel.
\<close>

datatype scan_outcome = Scanned "SubkeyEntry list" "bytes list" | Bad_access | Out_of_fuel

fun subkey_scan ::
  "nat \<Rightarrow> u32 \<Rightarrow> (nat \<Rightarrow> SubkeyEntry list \<Rightarrow> SubkeyEntry list) \<Rightarrow> nat \<Rightarrow> SubkeyEntry list \<Rightarrow> bytes list \<Rightarrow> scan_outcome" where
  "subkey_scan 0 now others i es calls = Out_of_fuel"
| "subkey_scan (Suc fuel) now others i es calls =
     (if i < length es
      then if expired_at now (es ! i)
           then let es' = others (length calls) es
                in if i < length es'
                   then subkey_scan fuel now others i (swap_remove i es') (calls @ [field (es ! i)])
                   else Bad_access
           else subkey_scan fuel now others (i + 1) es calls
      else Scanned es calls)"

text \<open>The scan with no interference; the loop ends within \<open>count + 1\<close> tests of its condition.\<close>

definition subkey_ttl_expire :: "u32 \<Rightarrow> SubkeyTTL \<Rightarrow> (SubkeyTTL \<times> bytes list) option" where
  "subkey_ttl_expire now s =
     (case subkey_scan (Suc (length (st_entries s))) now (\<lambda>_ es. es) 0 (st_entries s) [] of
        Scanned es calls \<Rightarrow> Some (s\<lparr>st_entries := es\<rparr>, calls)
      | _ \<Rightarrow> None)"

definition subkey_ttl_active_count :: "u32 \<Rightarrow> SubkeyTTL \<Rightarrow> u32" where
  "subkey_ttl_active_count now s =
     foldl (\<lambda>n e. if expire_unix e = 0 \<or> now < expire_unix e then n + 1 else n) 0 (st_entries s)"

subsection \<open>The manager\<close>

text \<open>Tables are named by the position of the handle in the store of all tables.\<close>

record SubkeyTTLManager =
  sm_tables :: "nat list"
  sm_capacity :: u32
  sm_running :: bool
  expired_total :: u64
  scan_interval_ms :: u32

definition subkey_mgr_create :: SubkeyTTLManager where
  "subkey_mgr_create =
     \<lparr>sm_tables = [], sm_capacity = 256, sm_running = True, expired_total = 0, scan_interval_ms = 1000\<rparr>"

definition subkey_mgr_register :: "bool \<Rightarrow> SubkeyTTLManager \<Rightarrow> nat option \<Rightarrow> int \<times> SubkeyTTLManager" where
  "subkey_mgr_register can_grow mgr s =
     (case s of None \<Rightarrow> (- 1, mgr)
      | Some t \<Rightarrow>
          if sm_capacity mgr \<le> of_nat (length (sm_tables mgr)) \<and> \<not> can_grow then (- 1, mgr)
          else (0, mgr\<lparr>sm_capacity := (if sm_capacity mgr \<le> of_nat (length (sm_tables mgr))
                                       then sm_capacity mgr * 2 else sm_capacity mgr),
                       sm_tables := sm_tables mgr @ [t]\<rparr>))"

definition subkey_mgr_unregister :: "SubkeyTTLManager \<Rightarrow> nat option \<Rightarrow> int \<times> SubkeyTTLManager" where
  "subkey_mgr_unregister mgr s =
     (case s of None \<Rightarrow> (- 1, mgr)
      | Some t \<Rightarrow>
          (case find_index (\<lambda>u. u = t) (sm_tables mgr) of
             Some i \<Rightarrow> (0, mgr\<lparr>sm_tables := swap_remove i (sm_tables mgr)\<rparr>)
           | None \<Rightarrow> (- 1, mgr)))"

text \<open>One round of \<open>subkey_mgr_thread\<close> over the store, with the fields reported.\<close>

fun subkey_mgr_round ::
  "u32 \<Rightarrow> nat list \<Rightarrow> (nat \<Rightarrow> SubkeyTTL) \<Rightarrow> u64 \<Rightarrow> ((nat \<Rightarrow> SubkeyTTL) \<times> u64 \<times> (nat \<times> bytes) list) option" where
  "subkey_mgr_round now [] store tot = Some (store, tot, [])"
| "subkey_mgr_round now (t # ts) store tot =
     (case subkey_ttl_expire now (store t) of
        None \<Rightarrow> None
      | Some (s', calls) \<Rightarrow>
          map_option (\<lambda>(store', tot', cs). (store', tot', map (Pair t) calls @ cs))
            (subkey_mgr_round now ts (store(t := s')) (tot + of_nat (length calls))))"

subsection \<open>The table is a map from fields to expiry times\<close>

definition subkey_wf :: "SubkeyTTL \<Rightarrow> bool" where
  "subkey_wf s \<longleftrightarrow> distinct (map field (st_entries s))"

definition subkey_lookup :: "SubkeyTTL \<Rightarrow> bytes \<Rightarrow> u32 option" where
  "subkey_lookup s = map_of (map (\<lambda>e. (field e, expire_unix e)) (st_entries s))"

lemma subkey_wf_create: "subkey_wf (subkey_ttl_create pk ty)"
  by (simp add: subkey_wf_def subkey_ttl_create_def)

lemma subkey_ttl_get_lookup: "subkey_ttl_get s (Some f) = (case subkey_lookup s f of None \<Rightarrow> 0 | Some t \<Rightarrow> t)"
  by (simp add: subkey_ttl_get_def subkey_lookup_def find_index_map_of split: option.splits)

interpretation skt: kv_table subkey_lookup "\<lambda>f t s. snd (subkey_ttl_set True s (Some f) t)"
  "\<lambda>f s. snd (subkey_ttl_clear s (Some f))" subkey_wf "\<lambda>f. f \<noteq> []"
proof
  fix s :: SubkeyTTL and f :: bytes and t :: u32
  assume s: "subkey_wf s" and f: "f \<noteq> []"
  let ?es = "st_entries s" and ?i = "find_index (\<lambda>e. field e = f) (st_entries s)"
  have d: "distinct (map field ?es)" using s by (simp add: subkey_wf_def)
  have upd: "subkey_lookup (snd (subkey_ttl_set True s (Some f) t)) = (subkey_lookup s)(f \<mapsto> t) \<and>
      subkey_wf (snd (subkey_ttl_set True s (Some f) t))"
  proof (cases ?i)
    case None
    let ?e = "\<lparr>field = f, expire_unix = t\<rparr>"
    from None find_index_key_append(1) [OF d None, of ?e] find_index_key_append(2) [OF d None, of ?e expire_unix] f
    show ?thesis
      by (simp add: subkey_ttl_set_def subkey_lookup_def subkey_wf_def)
  next
    case (Some i)
    let ?e = "(?es ! i)\<lparr>expire_unix := t\<rparr>"
    from Some find_index_SomeD [OF Some] find_index_key_update(1) [OF d Some, of ?e]
      find_index_key_update(2) [OF d Some, of ?e expire_unix] f
    show ?thesis by (simp add: subkey_ttl_set_def subkey_lookup_def subkey_wf_def)
  qed
  then show "subkey_lookup (snd (subkey_ttl_set True s (Some f) t)) = (subkey_lookup s)(f \<mapsto> t)"
    and "subkey_wf (snd (subkey_ttl_set True s (Some f) t))" by blast+
  have del: "subkey_lookup (snd (subkey_ttl_clear s (Some f))) = (subkey_lookup s)(f := None) \<and>
      subkey_wf (snd (subkey_ttl_clear s (Some f)))"
  proof (cases ?i)
    case None
    then have "subkey_lookup s f = None" by (simp add: subkey_lookup_def find_index_map_of)
    with None s show ?thesis by (auto simp: subkey_ttl_clear_def fun_upd_idem)
  next
    case (Some i)
    with find_index_key_remove(1) [OF d Some] find_index_key_remove(2) [OF d Some, of expire_unix] show ?thesis
      by (simp add: subkey_ttl_clear_def subkey_lookup_def subkey_wf_def)
  qed
  then show "subkey_lookup (snd (subkey_ttl_clear s (Some f))) = (subkey_lookup s)(f := None)"
    and "subkey_wf (snd (subkey_ttl_clear s (Some f)))" by blast+
qed



subsection \<open>The scan without interference\<close>

lemma subkey_scan_exact:
  assumes "length es < fuel + i" "i \<le> length es" "\<forall>e \<in> set (take i es). \<not> expired_at now e"
  shows "\<exists>es' calls'. subkey_scan fuel now (\<lambda>_ es. es) i es calls = Scanned es' (calls @ calls') \<and>
           mset es' = filter_mset (\<lambda>e. \<not> expired_at now e) (mset es) \<and>
           mset calls' = image_mset field (filter_mset (expired_at now) (mset es))"
  using assms
proof (induction fuel arbitrary: i es calls)
  case (Suc fuel)
  show ?case
  proof (cases "i < length es")
    case True
    show ?thesis
    proof (cases "expired_at now (es ! i)")
      case exp: True
      let ?es = "swap_remove i es"
      have m: "mset es = add_mset (es ! i) (mset ?es)" using True by (simp add: mset_swap_remove)
      have "take i ?es = take i es"
        using True by (cases es rule: rev_cases) (auto simp: swap_remove_snoc take_update_cancel)
      moreover have "length ?es < fuel + i" "i \<le> length ?es" using Suc.prems True by auto
      ultimately obtain es' calls' where "subkey_scan fuel now (\<lambda>_ es. es) i ?es (calls @ [field (es ! i)]) =
          Scanned es' ((calls @ [field (es ! i)]) @ calls')"
        "mset es' = filter_mset (\<lambda>e. \<not> expired_at now e) (mset ?es)"
        "mset calls' = image_mset field (filter_mset (expired_at now) (mset ?es))"
        using Suc.prems(3) Suc.IH [of ?es i "calls @ [field (es ! i)]"] by auto
      with True exp m show ?thesis by (auto intro!: exI [of _ "field (es ! i) # calls'"])
    next
      case False
      have "\<forall>e \<in> set (take (i + 1) es). \<not> expired_at now e"
        using Suc.prems(3) False True by (auto simp: take_Suc_conv_app_nth)
      with Suc.IH [of es "i + 1" calls] Suc.prems True False show ?thesis by auto
    qed
  next
    case False
    with Suc.prems have "\<forall>e \<in> set es. \<not> expired_at now e" by simp
    then have "filter_mset (expired_at now) (mset es) = {#}" "filter_mset (\<lambda>e. \<not> expired_at now e) (mset es) = mset es"
      by (simp_all flip: mset_filter)
    with False show ?thesis by auto
  qed
qed simp


text \<open>
  The scan is not safe against concurrent changes: it drops the lock for the callback and then
  removes position \<open>i\<close> without looking again.  Here a thread clears the expired field during the
  callback; the scan then removes the entry that moved into its place, which has not expired.
\<close>

lemma subkey_scan_race:
  "let expired = \<lparr>field = [1], expire_unix = 10\<rparr>; live = \<lparr>field = [2], expire_unix = 900\<rparr>;
       clear = (\<lambda>n es. if n = 0 then swap_remove 0 es else es)
   in subkey_scan (Suc (Suc fuel)) 100 clear 0 [expired, live] [] = Scanned [] [[1]]"
  by (simp add: Let_def expired_at_def swap_remove_def)

subsection \<open>The manager's round\<close>

lemma subkey_ttl_active_count_filter:
  "subkey_ttl_active_count now s = of_nat (size (filter_mset (\<lambda>e. expire_unix e = 0 \<or> now < expire_unix e) (mset (st_entries s))))"
proof -
  have "foldl (\<lambda>n e. if expire_unix e = 0 \<or> now < expire_unix e then n + 1 else n) n es =
      n + of_nat (size (filter_mset (\<lambda>e. expire_unix e = 0 \<or> now < expire_unix e) (mset es)))" for n :: u32 and es
    by (induction es arbitrary: n) auto
  from this [of 0 "st_entries s"] show ?thesis by (simp add: subkey_ttl_active_count_def)
qed

lemma subkey_ttl_expire_total: "\<exists>s' calls. subkey_ttl_expire now s = Some (s', calls)"
  using subkey_scan_exact [of "st_entries s" "Suc (length (st_entries s))" 0 now "[]"]
  by (auto simp: subkey_ttl_expire_def)

lemma subkey_mgr_round_total:
  "\<exists>store' cs. subkey_mgr_round now ts store tot = Some (store', tot + of_nat (length cs), cs)"
proof (induction ts arbitrary: store tot)
  case (Cons t ts)
  obtain s' calls where e: "subkey_ttl_expire now (store t) = Some (s', calls)"
    using subkey_ttl_expire_total by blast
  obtain store' cs where "subkey_mgr_round now ts (store(t := s')) (tot + of_nat (length calls)) =
      Some (store', tot + of_nat (length calls) + of_nat (length cs), cs)"
    using Cons.IH by blast
  with e have "subkey_mgr_round now (t # ts) store tot =
      Some (store', tot + of_nat (length (map (Pair t) calls @ cs)), map (Pair t) calls @ cs)"
    by (simp add: add.assoc)
  then show ?case by blast
qed simp

end
