(* ===== verification/Nex_Dash.thy ===== *)
theory Nex_Dash
  imports Nex_Bloom Nex_Map_Spec
begin

text \<open>
  The NexDash hash table, \<open>hashtable/nexdash.c\<close>: a directory of segments of 56 buckets with 4
  slots, tagged value pointers, keys in one linear pool, lazy expiry, doubling of the directory,
  scans and eviction.

  Values are opaque addresses and the free callback is present or not.  The time read by \<open>nd_us_now\<close> is the argument \<open>now\<close>;
  \<open>arena_ok\<close> and \<open>realloc_ok\<close> say whether the arena and the key pool can grow.  The calls of
  \<open>free_cb\<close> are recorded in the table, newest last.  The 2Q queues and the weights of the access
  predictor are written by the code and never read, so they are left out.
\<close>

subsection \<open>Tagged pointers\<close>

definition TAG_ADDR_MASK :: u64 where
  "TAG_ADDR_MASK = 0x0000FFFFFFFFFFFF"

definition TAG_GET_ADDR :: "u64 \<Rightarrow> u64" where
  "TAG_GET_ADDR tp = tp AND TAG_ADDR_MASK"

definition TAG_GET_LEN :: "u64 \<Rightarrow> u8" where
  "TAG_GET_LEN tp = ucast (drop_bit 56 tp)"

definition TAG_GET_TYPE :: "u64 \<Rightarrow> u8" where
  "TAG_GET_TYPE tp = ucast (drop_bit 52 tp AND 0x0F)"

definition TAG_GET_TIER :: "u64 \<Rightarrow> u8" where
  "TAG_GET_TIER tp = ucast (drop_bit 50 tp AND 0x03)"

definition TAG_GET_VER :: "u64 \<Rightarrow> u8" where
  "TAG_GET_VER tp = ucast (drop_bit 48 tp AND 0x03)"

definition TAG_SET_META :: "u64 \<Rightarrow> u8 \<Rightarrow> u8 \<Rightarrow> u8 \<Rightarrow> u8 \<Rightarrow> u64" where
  "TAG_SET_META addr len type tier ver =
     addr OR push_bit 56 (ucast len) OR push_bit 52 (ucast type) OR push_bit 50 (ucast tier) OR push_bit 48 (ucast ver)"

definition NTYPE_STRING :: u8 where
  "NTYPE_STRING = 0x0"

definition NTYPE_DELETED :: u8 where
  "NTYPE_DELETED = 0xF"

definition TIER_PROBATORY :: u8 where
  "TIER_PROBATORY = 0"

definition TIER_PROTECTED :: u8 where
  "TIER_PROTECTED = 1"

subsection \<open>Expiry times\<close>

definition encode_expire :: "u64 \<Rightarrow> u32" where
  "encode_expire expire_us = (if expire_us = 0 then 0 else ucast (drop_bit 20 expire_us))"

definition decode_expire :: "u32 \<Rightarrow> u64" where
  "decode_expire enc = (if enc = 0 then 0 else push_bit 20 (ucast enc))"

subsection \<open>Segments\<close>

definition NEXDASH_BUCKET_COUNT :: nat where
  "NEXDASH_BUCKET_COUNT = 56"

definition NEXDASH_SLOT_COUNT :: nat where
  "NEXDASH_SLOT_COUNT = 4"

definition NEXDASH_ENTRY_OVERHEAD :: u64 where
  "NEXDASH_ENTRY_OVERHEAD = 32"

record NexDashSlot =
  sl_key_hash :: u64
  sl_value_ptr :: u64
  sl_key_offset :: u32
  sl_expire_us32 :: u32
  sl_value_size :: u32

record NexDashBucket =
  bk_slots :: "NexDashSlot list"
  bk_occupancy :: u8

record NexDashSegment =
  sg_buckets :: "NexDashBucket list"
  sg_item_count :: u32
  sg_version :: u32
  sg_last_modified :: u64

definition empty_segment :: NexDashSegment where
  "empty_segment =
     \<lparr>sg_buckets = replicate NEXDASH_BUCKET_COUNT
        \<lparr>bk_slots = replicate NEXDASH_SLOT_COUNT
            \<lparr>sl_key_hash = 0, sl_value_ptr = 0, sl_key_offset = 0, sl_expire_us32 = 0, sl_value_size = 0\<rparr>,
         bk_occupancy = 0\<rparr>,
      sg_item_count = 0, sg_version = 0, sg_last_modified = 0\<rparr>"

text \<open>Access to the slot at a position (bucket, slot) of a segment, and to its occupancy bit.\<close>

fun seg_occupied :: "NexDashSegment \<Rightarrow> nat \<times> nat \<Rightarrow> bool" where
  "seg_occupied seg (bi, s) \<longleftrightarrow> drop_bit s (bk_occupancy (sg_buckets seg ! bi)) AND 1 \<noteq> 0"

fun seg_slot :: "NexDashSegment \<Rightarrow> nat \<times> nat \<Rightarrow> NexDashSlot" where
  "seg_slot seg (bi, s) = bk_slots (sg_buckets seg ! bi) ! s"

fun seg_set_slot :: "nat \<times> nat \<Rightarrow> NexDashSlot \<Rightarrow> NexDashSegment \<Rightarrow> NexDashSegment" where
  "seg_set_slot (bi, s) sl seg =
     (let bkt = sg_buckets seg ! bi
      in seg\<lparr>sg_buckets := (sg_buckets seg)[bi := bkt\<lparr>bk_slots := (bk_slots bkt)[s := sl]\<rparr>]\<rparr>)"

fun seg_mark :: "nat \<times> nat \<Rightarrow> NexDashSegment \<Rightarrow> NexDashSegment" where
  "seg_mark (bi, s) seg =
     (let bkt = sg_buckets seg ! bi
      in seg\<lparr>sg_buckets := (sg_buckets seg)[bi := bkt\<lparr>bk_occupancy := bk_occupancy bkt OR push_bit s 1\<rparr>]\<rparr>)"

fun seg_unmark :: "nat \<times> nat \<Rightarrow> NexDashSegment \<Rightarrow> NexDashSegment" where
  "seg_unmark (bi, s) seg =
     (let bkt = sg_buckets seg ! bi
      in seg\<lparr>sg_buckets := (sg_buckets seg)[bi := bkt\<lparr>bk_occupancy := bk_occupancy bkt AND NOT (push_bit s 1)\<rparr>]\<rparr>)"

text \<open>The order in which the two nested loops visit a segment, from a bucket on and from the first.\<close>

definition probe_order :: "nat \<Rightarrow> (nat \<times> nat) list" where
  "probe_order bkt_start =
     [((bkt_start + probe) mod NEXDASH_BUCKET_COUNT, s). probe \<leftarrow> [0..<NEXDASH_BUCKET_COUNT], s \<leftarrow> [0..<NEXDASH_SLOT_COUNT]]"

definition bucket_start :: "u64 \<Rightarrow> nat" where
  "bucket_start hash = unat (drop_bit 10 hash) mod NEXDASH_BUCKET_COUNT"

subsection \<open>The table\<close>

record NexDashStats =
  nds_gets :: u64
  nds_sets :: u64
  nds_dels :: u64
  nds_hits :: u64
  nds_misses :: u64
  nds_evictions_probatory :: u64
  nds_evictions_protected :: u64
  nds_resizes :: u64
  nds_snapshot_count :: u64

record NexDashTable =
  nd_directory :: "NexDashSegment list"
  nd_item_count :: u32
  nd_key_pool :: bytes
  nd_key_pool_cap :: u32
  nd_snapshot_in_progress :: bool
  nd_snapshot_version :: u64
  nd_current_version :: u64
  nd_max_memory :: u64
  nd_used_memory :: u64
  nd_bloom :: "NexBloom option"
  nd_stats :: NexDashStats
  nd_free_cb :: bool
  nd_freed :: "u64 list"

text \<open>A position of the table: segment, bucket and slot.\<close>

type_synonym nd_pos = "nat \<times> nat \<times> nat"

definition nd_occupied :: "NexDashTable \<Rightarrow> nd_pos \<Rightarrow> bool" where
  "nd_occupied t p = (case p of (si, q) \<Rightarrow> seg_occupied (nd_directory t ! si) q)"

definition nd_slot :: "NexDashTable \<Rightarrow> nd_pos \<Rightarrow> NexDashSlot" where
  "nd_slot t p = (case p of (si, q) \<Rightarrow> seg_slot (nd_directory t ! si) q)"

definition nd_set_slot :: "nd_pos \<Rightarrow> NexDashSlot \<Rightarrow> NexDashTable \<Rightarrow> NexDashTable" where
  "nd_set_slot p sl t =
     (case p of (si, q) \<Rightarrow> t\<lparr>nd_directory := (nd_directory t)[si := seg_set_slot q sl (nd_directory t ! si)]\<rparr>)"

definition nd_stored_key :: "NexDashTable \<Rightarrow> NexDashSlot \<Rightarrow> bytes" where
  "nd_stored_key t sl = take (unat (TAG_GET_LEN (sl_value_ptr sl))) (drop (unat (sl_key_offset sl)) (nd_key_pool t))"

text \<open>The match test of the probing loops: hash, key length, then the bytes in the pool.\<close>

definition nd_matches :: "NexDashTable \<Rightarrow> u64 \<Rightarrow> bytes \<Rightarrow> NexDashSlot \<Rightarrow> bool" where
  "nd_matches t hash key sl \<longleftrightarrow>
     sl_key_hash sl = hash \<and> unat (TAG_GET_LEN (sl_value_ptr sl)) = length key \<and> nd_stored_key t sl = key"

definition slot_expired :: "u64 \<Rightarrow> NexDashSlot \<Rightarrow> bool" where
  "slot_expired now sl \<longleftrightarrow> sl_expire_us32 sl \<noteq> 0 \<and> decode_expire (sl_expire_us32 sl) \<le> now"

definition segment_of :: "NexDashTable \<Rightarrow> u64 \<Rightarrow> nat" where
  "segment_of t hash = unat hash mod length (nd_directory t)"

text \<open>The search loop shared by \<open>nd_find_slot\<close> (its first phase) and \<open>nexdash_del\<close>.\<close>

definition nd_search :: "NexDashTable \<Rightarrow> u64 \<Rightarrow> bytes \<Rightarrow> nd_pos option" where
  "nd_search t hash key =
     map_option (Pair (segment_of t hash))
       (find (\<lambda>q. nd_occupied t (segment_of t hash, q) \<and> nd_matches t hash key (nd_slot t (segment_of t hash, q)))
          (probe_order (bucket_start hash)))"

text \<open>The number of initial segments, from \<open>while (nsegs < initial_segments) nsegs <<= 1\<close>.\<close>

primrec nexdash_nsegs :: "nat \<Rightarrow> u32 \<Rightarrow> u64 \<Rightarrow> u32 option" where
  "nexdash_nsegs 0 nsegs initial = None"
| "nexdash_nsegs (Suc fuel) nsegs initial =
     (if ucast nsegs < initial then nexdash_nsegs fuel (push_bit 1 nsegs) initial else Some nsegs)"

definition nexdash_empty :: "nat \<Rightarrow> u64 \<Rightarrow> NexBloom option \<Rightarrow> NexDashTable" where
  "nexdash_empty nsegs max_memory bloom =
     \<lparr>nd_directory = replicate nsegs empty_segment, nd_item_count = 0, nd_key_pool = [], nd_key_pool_cap = 65536,
      nd_snapshot_in_progress = False, nd_snapshot_version = 0, nd_current_version = 1, nd_max_memory = max_memory,
      nd_used_memory = 0, nd_bloom = bloom,
      nd_stats = \<lparr>nds_gets = 0, nds_sets = 0, nds_dels = 0, nds_hits = 0, nds_misses = 0, nds_evictions_probatory = 0,
                  nds_evictions_protected = 0, nds_resizes = 0, nds_snapshot_count = 0\<rparr>,
      nd_free_cb = False, nd_freed = []\<rparr>"

text \<open>
  The outer \<open>None\<close> is a sizing loop that does not end within the fuel, the inner one a failed
  allocation; the Bloom filter that \<open>nexbloom_create\<close> returned is an argument.
\<close>

definition nexdash_create :: "nat \<Rightarrow> bool \<Rightarrow> u64 \<Rightarrow> u64 \<Rightarrow> NexBloom option \<Rightarrow> NexDashTable option option" where
  "nexdash_create fuel arena_ok initial_segments max_memory bloom =
     (case nexdash_nsegs fuel 4 initial_segments of
        None \<Rightarrow> None
      | Some nsegs \<Rightarrow> Some (if arena_ok then Some (nexdash_empty (unat nsegs) max_memory bloom) else None))"

subsection \<open>Releasing a slot\<close>

definition nd_free :: "NexDashTable \<Rightarrow> NexDashSlot \<Rightarrow> NexDashTable" where
  "nd_free t sl =
     (let old = TAG_GET_ADDR (sl_value_ptr sl)
      in if old \<noteq> 0 \<and> TAG_GET_TYPE (sl_value_ptr sl) \<noteq> NTYPE_DELETED \<and> nd_free_cb t
         then t\<lparr>nd_freed := nd_freed t @ [old]\<rparr> else t)"

definition nd_release_slot :: "NexDashTable \<Rightarrow> nd_pos \<Rightarrow> NexDashTable" where
  "nd_release_slot t p =
     (let sl = nd_slot t p; t1 = nd_free t sl; freed = ucast (sl_value_size sl) + NEXDASH_ENTRY_OVERHEAD
      in nd_set_slot p (sl\<lparr>sl_value_ptr := TAG_SET_META 0 0 NTYPE_DELETED TIER_PROBATORY 0, sl_value_size := 0\<rparr>)
           (t1\<lparr>nd_used_memory := (if freed < nd_used_memory t1 then nd_used_memory t1 - freed else 0)\<rparr>))"

text \<open>The release with the bookkeeping that follows it at each of its call sites.\<close>

definition nd_remove :: "NexDashTable \<Rightarrow> nd_pos \<Rightarrow> NexDashTable" where
  "nd_remove t p =
     (case p of (si, q) \<Rightarrow>
        let t1 = nd_release_slot t p; seg = seg_unmark q (nd_directory t1 ! si)
        in t1\<lparr>nd_directory := (nd_directory t1)[si := seg\<lparr>sg_item_count := sg_item_count seg - 1\<rparr>],
              nd_item_count := nd_item_count t1 - 1\<rparr>)"

subsection \<open>Inserting\<close>

text \<open>
  The doubling of \<open>key_pool_cap\<close> until \<open>need\<close> bytes fit; a capacity that has wrapped to zero never
  grows again, which is the \<open>None\<close> of 33 rounds.
\<close>

primrec grow_cap :: "nat \<Rightarrow> u32 \<Rightarrow> u32 \<Rightarrow> u32 option" where
  "grow_cap 0 need cap = None"
| "grow_cap (Suc fuel) need cap = (if cap < need then grow_cap fuel need (cap * 2) else Some cap)"

text \<open>
  Appending a key and its terminator to the pool: \<open>None\<close> where the doubling never ends, otherwise
  the table and the offset, which is missing where \<open>realloc\<close> failed; the capacity is then already
  the larger one.
\<close>

definition nd_store_key :: "bool \<Rightarrow> NexDashTable \<Rightarrow> bytes \<Rightarrow> (NexDashTable \<times> u32 option) option" where
  "nd_store_key realloc_ok t key =
     (let size = of_nat (length (nd_key_pool t)); need = size + of_nat (length key) + 1
      in case grow_cap 33 need (nd_key_pool_cap t) of
           None \<Rightarrow> None
         | Some cap \<Rightarrow>
             if nd_key_pool_cap t < need \<and> \<not> realloc_ok then Some (t\<lparr>nd_key_pool_cap := cap\<rparr>, None)
             else Some (t\<lparr>nd_key_pool_cap := cap, nd_key_pool := nd_key_pool t @ key @ [0]\<rparr>, Some size))"

text \<open>
  The loops of \<open>nd_insert_into_segment\<close>: the first free slot in probe order receives the hash, the
  key offset and a fresh tagged pointer.
\<close>

definition nd_free_slot :: "NexDashSegment \<Rightarrow> nat \<Rightarrow> (nat \<times> nat) option" where
  "nd_free_slot seg bkt_start = find (\<lambda>q. \<not> seg_occupied seg q) (probe_order bkt_start)"

definition nd_fill_slot ::
  "u64 \<Rightarrow> NexDashTable \<Rightarrow> NexDashSegment \<Rightarrow> nat \<times> nat \<Rightarrow> u64 \<Rightarrow> u32 \<Rightarrow> u8 \<Rightarrow> bool \<Rightarrow> NexDashTable \<times> NexDashSegment" where
  "nd_fill_slot now t seg q hash key_offset key_len has_key =
     (t\<lparr>nd_item_count := nd_item_count t + 1,
        nd_bloom := (if has_key then map_option (\<lambda>b. nexbloom_add b hash) (nd_bloom t) else nd_bloom t)\<rparr>,
      seg_mark q (seg_set_slot q
        \<lparr>sl_key_hash = hash, sl_value_ptr = TAG_SET_META 0 key_len NTYPE_STRING TIER_PROBATORY 0,
         sl_key_offset = key_offset, sl_expire_us32 = 0, sl_value_size = 0\<rparr>
        (seg\<lparr>sg_item_count := sg_item_count seg + 1, sg_version := ucast (nd_current_version t),
             sg_last_modified := now\<rparr>)))"

definition nd_insert_into_segment ::
  "bool \<Rightarrow> u64 \<Rightarrow> NexDashTable \<Rightarrow> nat \<Rightarrow> u64 \<Rightarrow> bytes \<Rightarrow> (NexDashTable \<times> nd_pos option) option" where
  "nd_insert_into_segment realloc_ok now t si hash key =
     (case nd_free_slot (nd_directory t ! si) (bucket_start hash) of
        None \<Rightarrow> Some (t, None)
      | Some q \<Rightarrow>
          (case nd_store_key realloc_ok t key of
             None \<Rightarrow> None
           | Some (t', None) \<Rightarrow>
               Some (nd_set_slot (si, q) \<lparr>sl_key_hash = hash, sl_value_ptr = 0, sl_key_offset = 0, sl_expire_us32 = 0,
                                        sl_value_size = 0\<rparr> t', None)
           | Some (t', Some off) \<Rightarrow>
               (case nd_fill_slot now t' (nd_directory t' ! si) q hash off (of_nat (length key)) True of
                  (t'', seg) \<Rightarrow> Some (t''\<lparr>nd_directory := (nd_directory t'')[si := seg]\<rparr>, Some (si, q)))))"

subsection \<open>Doubling the directory\<close>

text \<open>Every occupied slot of a segment and of a directory, in the order of the nested loops.\<close>

definition segment_slots :: "NexDashSegment \<Rightarrow> NexDashSlot list" where
  "segment_slots seg = map (seg_slot seg) (filter (seg_occupied seg) (probe_order 0))"

definition directory_slots :: "NexDashSegment list \<Rightarrow> NexDashSlot list" where
  "directory_slots dir = concat (map segment_slots dir)"

definition nd_rehash ::
  "u64 \<Rightarrow> NexDashTable \<times> NexDashSegment list \<Rightarrow> NexDashSlot \<Rightarrow> NexDashTable \<times> NexDashSegment list" where
  "nd_rehash now td old =
     (case td of (t, dir) \<Rightarrow>
        let si = unat (sl_key_hash old) mod length dir
        in case nd_free_slot (dir ! si) (bucket_start (sl_key_hash old)) of
             None \<Rightarrow> (t, dir)
           | Some q \<Rightarrow>
               (case nd_fill_slot now t (dir ! si) q (sl_key_hash old) 0 0 False of
                  (t', seg) \<Rightarrow>
                    (t', dir[si := seg_set_slot q ((seg_slot seg q)
                                     \<lparr>sl_key_offset := sl_key_offset old, sl_value_ptr := sl_value_ptr old,
                                      sl_expire_us32 := sl_expire_us32 old, sl_value_size := sl_value_size old\<rparr>) seg])))"

definition nd_resize :: "bool \<Rightarrow> u64 \<Rightarrow> NexDashTable \<Rightarrow> NexDashTable \<times> bool" where
  "nd_resize arena_ok now t =
     (let dir_size = of_nat (length (nd_directory t)) :: u32; new_dir_size = dir_size * 2
      in if new_dir_size \<le> dir_size \<or> \<not> arena_ok then (t, False)
         else case foldl (nd_rehash now) (t, replicate (unat new_dir_size) empty_segment) (directory_slots (nd_directory t)) of
                (t', dir) \<Rightarrow>
                  (t'\<lparr>nd_directory := dir, nd_stats := (nd_stats t')\<lparr>nds_resizes := nds_resizes (nd_stats t') + 1\<rparr>\<rparr>, True))"

subsection \<open>Finding a slot\<close>

text \<open>The outer \<open>None\<close> is a key pool that never stops doubling; a missing position is the \<open>NULL\<close>.\<close>

definition nd_find_slot ::
  "bool \<Rightarrow> bool \<Rightarrow> u64 \<Rightarrow> NexDashTable \<Rightarrow> bytes \<Rightarrow> u64 \<Rightarrow> bool \<Rightarrow> (NexDashTable \<times> nd_pos option) option" where
  "nd_find_slot arena_ok realloc_ok now t key hash create_if_missing =
     (case nd_search t hash key of
        Some p \<Rightarrow> if slot_expired now (nd_slot t p) then Some (nd_remove t p, None) else Some (t, Some p)
      | None \<Rightarrow>
          if \<not> create_if_missing then Some (t, None)
          else case nd_insert_into_segment realloc_ok now t (segment_of t hash) hash key of
                 None \<Rightarrow> None
               | Some (t1, Some p) \<Rightarrow> Some (t1, Some p)
               | Some (t1, None) \<Rightarrow>
                   (case nd_resize arena_ok now t1 of
                      (t2, False) \<Rightarrow> Some (t2, None)
                    | (t2, True) \<Rightarrow> nd_insert_into_segment realloc_ok now t2 (segment_of t2 hash) hash key))"

subsection \<open>Operations\<close>

definition nexdash_set_nolock ::
  "bool \<Rightarrow> bool \<Rightarrow> u64 \<Rightarrow> NexDashTable \<Rightarrow> bytes option \<Rightarrow> u64 \<Rightarrow> u32 \<Rightarrow> u8 \<Rightarrow> u64 \<Rightarrow> (NexDashTable \<times> bool) option" where
  "nexdash_set_nolock arena_ok realloc_ok now t key value value_size type expire_us =
     (case key of None \<Rightarrow> Some (t, False)
      | Some k \<Rightarrow>
          if length k = 0 then Some (t, False)
          else case nd_find_slot arena_ok realloc_ok now t k (fnv1a_64 k) True of
                 None \<Rightarrow> None
               | Some (t1, None) \<Rightarrow> Some (t1, False)
               | Some (t1, Some p) \<Rightarrow>
                   (let sl = nd_slot t1 p; vp = sl_value_ptr sl; t2 = nd_free t1 sl;
                        old_cost = (if TAG_GET_ADDR vp \<noteq> 0 then ucast (sl_value_size sl) + NEXDASH_ENTRY_OVERHEAD else 0);
                        t3 = nd_set_slot p (sl\<lparr>sl_value_ptr := TAG_SET_META value (of_nat (length k)) type (TAG_GET_TIER vp) (TAG_GET_VER vp),
                                             sl_expire_us32 := encode_expire expire_us, sl_value_size := value_size\<rparr>) t2
                    in Some (t3\<lparr>nd_used_memory := (if old_cost < nd_used_memory t3 then nd_used_memory t3 - old_cost else 0)
                                                   + ucast value_size + NEXDASH_ENTRY_OVERHEAD,
                                nd_current_version := nd_current_version t3 + 1,
                                nd_stats := (nd_stats t3)\<lparr>nds_sets := nds_sets (nd_stats t3) + 1\<rparr>\<rparr>, True)))"

definition count_miss :: "NexDashTable \<Rightarrow> NexDashTable" where
  "count_miss t = t\<lparr>nd_stats := (nd_stats t)\<lparr>nds_misses := nds_misses (nd_stats t) + 1\<rparr>\<rparr>"

text \<open>The result is the value with its type; a \<open>NULL\<close> return is \<open>None\<close> or the address 0.\<close>

definition nexdash_get_nolock :: "u64 \<Rightarrow> NexDashTable \<Rightarrow> bytes option \<Rightarrow> NexDashTable \<times> (u64 \<times> u8) option" where
  "nexdash_get_nolock now t key =
     (case key of None \<Rightarrow> (count_miss t, None)
      | Some k \<Rightarrow>
          if length k = 0 then (count_miss t, None)
          else if (case nd_bloom t of None \<Rightarrow> False | Some b \<Rightarrow> \<not> nexbloom_check b (fnv1a_64 k)) then (count_miss t, None)
          else case nd_find_slot True True now t k (fnv1a_64 k) False of
                 Some (t1, Some p) \<Rightarrow>
                   (let sl = nd_slot t1 p; vp = sl_value_ptr sl;
                        vp' = (if TAG_GET_TIER vp = TIER_PROBATORY
                               then TAG_SET_META (TAG_GET_ADDR vp) (of_nat (length k)) (TAG_GET_TYPE vp) TIER_PROTECTED (TAG_GET_VER vp)
                               else vp);
                        t2 = nd_set_slot p (sl\<lparr>sl_value_ptr := vp'\<rparr>) t1
                    in (t2\<lparr>nd_stats := (nd_stats t2)\<lparr>nds_hits := nds_hits (nd_stats t2) + 1, nds_gets := nds_gets (nd_stats t2) + 1\<rparr>\<rparr>,
                        Some (TAG_GET_ADDR vp', TAG_GET_TYPE vp)))
               | Some (t1, None) \<Rightarrow> (count_miss t1, None)
               | None \<Rightarrow> (count_miss t, None))"

definition nexdash_del :: "NexDashTable \<Rightarrow> bytes option \<Rightarrow> NexDashTable \<times> bool" where
  "nexdash_del t key =
     (case key of None \<Rightarrow> (t, False)
      | Some k \<Rightarrow>
          if length k = 0 then (t, False)
          else case nd_search t (fnv1a_64 k) k of
                 None \<Rightarrow> (t, False)
               | Some p \<Rightarrow>
                   (let t1 = nd_remove t p
                    in (t1\<lparr>nd_current_version := nd_current_version t1 + 1,
                           nd_stats := (nd_stats t1)\<lparr>nds_dels := nds_dels (nd_stats t1) + 1\<rparr>\<rparr>, True)))"

definition nexdash_exists :: "u64 \<Rightarrow> NexDashTable \<Rightarrow> bytes option \<Rightarrow> NexDashTable \<times> bool" where
  "nexdash_exists now t key =
     (case nexdash_get_nolock now t key of (t', r) \<Rightarrow> (t', case r of None \<Rightarrow> False | Some (v, ty) \<Rightarrow> v \<noteq> 0))"

definition nexdash_expire :: "u64 \<Rightarrow> NexDashTable \<Rightarrow> bytes option \<Rightarrow> u64 \<Rightarrow> NexDashTable \<times> int" where
  "nexdash_expire now t key expire_us =
     (case key of None \<Rightarrow> (t, - 1)
      | Some k \<Rightarrow>
          (case nd_find_slot True True now t k (fnv1a_64 k) False of
             Some (t1, Some p) \<Rightarrow> (nd_set_slot p ((nd_slot t1 p)\<lparr>sl_expire_us32 := encode_expire expire_us\<rparr>) t1, 1)
           | Some (t1, None) \<Rightarrow> (t1, 0)
           | None \<Rightarrow> (t, 0)))"

definition nexdash_set_free_cb :: "NexDashTable \<Rightarrow> bool \<Rightarrow> NexDashTable" where
  "nexdash_set_free_cb t cb = t\<lparr>nd_free_cb := cb\<rparr>"

subsection \<open>Scans, snapshots and eviction\<close>

definition table_positions :: "NexDashTable \<Rightarrow> nd_pos list" where
  "table_positions t = [(si, q). si \<leftarrow> [0..<length (nd_directory t)], q \<leftarrow> probe_order 0]"

text \<open>What a callback is given: key, key length, value address and type.\<close>

type_synonym nd_call = "bytes \<times> u8 \<times> u64 \<times> u8"

definition nd_report :: "NexDashTable \<Rightarrow> NexDashSlot \<Rightarrow> nd_call" where
  "nd_report t sl =
     (nd_stored_key t sl, TAG_GET_LEN (sl_value_ptr sl), TAG_GET_ADDR (sl_value_ptr sl), TAG_GET_TYPE (sl_value_ptr sl))"

definition nexdash_scan :: "u64 \<Rightarrow> NexDashTable \<Rightarrow> nd_call list" where
  "nexdash_scan now t =
     map (\<lambda>p. nd_report t (nd_slot t p))
       (filter (\<lambda>p. nd_occupied t p \<and> TAG_GET_TYPE (sl_value_ptr (nd_slot t p)) \<noteq> NTYPE_DELETED \<and>
                    \<not> slot_expired now (nd_slot t p)) (table_positions t))"

definition nexdash_scan_expired :: "u64 \<Rightarrow> NexDashTable \<Rightarrow> NexDashTable \<times> nd_call list" where
  "nexdash_scan_expired now t =
     foldl (\<lambda>(t, calls) p.
              if nd_occupied t p \<and> slot_expired now (nd_slot t p)
              then let t1 = nd_remove t p
                   in (t1\<lparr>nd_stats := (nd_stats t1)\<lparr>nds_dels := nds_dels (nd_stats t1) + 1\<rparr>\<rparr>, calls @ [nd_report t (nd_slot t p)])
              else (t, calls))
       (t, []) (table_positions t)"

definition nexdash_snapshot_start :: "NexDashTable \<Rightarrow> NexDashTable" where
  "nexdash_snapshot_start t =
     t\<lparr>nd_snapshot_in_progress := True, nd_snapshot_version := nd_current_version t,
       nd_stats := (nd_stats t)\<lparr>nds_snapshot_count := nds_snapshot_count (nd_stats t) + 1\<rparr>\<rparr>"

definition nexdash_snapshot_iterate_full :: "u64 \<Rightarrow> NexDashTable \<Rightarrow> nd_call list" where
  "nexdash_snapshot_iterate_full now t = nexdash_scan now t"

text \<open>The delta iteration is a placeholder in the code: it reports nothing.\<close>

definition nexdash_snapshot_iterate_delta :: "NexDashTable \<Rightarrow> int \<times> nd_call list" where
  "nexdash_snapshot_iterate_delta t = (if nd_snapshot_in_progress t then (0, []) else (- 1, []))"

definition nexdash_snapshot_end :: "NexDashTable \<Rightarrow> NexDashTable" where
  "nexdash_snapshot_end t = t\<lparr>nd_snapshot_in_progress := False\<rparr>"

text \<open>
  Eviction: two passes over the table, each of which stops as soon as the memory target is met;
  the second component counts the evicted entries.
\<close>

definition evict_step :: "u8 \<Rightarrow> u64 \<Rightarrow> NexDashTable \<times> nat \<Rightarrow> nd_pos \<Rightarrow> NexDashTable \<times> nat" where
  "evict_step want target tn p =
     (case tn of (t, n) \<Rightarrow>
        if nd_used_memory t \<le> target then (t, n)
        else if nd_occupied t p \<and> TAG_GET_TIER (sl_value_ptr (nd_slot t p)) = want
        then let t1 = nd_remove t p; st = nd_stats t1
             in (t1\<lparr>nd_stats := (if want = TIER_PROBATORY
                                 then st\<lparr>nds_evictions_probatory := nds_evictions_probatory st + 1\<rparr>
                                 else st\<lparr>nds_evictions_protected := nds_evictions_protected st + 1\<rparr>)\<rparr>, n + 1)
        else (t, n))"

definition nexdash_evict_to_target :: "NexDashTable \<Rightarrow> u64 \<Rightarrow> NexDashTable \<times> nat" where
  "nexdash_evict_to_target t target =
     (let (t1, n1) = foldl (evict_step TIER_PROBATORY target) (t, 0) (table_positions t)
      in foldl (evict_step TIER_PROTECTED target) (t1, n1) (table_positions t1))"

end
