(* ===== verification/Nex_Dash_Inv.thy ===== *)
theory Nex_Dash_Inv
  imports Nex_Dash
begin

text \<open>
  The entries of a NexDash table as a multiset of slots, its invariant, and what the steps of the
  implementation do to both: filling, overwriting and releasing a slot, and doubling the directory.
\<close>

subsection \<open>Tagged pointers\<close>

lemma and_masks:
  "tp AND TAG_ADDR_MASK = take_bit 48 tp" "(w :: u64) AND 0x0F = take_bit 4 w" "(w :: u64) AND 0x03 = take_bit 2 w"
  by (simp_all add: TAG_ADDR_MASK_def take_bit_eq_mask mask_eq_exp_minus_1)

text \<open>The ranges of the fields that \<open>TAG_SET_META\<close> packs.\<close>

definition tag_ok :: "u64 \<Rightarrow> u8 \<Rightarrow> u8 \<Rightarrow> u8 \<Rightarrow> bool" where
  "tag_ok addr type tier ver \<longleftrightarrow> addr < 2 ^ 48 \<and> type < 2 ^ 4 \<and> tier < 2 ^ 2 \<and> ver < 2 ^ 2"

lemma tag_high:
  assumes "tag_ok addr type tier ver"
  shows "48 \<le> j \<Longrightarrow> \<not> bit addr j" "4 \<le> j \<Longrightarrow> \<not> bit type j" "2 \<le> j \<Longrightarrow> \<not> bit tier j" "2 \<le> j \<Longrightarrow> \<not> bit ver j"
    "8 \<le> j \<Longrightarrow> \<not> bit (len :: u8) j"
  using assms not_bit_above [of addr 48 j] not_bit_above [of type 4 j] not_bit_above [of tier 2 j]
    not_bit_above [of ver 2 j] bit_imp_le_length [of len j] by (auto simp: tag_ok_def)

lemma tag_bits:
  assumes "tag_ok addr type tier ver"
  shows "bit (TAG_SET_META addr len type tier ver) k \<longleftrightarrow>
    (if k < 48 then bit addr k else if k < 50 then bit ver (k - 48) else if k < 52 then bit tier (k - 50)
     else if k < 56 then bit type (k - 52) else bit len (k - 56))"
proof -
  note r = tag_high [OF assms]
  consider "k < 48" | "48 \<le> k" "k < 50" | "50 \<le> k" "k < 52" | "52 \<le> k" "k < 56" | "56 \<le> k" "k < 64" | "64 \<le> k"
    by linarith
  then show ?thesis
    by cases (auto simp: TAG_SET_META_def bit_simps r)
qed

lemma TAG_SET_GET:
  assumes "tag_ok addr type tier ver"
  shows "TAG_GET_ADDR (TAG_SET_META addr len type tier ver) = addr"
    and "TAG_GET_LEN (TAG_SET_META addr len type tier ver) = len"
    and "TAG_GET_TYPE (TAG_SET_META addr len type tier ver) = type"
    and "TAG_GET_TIER (TAG_SET_META addr len type tier ver) = tier"
    and "TAG_GET_VER (TAG_SET_META addr len type tier ver) = ver"
proof -
  note r = tag_high [OF assms]
  show "TAG_GET_ADDR (TAG_SET_META addr len type tier ver) = addr"
    by (rule bit_word_eqI) (auto simp: TAG_GET_ADDR_def and_masks bit_take_bit_iff tag_bits [OF assms] r not_less)
  show "TAG_GET_LEN (TAG_SET_META addr len type tier ver) = len"
    by (rule bit_word_eqI) (auto simp: TAG_GET_LEN_def bit_simps tag_bits [OF assms])
  show "TAG_GET_TYPE (TAG_SET_META addr len type tier ver) = type"
    by (rule bit_word_eqI) (auto simp: TAG_GET_TYPE_def and_masks bit_simps tag_bits [OF assms] r not_less)
  show "TAG_GET_TIER (TAG_SET_META addr len type tier ver) = tier"
    by (rule bit_word_eqI) (auto simp: TAG_GET_TIER_def and_masks bit_simps tag_bits [OF assms] r not_less)
  show "TAG_GET_VER (TAG_SET_META addr len type tier ver) = ver"
    by (rule bit_word_eqI) (auto simp: TAG_GET_VER_def and_masks bit_simps tag_bits [OF assms] r not_less)
qed

lemma tag_ok_get: "tag_ok (TAG_GET_ADDR tp) (TAG_GET_TYPE tp) (TAG_GET_TIER tp) (TAG_GET_VER tp)"
proof -
  have t: "unat (take_bit n w) < 2 ^ n" for n and w :: u64
    by (simp only: unsigned_take_bit_eq take_bit_nat_less_exp)
  have u: "unat (ucast w :: u8) \<le> unat w" for w :: u64
    by (simp add: unat_ucast)
  show ?thesis
    using t [of 48 tp] t [of 4 "drop_bit 52 tp"] t [of 2 "drop_bit 50 tp"] t [of 2 "drop_bit 48 tp"]
      u [of "take_bit 4 (drop_bit 52 tp)"] u [of "take_bit 2 (drop_bit 50 tp)"] u [of "take_bit 2 (drop_bit 48 tp)"]
    by (simp add: tag_ok_def TAG_GET_ADDR_def TAG_GET_TYPE_def TAG_GET_TIER_def TAG_GET_VER_def and_masks
        word_less_nat_alt)
qed

subsection \<open>Positions of a segment\<close>

definition valid_pos :: "nat \<times> nat \<Rightarrow> bool" where
  "valid_pos q \<longleftrightarrow> fst q < NEXDASH_BUCKET_COUNT \<and> snd q < NEXDASH_SLOT_COUNT"

definition seg_wf :: "NexDashSegment \<Rightarrow> bool" where
  "seg_wf seg \<longleftrightarrow> length (sg_buckets seg) = NEXDASH_BUCKET_COUNT \<and>
     (\<forall>b \<in> set (sg_buckets seg). length (bk_slots b) = NEXDASH_SLOT_COUNT)"

lemma set_probe_order: "set (probe_order n) = {q. valid_pos q}"
proof -
  have "(\<lambda>p. (n + p) mod 56) ` {0..<56} = {0..<56}"
  proof
    show "{0..<56} \<subseteq> (\<lambda>p. (n + p) mod 56) ` {0..<56}"
    proof
      fix b :: nat
      assume b: "b \<in> {0..<56}"
      have "(n + (b + 56 * n - n) mod 56) mod 56 = (n + (b + 56 * n - n)) mod 56" by presburger
      also have "\<dots> = b" using b by simp
      finally show "b \<in> (\<lambda>p. (n + p) mod 56) ` {0..<56}"
        by (intro image_eqI [of _ _ "(b + 56 * n - n) mod 56"]) auto
    qed
  qed auto
  then have "fst q \<in> (\<lambda>p. (n + p) mod 56) ` {0..<56} \<longleftrightarrow> fst q < 56" for q :: "nat \<times> nat" by simp
  then show ?thesis
    by (auto simp: probe_order_def valid_pos_def NEXDASH_BUCKET_COUNT_def NEXDASH_SLOT_COUNT_def image_iff)
qed

lemma distinct_probe_order: "distinct (probe_order 0)"
proof -
  have "probe_order 0 = List.product [0..<NEXDASH_BUCKET_COUNT] [0..<NEXDASH_SLOT_COUNT]"
    unfolding probe_order_def product_concat_map by (intro arg_cong [of _ _ concat] map_cong refl) auto
  then show ?thesis by (simp add: distinct_product)
qed

lemma length_probe_order: "length (probe_order n) = 224"
  by (simp add: probe_order_def length_concat comp_def NEXDASH_BUCKET_COUNT_def NEXDASH_SLOT_COUNT_def sum_list_triv)

lemma seg_occupied_bit: "seg_occupied seg (bi, s) \<longleftrightarrow> bit (bk_occupancy (sg_buckets seg ! bi)) s"
  by (simp add: and_one_eq bit_iff_odd_drop_bit odd_iff_mod_2_eq_one)

lemma valid_posD: "valid_pos (bi, s) \<Longrightarrow> seg_wf seg \<Longrightarrow> bi < length (sg_buckets seg) \<and> s < length (bk_slots (sg_buckets seg ! bi)) \<and> s < 8"
  by (auto simp: valid_pos_def seg_wf_def NEXDASH_SLOT_COUNT_def)

lemma seg_set_slot_simps:
  assumes "seg_wf seg" "valid_pos q"
  shows "seg_wf (seg_set_slot q sl seg)"
    and "seg_slot (seg_set_slot q sl seg) r = (if r = q then sl else seg_slot seg r)"
    and "seg_occupied (seg_set_slot q sl seg) r = seg_occupied seg r"
proof -
  obtain bi s where q: "q = (bi, s)" by (cases q)
  obtain bj u where r: "r = (bj, u)" by (cases r)
  note v = valid_posD [OF assms(2) [unfolded q] assms(1)]
  show "seg_wf (seg_set_slot q sl seg)"
    using assms v by (auto simp: q seg_wf_def Let_def dest!: subsetD [OF set_update_subset_insert])
  show "seg_slot (seg_set_slot q sl seg) r = (if r = q then sl else seg_slot seg r)"
    using v by (auto simp: q r Let_def nth_list_update)
  show "seg_occupied (seg_set_slot q sl seg) r = seg_occupied seg r"
    using v by (auto simp: q r Let_def nth_list_update)
qed

lemma seg_mark_simps:
  assumes "seg_wf seg" "valid_pos q"
  shows "seg_wf (seg_mark q seg)"
    and "seg_slot (seg_mark q seg) r = seg_slot seg r"
    and "seg_occupied (seg_mark q seg) r \<longleftrightarrow> r = q \<or> seg_occupied seg r"
proof -
  obtain bi s where q: "q = (bi, s)" by (cases q)
  obtain bj u where r: "r = (bj, u)" by (cases r)
  note v = valid_posD [OF assms(2) [unfolded q] assms(1)]
  show "seg_wf (seg_mark q seg)"
    using assms v by (auto simp: q seg_wf_def Let_def dest!: subsetD [OF set_update_subset_insert])
  show "seg_slot (seg_mark q seg) r = seg_slot seg r"
    using v by (auto simp: q r Let_def nth_list_update)
  show "seg_occupied (seg_mark q seg) r \<longleftrightarrow> r = q \<or> seg_occupied seg r"
    using v by (auto simp: q r Let_def nth_list_update seg_occupied_bit bit_or_exp simp del: seg_occupied.simps)
qed

lemma seg_unmark_simps:
  assumes "seg_wf seg" "valid_pos q"
  shows "seg_wf (seg_unmark q seg)"
    and "seg_slot (seg_unmark q seg) r = seg_slot seg r"
    and "seg_occupied (seg_unmark q seg) r \<longleftrightarrow> r \<noteq> q \<and> seg_occupied seg r"
proof -
  obtain bi s where q: "q = (bi, s)" by (cases q)
  obtain bj u where r: "r = (bj, u)" by (cases r)
  note v = valid_posD [OF assms(2) [unfolded q] assms(1)]
  show "seg_wf (seg_unmark q seg)"
    using assms v by (auto simp: q seg_wf_def Let_def dest!: subsetD [OF set_update_subset_insert])
  show "seg_slot (seg_unmark q seg) r = seg_slot seg r"
    using v by (auto simp: q r Let_def nth_list_update)
  show "seg_occupied (seg_unmark q seg) r \<longleftrightarrow> r \<noteq> q \<and> seg_occupied seg r"
    using v by (auto simp: q r Let_def nth_list_update seg_occupied_bit bit_and_not_exp simp del: seg_occupied.simps)
qed

declare seg_occupied.simps [simp del] seg_slot.simps [simp del] seg_set_slot.simps [simp del]
  seg_mark.simps [simp del] seg_unmark.simps [simp del]

subsection \<open>The entries of a table\<close>

definition nd_entries :: "NexDashTable \<Rightarrow> NexDashSlot multiset" where
  "nd_entries t = mset (directory_slots (nd_directory t))"

definition nd_shape :: "NexDashTable \<Rightarrow> bool" where
  "nd_shape t \<longleftrightarrow> nd_directory t \<noteq> [] \<and> length (nd_directory t) < 2 ^ 32 \<and> (\<forall>seg \<in> set (nd_directory t). seg_wf seg)"

definition nd_valid :: "NexDashTable \<Rightarrow> nd_pos \<Rightarrow> bool" where
  "nd_valid t p \<longleftrightarrow> fst p < length (nd_directory t) \<and> valid_pos (snd p)"

text \<open>Every entry lies in the segment its hash selects.\<close>

definition placed :: "NexDashSegment list \<Rightarrow> bool" where
  "placed dir \<longleftrightarrow> (\<forall>si < length dir. \<forall>sl \<in> set (segment_slots (dir ! si)). unat (sl_key_hash sl) mod length dir = si)"

lemma set_segment_slots: "set (segment_slots seg) = {seg_slot seg q |q. valid_pos q \<and> seg_occupied seg q}"
  unfolding segment_slots_def set_map set_filter set_probe_order by blast

lemma length_segment_slots: "length (segment_slots seg) \<le> 224"
  by (metis segment_slots_def length_map length_filter_le length_probe_order)

lemma empty_segment_simps [simp]: "segment_slots empty_segment = []" "seg_wf empty_segment"
  by (auto simp: segment_slots_def filter_empty_conv set_probe_order empty_segment_def valid_pos_def seg_occupied_bit
      seg_wf_def split: prod.splits)

lemma mset_filter_split:
  "q \<in> set ps \<Longrightarrow> mset (map f (filter P ps)) = (if P q then {#f q#} else {#}) + mset (map f (filter P (remove1 q ps)))"
  by (induction ps) auto

text \<open>A segment that changes at one position, and a directory that changes in one segment.\<close>

lemma segment_slots_change:
  assumes "valid_pos q" "\<And>r. r \<noteq> q \<Longrightarrow> seg_slot seg' r = seg_slot seg r \<and> seg_occupied seg' r = seg_occupied seg r"
  shows "\<exists>R. mset (segment_slots seg) = (if seg_occupied seg q then {#seg_slot seg q#} else {#}) + R \<and>
             mset (segment_slots seg') = (if seg_occupied seg' q then {#seg_slot seg' q#} else {#}) + R"
proof -
  have q: "q \<in> set (probe_order 0)" using assms(1) by (simp add: set_probe_order)
  have ne: "r \<noteq> q" if "r \<in> set (remove1 q (probe_order 0))" for r
    using that distinct_probe_order by auto
  have "map (seg_slot seg') (filter (seg_occupied seg') (remove1 q (probe_order 0))) =
      map (seg_slot seg) (filter (seg_occupied seg) (remove1 q (probe_order 0)))"
    using assms(2) ne by (intro map_cong filter_cong) auto
  then show ?thesis
    unfolding segment_slots_def mset_filter_split [OF q, of "seg_slot seg"] mset_filter_split [OF q, of "seg_slot seg'"]
    by auto
qed

lemma directory_slots_change:
  assumes "si < length dir"
  shows "\<exists>R. mset (directory_slots dir) = mset (segment_slots (dir ! si)) + R \<and>
             mset (directory_slots (dir[si := seg])) = mset (segment_slots seg) + R"
proof -
  let ?R = "mset (directory_slots (take si dir)) + mset (directory_slots (drop (Suc si) dir))"
  have "mset (directory_slots (take si dir @ x # drop (Suc si) dir)) = mset (segment_slots x) + ?R" for x
    by (simp add: directory_slots_def)
  then show ?thesis
    using id_take_nth_drop [OF assms] upd_conv_take_nth_drop [OF assms, of seg] by metis
qed

lemma entries_change:
  assumes "si < length dir" "valid_pos q"
    and "\<And>r. r \<noteq> q \<Longrightarrow> seg_slot seg' r = seg_slot (dir ! si) r \<and> seg_occupied seg' r = seg_occupied (dir ! si) r"
  shows "\<exists>R. mset (directory_slots dir) = (if seg_occupied (dir ! si) q then {#seg_slot (dir ! si) q#} else {#}) + R \<and>
             mset (directory_slots (dir[si := seg'])) = (if seg_occupied seg' q then {#seg_slot seg' q#} else {#}) + R"
proof -
  obtain A where A: "mset (segment_slots (dir ! si)) = (if seg_occupied (dir ! si) q then {#seg_slot (dir ! si) q#} else {#}) + A"
    "mset (segment_slots seg') = (if seg_occupied seg' q then {#seg_slot seg' q#} else {#}) + A"
    using segment_slots_change [OF assms(2,3)] by blast
  obtain B where B: "mset (directory_slots dir) = mset (segment_slots (dir ! si)) + B"
    "mset (directory_slots (dir[si := seg'])) = mset (segment_slots seg') + B"
    using directory_slots_change [OF assms(1)] by blast
  show ?thesis by (rule exI [of _ "A + B"]) (simp only: A B add.assoc)
qed

lemma placed_update:
  assumes "placed dir" "si < length dir"
    and "\<And>sl. sl \<in> set (segment_slots seg) \<Longrightarrow> unat (sl_key_hash sl) mod length dir = si"
  shows "placed (dir[si := seg])"
  using assms by (auto simp: placed_def nth_list_update)

lemma nd_shape_seg: "nd_shape t \<Longrightarrow> si < length (nd_directory t) \<Longrightarrow> seg_wf (nd_directory t ! si)"
  by (simp add: nd_shape_def)

lemma nd_shape_update:
  "nd_shape t \<Longrightarrow> seg_wf seg \<Longrightarrow> nd_directory t' = (nd_directory t)[si := seg] \<Longrightarrow> nd_shape t'"
  by (auto simp: nd_shape_def dest!: subsetD [OF set_update_subset_insert])

text \<open>Overwriting an occupied slot.\<close>

lemma nd_set_slot_entries:
  assumes sh: "nd_shape t" and v: "nd_valid t p" and occ: "nd_occupied t p"
  shows "nd_shape (nd_set_slot p sl t)"
    and "\<exists>R. nd_entries t = add_mset (nd_slot t p) R \<and> nd_entries (nd_set_slot p sl t) = add_mset sl R"
    and "placed (nd_directory t) \<Longrightarrow> sl_key_hash sl = sl_key_hash (nd_slot t p) \<Longrightarrow> placed (nd_directory (nd_set_slot p sl t))"
    and "nd_slot (nd_set_slot p sl t) p = sl"
proof -
  obtain si q where p: "p = (si, q)" by (cases p)
  have si: "si < length (nd_directory t)" and q: "valid_pos q" using v by (auto simp: nd_valid_def p)
  let ?seg = "nd_directory t ! si"
  have wf: "seg_wf ?seg" using sh si by (rule nd_shape_seg)
  note st = seg_set_slot_simps [OF wf q, of sl]
  have occ': "seg_occupied ?seg q" using occ by (simp add: nd_occupied_def p)
  show "nd_shape (nd_set_slot p sl t)"
    by (rule nd_shape_update [OF sh st(1), of _ si]) (simp add: nd_set_slot_def p)
  show "\<exists>R. nd_entries t = add_mset (nd_slot t p) R \<and> nd_entries (nd_set_slot p sl t) = add_mset sl R"
    using entries_change [OF si q, of "seg_set_slot q sl ?seg"] st occ'
    by (simp add: nd_entries_def nd_set_slot_def nd_slot_def p)
  show "placed (nd_directory (nd_set_slot p sl t))"
    if "placed (nd_directory t)" "sl_key_hash sl = sl_key_hash (nd_slot t p)"
  proof -
    have "unat (sl_key_hash x) mod length (nd_directory t) = si" if "x \<in> set (segment_slots (seg_set_slot q sl ?seg))" for x
    proof -
      from that obtain r where r: "x = seg_slot (seg_set_slot q sl ?seg) r" "valid_pos r" "seg_occupied ?seg r"
        by (auto simp: set_segment_slots st)
      then have "sl_key_hash x = sl_key_hash (seg_slot ?seg r)"
        using \<open>sl_key_hash sl = _\<close> by (auto simp: st nd_slot_def p)
      moreover have "seg_slot ?seg r \<in> set (segment_slots ?seg)" using r unfolding set_segment_slots by blast
      ultimately show ?thesis using \<open>placed (nd_directory t)\<close> si by (auto simp: placed_def)
    qed
    with placed_update [OF \<open>placed (nd_directory t)\<close> si] show ?thesis by (simp add: nd_set_slot_def p)
  qed
  show "nd_slot (nd_set_slot p sl t) p = sl"
    using si st by (simp add: nd_slot_def nd_set_slot_def p)
qed

text \<open>Counters of a segment do not matter to its slots.\<close>

lemma seg_counters [simp]:
  "seg_slot (seg\<lparr>sg_item_count := c\<rparr>) q = seg_slot seg q"
  "seg_occupied (seg\<lparr>sg_item_count := c\<rparr>) q = seg_occupied seg q"
  "seg_wf (seg\<lparr>sg_item_count := c\<rparr>) = seg_wf seg"
  "seg_slot (seg\<lparr>sg_version := v\<rparr>) q = seg_slot seg q"
  "seg_occupied (seg\<lparr>sg_version := v\<rparr>) q = seg_occupied seg q"
  "seg_wf (seg\<lparr>sg_version := v\<rparr>) = seg_wf seg"
  "seg_slot (seg\<lparr>sg_last_modified := n\<rparr>) q = seg_slot seg q"
  "seg_occupied (seg\<lparr>sg_last_modified := n\<rparr>) q = seg_occupied seg q"
  "seg_wf (seg\<lparr>sg_last_modified := n\<rparr>) = seg_wf seg"
  by (cases q; simp add: seg_slot.simps seg_occupied.simps seg_wf_def)+

lemma nd_free_fields [simp]:
  "nd_directory (nd_free t sl) = nd_directory t" "nd_key_pool (nd_free t sl) = nd_key_pool t"
  "nd_key_pool_cap (nd_free t sl) = nd_key_pool_cap t"
  "nd_bloom (nd_free t sl) = nd_bloom t" "nd_used_memory (nd_free t sl) = nd_used_memory t"
  "nd_item_count (nd_free t sl) = nd_item_count t" "nd_free_cb (nd_free t sl) = nd_free_cb t"
  by (simp_all add: nd_free_def Let_def)

lemma nd_set_slot_fields [simp]:
  "nd_key_pool (nd_set_slot p sl t) = nd_key_pool t" "nd_key_pool_cap (nd_set_slot p sl t) = nd_key_pool_cap t"
  "nd_bloom (nd_set_slot p sl t) = nd_bloom t" "nd_used_memory (nd_set_slot p sl t) = nd_used_memory t"
  "nd_item_count (nd_set_slot p sl t) = nd_item_count t" "nd_freed (nd_set_slot p sl t) = nd_freed t"
  "nd_free_cb (nd_set_slot p sl t) = nd_free_cb t" "length (nd_directory (nd_set_slot p sl t)) = length (nd_directory t)"
  by (simp_all add: nd_set_slot_def split: prod.split)

lemma nd_remove_fields [simp]:
  "nd_key_pool (nd_remove t p) = nd_key_pool t" "nd_key_pool_cap (nd_remove t p) = nd_key_pool_cap t"
  "nd_bloom (nd_remove t p) = nd_bloom t" "nd_item_count (nd_remove t p) = nd_item_count t - 1"
  "nd_freed (nd_remove t p) = nd_freed (nd_free t (nd_slot t p))" "nd_free_cb (nd_remove t p) = nd_free_cb t"
  "length (nd_directory (nd_remove t p)) = length (nd_directory t)"
  "nd_used_memory (nd_remove t p) =
     (let freed = ucast (sl_value_size (nd_slot t p)) + NEXDASH_ENTRY_OVERHEAD
      in if freed < nd_used_memory t then nd_used_memory t - freed else 0)"
  by (simp_all add: nd_remove_def nd_release_slot_def Let_def split: prod.split)

text \<open>Releasing an entry.\<close>

lemma nd_remove_dir:
  assumes sh: "nd_shape t" and si: "si < length (nd_directory t)" and q: "valid_pos q"
  shows "\<exists>seg. nd_directory (nd_remove t (si, q)) = (nd_directory t)[si := seg] \<and> seg_wf seg \<and> \<not> seg_occupied seg q \<and>
    (\<forall>r. r \<noteq> q \<longrightarrow> seg_slot seg r = seg_slot (nd_directory t ! si) r \<and> seg_occupied seg r = seg_occupied (nd_directory t ! si) r)"
proof -
  let ?z = "(nd_slot t (si, q))\<lparr>sl_value_ptr := TAG_SET_META 0 0 NTYPE_DELETED TIER_PROBATORY 0, sl_value_size := 0\<rparr>"
  let ?seg1 = "seg_unmark q (seg_set_slot q ?z (nd_directory t ! si))"
  let ?seg' = "?seg1\<lparr>sg_item_count := sg_item_count ?seg1 - 1\<rparr>"
  note st = seg_set_slot_simps [OF nd_shape_seg [OF sh si] q, of ?z]
  note un = seg_unmark_simps [OF st(1) q]
  have "nd_directory (nd_remove t (si, q)) = (nd_directory t)[si := ?seg']"
    using si by (simp add: nd_remove_def nd_release_slot_def nd_set_slot_def Let_def)
  moreover have "seg_wf ?seg'" by (simp add: un)
  ultimately show ?thesis by (intro exI [of _ ?seg']) (simp add: un st)
qed

lemma nd_remove_entries:
  assumes sh: "nd_shape t" and v: "nd_valid t p" and occ: "nd_occupied t p"
  shows "nd_shape (nd_remove t p)" and "nd_entries t = add_mset (nd_slot t p) (nd_entries (nd_remove t p))"
    and "placed (nd_directory t) \<Longrightarrow> placed (nd_directory (nd_remove t p))"
    and "\<not> nd_occupied (nd_remove t p) p"
    and "\<And>r. r \<noteq> p \<Longrightarrow> nd_valid t r \<Longrightarrow> nd_occupied (nd_remove t p) r = nd_occupied t r \<and> nd_slot (nd_remove t p) r = nd_slot t r"
proof -
  obtain si q where p: "p = (si, q)" by (cases p)
  have si: "si < length (nd_directory t)" and q: "valid_pos q" using v by (auto simp: nd_valid_def p)
  obtain seg where dir: "nd_directory (nd_remove t p) = (nd_directory t)[si := seg]" and wf: "seg_wf seg"
    and un: "\<not> seg_occupied seg q"
    and other: "\<And>r. r \<noteq> q \<Longrightarrow> seg_slot seg r = seg_slot (nd_directory t ! si) r \<and> seg_occupied seg r = seg_occupied (nd_directory t ! si) r"
    using nd_remove_dir [OF sh si q] unfolding p by blast
  have occ': "seg_occupied (nd_directory t ! si) q" using occ by (simp add: nd_occupied_def p)
  show "nd_shape (nd_remove t p)" by (rule nd_shape_update [OF sh wf dir])
  show "nd_entries t = add_mset (nd_slot t p) (nd_entries (nd_remove t p))"
    using entries_change [OF si q other] un occ' by (simp add: nd_entries_def dir [unfolded p] nd_slot_def p)
  show "\<not> nd_occupied (nd_remove t p) p"
    using si un by (simp add: nd_occupied_def dir [unfolded p] p)
  show "nd_occupied (nd_remove t p) r = nd_occupied t r \<and> nd_slot (nd_remove t p) r = nd_slot t r"
    if "r \<noteq> p" "nd_valid t r" for r
  proof -
    obtain sj qr where "r = (sj, qr)" by (cases r)
    with that si other [of qr] show ?thesis
      by (auto simp: nd_occupied_def nd_slot_def nd_valid_def dir [unfolded p] nth_list_update p)
  qed
  show "placed (nd_directory (nd_remove t p))" if pl: "placed (nd_directory t)"
  proof -
    have "set (segment_slots seg) \<subseteq> set (segment_slots (nd_directory t ! si))"
      unfolding set_segment_slots using other un by fastforce
    with pl si have "\<And>sl. sl \<in> set (segment_slots seg) \<Longrightarrow> unat (sl_key_hash sl) mod length (nd_directory t) = si"
      by (auto simp: placed_def)
    from placed_update [OF pl si this] show ?thesis unfolding dir .
  qed
qed

text \<open>Filling a free slot of a directory.\<close>

definition fresh_slot :: "u64 \<Rightarrow> u32 \<Rightarrow> u8 \<Rightarrow> NexDashSlot" where
  "fresh_slot hash key_offset key_len =
     \<lparr>sl_key_hash = hash, sl_value_ptr = TAG_SET_META 0 key_len NTYPE_STRING TIER_PROBATORY 0,
      sl_key_offset = key_offset, sl_expire_us32 = 0, sl_value_size = 0\<rparr>"

lemma nd_fill_slot_seg:
  assumes wf: "seg_wf seg" and q: "valid_pos q" and f: "nd_fill_slot now t seg q hash off len has = (t', seg')"
  shows "seg_wf seg'" and "seg_slot seg' r = (if r = q then fresh_slot hash off len else seg_slot seg r)"
    and "seg_occupied seg' r \<longleftrightarrow> r = q \<or> seg_occupied seg r"
    and "nd_directory t' = nd_directory t" "nd_key_pool t' = nd_key_pool t" "nd_key_pool_cap t' = nd_key_pool_cap t"
    and "nd_used_memory t' = nd_used_memory t" "nd_freed t' = nd_freed t" "nd_free_cb t' = nd_free_cb t"
    and "nd_item_count t' = nd_item_count t + 1" "nd_current_version t' = nd_current_version t"
    and "nd_bloom t' = (if has then map_option (\<lambda>b. nexbloom_add b hash) (nd_bloom t) else nd_bloom t)"
proof -
  let ?seg = "seg\<lparr>sg_item_count := sg_item_count seg + 1, sg_version := ucast (nd_current_version t), sg_last_modified := now\<rparr>"
  have wf1: "seg_wf ?seg" using wf by simp
  note st = seg_set_slot_simps [OF wf1 q, of "fresh_slot hash off len"]
  note mk = seg_mark_simps [OF st(1) q]
  have s': "seg' = seg_mark q (seg_set_slot q (fresh_slot hash off len) ?seg)"
    using f by (simp add: nd_fill_slot_def fresh_slot_def)
  show "seg_wf seg'" "seg_slot seg' r = (if r = q then fresh_slot hash off len else seg_slot seg r)"
    "seg_occupied seg' r \<longleftrightarrow> r = q \<or> seg_occupied seg r"
    unfolding s' by (simp_all add: mk st)
qed (use f in \<open>auto simp: nd_fill_slot_def\<close>)

lemma nd_free_slot_some:
  assumes "nd_free_slot seg n = Some q"
  shows "valid_pos q \<and> \<not> seg_occupied seg q"
  using find_SomeD [OF assms [unfolded nd_free_slot_def]] by (simp add: set_probe_order)

lemma nd_free_slot_none: "nd_free_slot seg n = None \<Longrightarrow> length (segment_slots seg) = 224"
proof -
  assume "nd_free_slot seg n = None"
  then have "\<forall>q. valid_pos q \<longrightarrow> seg_occupied seg q"
    by (simp add: nd_free_slot_def find_None_iff set_probe_order)
  then have "filter (seg_occupied seg) (probe_order 0) = probe_order 0"
    by (intro filter_True) (auto simp: set_probe_order)
  then show ?thesis by (simp add: segment_slots_def length_probe_order)
qed

subsection \<open>The invariant\<close>

text \<open>No two elements of a multiset with the same key.\<close>

definition unique_on :: "('a \<Rightarrow> 'k) \<Rightarrow> 'a multiset \<Rightarrow> bool" where
  "unique_on f M \<longleftrightarrow> (\<forall>k. size {#x \<in># M. f x = k#} \<le> 1)"

lemma unique_on_add: "unique_on f (add_mset x M) \<longleftrightarrow> unique_on f M \<and> (\<forall>y \<in># M. f y \<noteq> f x)"
proof -
  have s: "size {#y \<in># add_mset x M. f y = k#} = size {#y \<in># M. f y = k#} + (if f x = k then 1 else 0)" for k
    by simp
  have e: "size {#y \<in># M. f y = f x#} = 0 \<longleftrightarrow> (\<forall>y \<in># M. f y \<noteq> f x)"
    by (auto simp: filter_mset_eq_mempty_iff)
  show ?thesis
  proof
    assume u: "unique_on f (add_mset x M)"
    then have "size {#y \<in># M. f y = k#} \<le> 1" for k
      using u [unfolded unique_on_def, rule_format, of k] s [of k] by simp
    moreover have "size {#y \<in># M. f y = f x#} = 0"
      using u [unfolded unique_on_def, rule_format, of "f x"] s [of "f x"] by simp
    ultimately show "unique_on f M \<and> (\<forall>y \<in># M. f y \<noteq> f x)" using e by (simp add: unique_on_def)
  next
    assume r: "unique_on f M \<and> (\<forall>y \<in># M. f y \<noteq> f x)"
    show "unique_on f (add_mset x M)"
      unfolding unique_on_def
    proof
      fix k
      show "size {#y \<in># add_mset x M. f y = k#} \<le> 1"
        using r e s [of k] by (cases "f x = k") (auto simp: unique_on_def)
    qed
  qed
qed

lemma unique_on_eq: "unique_on f M \<Longrightarrow> x \<in># M \<Longrightarrow> y \<in># M \<Longrightarrow> f x = f y \<Longrightarrow> x = y"
proof -
  assume u: "unique_on f M" and x: "x \<in># M" and y: "y \<in># M" and e: "f x = f y"
  from x obtain N where N: "M = add_mset x N" by (metis multi_member_split)
  with u e have "y \<notin># N" by (auto simp: unique_on_add)
  with y N show ?thesis by auto
qed

lemma unique_on_cong: "(\<And>x. x \<in># M \<Longrightarrow> f x = g x) \<Longrightarrow> unique_on f M = unique_on g M"
  unfolding unique_on_def by (simp cong: filter_mset_cong)

lemma unique_on_empty [simp]: "unique_on f {#}"
  by (simp add: unique_on_def)

definition nd_key_len :: "NexDashSlot \<Rightarrow> nat" where
  "nd_key_len sl = unat (TAG_GET_LEN (sl_value_ptr sl))"

definition entry_ok :: "NexDashTable \<Rightarrow> NexDashSlot \<Rightarrow> bool" where
  "entry_ok t sl \<longleftrightarrow>
     nd_stored_key t sl \<noteq> [] \<and> sl_key_hash sl = fnv1a_64 (nd_stored_key t sl) \<and>
     unat (sl_key_offset sl) + nd_key_len sl \<le> length (nd_key_pool t) \<and>
     (case nd_bloom t of None \<Rightarrow> True | Some b \<Rightarrow> nexbloom_check b (sl_key_hash sl))"

definition nd_inv :: "NexDashTable \<Rightarrow> bool" where
  "nd_inv t \<longleftrightarrow>
     nd_shape t \<and> placed (nd_directory t) \<and> (\<forall>sl \<in># nd_entries t. entry_ok t sl) \<and>
     unique_on (nd_stored_key t) (nd_entries t) \<and>
     (case nd_bloom t of None \<Rightarrow> True | Some b \<Rightarrow> nexbloom_wf b)"

text \<open>The abstract map a table stands for: the entry of a key.\<close>

definition nd_view :: "NexDashTable \<Rightarrow> bytes \<Rightarrow> NexDashSlot option" where
  "nd_view t k = map_option (nd_slot t) (nd_search t (fnv1a_64 k) k)"

lemma stored_key_length: "entry_ok t sl \<Longrightarrow> length (nd_stored_key t sl) = nd_key_len sl"
  by (auto simp: entry_ok_def nd_stored_key_def nd_key_len_def)

lemma in_entries: "sl \<in># nd_entries t \<longleftrightarrow> (\<exists>p. nd_valid t p \<and> nd_occupied t p \<and> nd_slot t p = sl)"
proof -
  have "sl \<in># nd_entries t \<longleftrightarrow> (\<exists>si < length (nd_directory t). sl \<in> set (segment_slots (nd_directory t ! si)))"
    by (auto simp: nd_entries_def directory_slots_def set_conv_nth [of "nd_directory t"])
  also have "\<dots> \<longleftrightarrow> (\<exists>si q. si < length (nd_directory t) \<and> valid_pos q \<and> seg_occupied (nd_directory t ! si) q \<and>
      seg_slot (nd_directory t ! si) q = sl)"
    unfolding set_segment_slots by blast
  also have "\<dots> \<longleftrightarrow> (\<exists>p. nd_valid t p \<and> nd_occupied t p \<and> nd_slot t p = sl)"
    by (auto simp: nd_valid_def nd_occupied_def nd_slot_def)
  finally show ?thesis .
qed

lemma nd_search_some:
  assumes "nd_shape t" "nd_search t hash k = Some p"
  shows "nd_valid t p" "nd_occupied t p" "nd_matches t hash k (nd_slot t p)" "nd_slot t p \<in># nd_entries t"
proof -
  let ?si = "segment_of t hash"
  obtain q where p: "p = (?si, q)"
    and q: "find (\<lambda>q. nd_occupied t (?si, q) \<and> nd_matches t hash k (nd_slot t (?si, q))) (probe_order (bucket_start hash)) = Some q"
    using assms(2) unfolding nd_search_def map_option_eq_Some by blast
  from find_SomeD [OF q] have "valid_pos q" by (simp add: set_probe_order)
  moreover have "?si < length (nd_directory t)" using assms(1) by (simp add: segment_of_def nd_shape_def)
  ultimately show v: "nd_valid t p" by (simp add: nd_valid_def p)
  show o: "nd_occupied t p" and "nd_matches t hash k (nd_slot t p)" using find_SomeD [OF q] by (simp_all add: p)
  from v o show "nd_slot t p \<in># nd_entries t" unfolding in_entries by blast
qed

lemma nd_search_none:
  assumes "nd_inv t" "nd_search t (fnv1a_64 k) k = None" "sl \<in># nd_entries t"
  shows "nd_stored_key t sl \<noteq> k"
proof
  assume k: "nd_stored_key t sl = k"
  from assms(3) obtain p where p: "nd_valid t p" "nd_occupied t p" "nd_slot t p = sl" unfolding in_entries by blast
  obtain si q where pq: "p = (si, q)" by (cases p)
  have ok: "entry_ok t sl" using assms(1,3) by (simp add: nd_inv_def)
  then have h: "sl_key_hash sl = fnv1a_64 k" using k by (simp add: entry_ok_def)
  have q: "valid_pos q" "si < length (nd_directory t)" using p(1) by (auto simp: nd_valid_def pq)
  have "sl \<in> set (segment_slots (nd_directory t ! si))"
    unfolding set_segment_slots using p(2,3) q(1) by (auto simp: pq nd_occupied_def nd_slot_def simp del: split_paired_Ex)
  then have "unat (sl_key_hash sl) mod length (nd_directory t) = si"
    using assms(1) q(2) by (auto simp: nd_inv_def placed_def)
  then have si: "segment_of t (fnv1a_64 k) = si" using h by (simp add: segment_of_def)
  have "nd_matches t (fnv1a_64 k) k sl"
    using stored_key_length [OF ok] h k by (simp add: nd_matches_def nd_key_len_def)
  with p q(1) have "q \<in> set (probe_order (bucket_start (fnv1a_64 k)))" "nd_occupied t (si, q)"
    "nd_matches t (fnv1a_64 k) k (nd_slot t (si, q))" by (simp_all add: set_probe_order pq)
  with assms(2) show False unfolding nd_search_def si map_option_is_None find_None_iff by blast
qed

lemma nd_view_iff:
  assumes "nd_inv t"
  shows "nd_view t k = Some sl \<longleftrightarrow> sl \<in># nd_entries t \<and> nd_stored_key t sl = k"
proof
  assume "nd_view t k = Some sl"
  then show "sl \<in># nd_entries t \<and> nd_stored_key t sl = k"
    using assms nd_search_some [of t "fnv1a_64 k" k] by (auto simp: nd_view_def nd_inv_def nd_matches_def)
next
  assume r: "sl \<in># nd_entries t \<and> nd_stored_key t sl = k"
  with nd_search_none [OF assms] obtain p where p: "nd_search t (fnv1a_64 k) k = Some p"
    by (cases "nd_search t (fnv1a_64 k) k") auto
  have "nd_slot t p \<in># nd_entries t \<and> nd_stored_key t (nd_slot t p) = k"
    using assms nd_search_some [OF _ p] by (simp add: nd_inv_def nd_matches_def)
  with r assms have "nd_slot t p = sl" by (auto simp: nd_inv_def intro: unique_on_eq)
  then show "nd_view t k = Some sl" by (simp add: nd_view_def p)
qed

end
