(* ===== verification/Nex_Dash_Ops.thy ===== *)
theory Nex_Dash_Ops
  imports Nex_Dash_Inv
begin

text \<open>
  What the NexDash operations do to the invariant and to the abstract map: removal, overwriting,
  insertion with the key pool and the Bloom filter, the doubling of the directory, and on top of
  them the operations of the interface.
\<close>

lemma nd_view_eqI:
  assumes "nd_inv t" "\<And>k sl. m k = Some sl \<longleftrightarrow> sl \<in># nd_entries t \<and> nd_stored_key t sl = k"
  shows "nd_view t = m"
proof
  fix k
  have "nd_view t k = Some sl \<longleftrightarrow> m k = Some sl" for sl
    using assms by (simp add: nd_view_iff)
  then show "nd_view t k = m k" by (metis option.exhaust)
qed

lemma stored_key_cong: "nd_key_pool t' = nd_key_pool t \<Longrightarrow> nd_stored_key t' = nd_stored_key t"
  by (simp add: nd_stored_key_def fun_eq_iff)

lemma entry_ok_cong:
  "nd_key_pool t' = nd_key_pool t \<Longrightarrow> nd_bloom t' = nd_bloom t \<Longrightarrow> entry_ok t' = entry_ok t"
  using stored_key_cong [of t' t] by (intro ext) (simp add: entry_ok_def)

text \<open>Fields that the invariant does not read.\<close>

lemma nd_inv_cong:
  assumes "nd_directory t' = nd_directory t" "nd_key_pool t' = nd_key_pool t" "nd_bloom t' = nd_bloom t"
  shows "nd_inv t' = nd_inv t" and "nd_view t' = nd_view t" and "nd_entries t' = nd_entries t"
proof -
  have "nd_slot t' = nd_slot t" "nd_occupied t' = nd_occupied t" "segment_of t' = segment_of t"
    using assms by (simp_all add: nd_slot_def nd_occupied_def segment_of_def fun_eq_iff)
  moreover have "nd_matches t' = nd_matches t"
    using stored_key_cong [OF assms(2)] by (simp add: nd_matches_def fun_eq_iff)
  ultimately have "nd_search t' = nd_search t" by (intro ext) (simp only: nd_search_def)
  with \<open>nd_slot t' = nd_slot t\<close> show "nd_view t' = nd_view t" by (intro ext) (simp only: nd_view_def)
  show e: "nd_entries t' = nd_entries t" using assms by (simp add: nd_entries_def)
  show "nd_inv t' = nd_inv t"
    using assms by (simp add: nd_inv_def e entry_ok_cong [OF assms(2,3)] stored_key_cong [OF assms(2)] nd_shape_def)
qed

lemma nd_remove_view:
  assumes inv: "nd_inv t" and v: "nd_valid t p" and occ: "nd_occupied t p"
  shows "nd_inv (nd_remove t p)"
    and "nd_view (nd_remove t p) = (nd_view t)(nd_stored_key t (nd_slot t p) := None)"
proof -
  let ?t = "nd_remove t p"
  have sh: "nd_shape t" using inv by (simp add: nd_inv_def)
  note r = nd_remove_entries [OF sh v occ]
  have k: "nd_stored_key ?t = nd_stored_key t" by (rule stored_key_cong) simp
  have o: "entry_ok ?t = entry_ok t" by (rule entry_ok_cong) simp_all
  have u: "unique_on (nd_stored_key t) (nd_entries ?t)" "\<forall>y \<in># nd_entries ?t. nd_stored_key t y \<noteq> nd_stored_key t (nd_slot t p)"
    using inv r(2) by (simp_all add: nd_inv_def unique_on_add)
  show i: "nd_inv ?t" using inv r(1-3) u by (simp add: nd_inv_def k o)
  show "nd_view ?t = (nd_view t)(nd_stored_key t (nd_slot t p) := None)"
    using u(2) by (intro nd_view_eqI [OF i]) (auto simp: k nd_view_iff [OF inv] r(2))
qed

text \<open>Overwriting the value, tag bits and expiry of an entry.\<close>

lemma nd_set_slot_view:
  assumes inv: "nd_inv t" and v: "nd_valid t p" and occ: "nd_occupied t p"
    and same: "sl_key_hash sl = sl_key_hash (nd_slot t p)" "sl_key_offset sl = sl_key_offset (nd_slot t p)"
      "TAG_GET_LEN (sl_value_ptr sl) = TAG_GET_LEN (sl_value_ptr (nd_slot t p))"
  shows "nd_inv (nd_set_slot p sl t)"
    and "nd_view (nd_set_slot p sl t) = (nd_view t)(nd_stored_key t (nd_slot t p) \<mapsto> sl)"
proof -
  let ?t = "nd_set_slot p sl t"
  have sh: "nd_shape t" using inv by (simp add: nd_inv_def)
  note r = nd_set_slot_entries [OF sh v occ, of sl]
  obtain R where R: "nd_entries t = add_mset (nd_slot t p) R" "nd_entries ?t = add_mset sl R" using r(2) by blast
  have k: "nd_stored_key ?t = nd_stored_key t" by (rule stored_key_cong) simp
  have o: "entry_ok ?t = entry_ok t" by (rule entry_ok_cong) simp_all
  have ks: "nd_stored_key t sl = nd_stored_key t (nd_slot t p)" using same by (simp add: nd_stored_key_def)
  have "entry_ok t (nd_slot t p)" using inv R by (simp add: nd_inv_def)
  then have os: "entry_ok t sl" unfolding entry_ok_def nd_key_len_def same ks .
  have u: "unique_on (nd_stored_key t) R" "\<forall>y \<in># R. nd_stored_key t y \<noteq> nd_stored_key t (nd_slot t p)"
    using inv R by (simp_all add: nd_inv_def unique_on_add)
  show i: "nd_inv ?t"
    using inv R r u os same by (simp add: nd_inv_def k o unique_on_add ks)
  show "nd_view ?t = (nd_view t)(nd_stored_key t (nd_slot t p) \<mapsto> sl)"
    using u(2) by (intro nd_view_eqI [OF i]) (auto simp: k nd_view_iff [OF inv] R ks)
qed

subsection \<open>The key pool\<close>

lemma grow_cap_some:
  assumes "need \<le> 2 ^ 31"
  shows "32 \<le> fuel + j \<Longrightarrow> 0 < fuel \<Longrightarrow> 2 ^ j \<le> unat cap \<Longrightarrow> \<exists>c. grow_cap fuel need cap = Some c"
proof (induction fuel arbitrary: cap j)
  case (Suc fuel)
  show ?case
  proof (cases "cap < need")
    case True
    then have c: "unat cap < 2 ^ 31" using assms by (simp add: word_less_nat_alt word_le_nat_alt)
    with Suc.prems(3) have j: "j < 31" using power_less_imp_less_exp [of "2 :: nat" j 31] by simp
    have "unat (cap * 2) = unat cap * 2" using c by (simp add: unat_word_ariths)
    with Suc.prems(3) have "2 ^ (j + 1) \<le> unat (cap * 2)" by simp
    with Suc.IH [of "j + 1" "cap * 2"] Suc.prems j True show ?thesis by simp
  qed simp
qed simp

lemma grow_cap_ge: "grow_cap fuel need cap = Some c \<Longrightarrow> need \<le> c"
  by (induction fuel arbitrary: cap) (auto split: if_splits)

text \<open>Room in the pool: the sizes the 32-bit arithmetic of the pool handles.\<close>

definition nd_room :: "NexDashTable \<Rightarrow> bytes \<Rightarrow> bool" where
  "nd_room t k \<longleftrightarrow> length (nd_key_pool t) + length k + 1 \<le> 2 ^ 31 \<and> 0 < nd_key_pool_cap t"

lemma nd_store_key_spec:
  assumes "nd_room t k"
  obtains t' off where "nd_store_key ok t k = Some (t', off)" "nd_directory t' = nd_directory t" "nd_bloom t' = nd_bloom t"
    "nd_item_count t' = nd_item_count t" "nd_used_memory t' = nd_used_memory t" "nd_freed t' = nd_freed t"
    "nd_free_cb t' = nd_free_cb t" "0 < nd_key_pool_cap t'"
    "case off of None \<Rightarrow> \<not> ok \<and> nd_key_pool t' = nd_key_pool t
     | Some i \<Rightarrow> unat i = length (nd_key_pool t) \<and> nd_key_pool t' = nd_key_pool t @ k @ [0]"
proof -
  let ?need = "of_nat (length (nd_key_pool t)) + of_nat (length k) + 1 :: u32"
  have "?need = of_nat (length (nd_key_pool t) + length k + 1)" by simp
  moreover have "unat (of_nat (length (nd_key_pool t) + length k + 1) :: u32) = length (nd_key_pool t) + length k + 1"
    using assms by (intro unat_of_nat_eq) (simp add: nd_room_def)
  ultimately have un: "unat ?need = length (nd_key_pool t) + length k + 1" by (simp only:)
  then have "?need \<le> 2 ^ 31" using assms by (simp add: nd_room_def word_le_nat_alt)
  moreover have "2 ^ 0 \<le> unat (nd_key_pool_cap t)" using assms by (auto simp: nd_room_def unat_gt_0 Suc_le_eq)
  ultimately obtain c where c: "grow_cap 33 ?need (nd_key_pool_cap t) = Some c"
    using grow_cap_some [of ?need 33 0] by auto
  have c0: "0 < c" using grow_cap_ge [OF c] un by (auto simp: word_less_nat_alt word_le_nat_alt)
  have l: "unat (of_nat (length (nd_key_pool t)) :: u32) = length (nd_key_pool t)"
    using assms by (intro unat_of_nat_eq) (simp add: nd_room_def)
  show thesis
  proof (cases "nd_key_pool_cap t < ?need \<and> \<not> ok")
    case True
    with c c0 show thesis by (intro that [of "t\<lparr>nd_key_pool_cap := c\<rparr>" None]) (simp_all add: nd_store_key_def Let_def)
  next
    case False
    with c c0 l show thesis
      by (intro that [of "t\<lparr>nd_key_pool_cap := c, nd_key_pool := nd_key_pool t @ k @ [0]\<rparr>"
            "Some (of_nat (length (nd_key_pool t)))"]) (auto simp: nd_store_key_def Let_def)
  qed
qed

lemma stored_key_extend:
  "unat (sl_key_offset sl) + nd_key_len sl \<le> length (nd_key_pool t) \<Longrightarrow> nd_key_pool t' = nd_key_pool t @ x \<Longrightarrow>
   nd_stored_key t' sl = nd_stored_key t sl"
  by (simp add: nd_stored_key_def nd_key_len_def)

subsection \<open>Insertion\<close>

lemma nd_set_slot_free:
  assumes sh: "nd_shape t" and v: "nd_valid t p" and free: "\<not> nd_occupied t p"
  shows "nd_shape (nd_set_slot p sl t)" and "nd_entries (nd_set_slot p sl t) = nd_entries t"
    and "placed (nd_directory t) \<Longrightarrow> placed (nd_directory (nd_set_slot p sl t))"
proof -
  obtain si q where p: "p = (si, q)" by (cases p)
  have si: "si < length (nd_directory t)" and q: "valid_pos q" using v by (auto simp: nd_valid_def p)
  let ?seg = "nd_directory t ! si"
  note st = seg_set_slot_simps [OF nd_shape_seg [OF sh si] q, of sl]
  have free': "\<not> seg_occupied ?seg q" using free by (simp add: nd_occupied_def p)
  have dir: "nd_directory (nd_set_slot p sl t) = (nd_directory t)[si := seg_set_slot q sl ?seg]"
    by (simp add: nd_set_slot_def p)
  show "nd_shape (nd_set_slot p sl t)" by (rule nd_shape_update [OF sh st(1) dir])
  show "nd_entries (nd_set_slot p sl t) = nd_entries t"
    using entries_change [OF si q, of "seg_set_slot q sl ?seg"] st free' by (auto simp: nd_entries_def dir)
  show "placed (nd_directory (nd_set_slot p sl t))" if pl: "placed (nd_directory t)"
  proof -
    have "set (segment_slots (seg_set_slot q sl ?seg)) \<subseteq> set (segment_slots ?seg)"
      unfolding set_segment_slots using free' st by fastforce
    with pl si have "\<And>sl'. sl' \<in> set (segment_slots (seg_set_slot q sl ?seg)) \<Longrightarrow> unat (sl_key_hash sl') mod length (nd_directory t) = si"
      by (auto simp: placed_def)
    from placed_update [OF pl si this] show ?thesis unfolding dir .
  qed
qed

text \<open>A segment with one more occupied slot.\<close>

lemma fill_directory:
  assumes si: "si < length dir" and wf: "seg_wf (dir ! si)" and q: "valid_pos q" and free: "\<not> seg_occupied (dir ! si) q"
    and slot: "\<And>r. seg_slot seg r = (if r = q then sl else seg_slot (dir ! si) r)"
    and occ: "\<And>r. seg_occupied seg r \<longleftrightarrow> r = q \<or> seg_occupied (dir ! si) r"
  shows "mset (directory_slots (dir[si := seg])) = add_mset sl (mset (directory_slots dir))"
    and "placed dir \<Longrightarrow> unat (sl_key_hash sl) mod length dir = si \<Longrightarrow> placed (dir[si := seg])"
proof -
  show "mset (directory_slots (dir[si := seg])) = add_mset sl (mset (directory_slots dir))"
    using entries_change [OF si q, of seg] slot occ free by auto
  show "placed (dir[si := seg])" if pl: "placed dir" and h: "unat (sl_key_hash sl) mod length dir = si"
  proof -
    have "set (segment_slots seg) \<subseteq> insert sl (set (segment_slots (dir ! si)))"
      unfolding set_segment_slots using slot occ by fastforce
    with pl si h have "\<And>x. x \<in> set (segment_slots seg) \<Longrightarrow> unat (sl_key_hash x) mod length dir = si"
      by (auto simp: placed_def)
    from placed_update [OF pl si this] show ?thesis .
  qed
qed

lemma stored_fresh:
  assumes "nd_key_pool t = pool @ k @ [0]" "unat off = length pool" "length k \<le> 255"
  shows "nd_stored_key t (fresh_slot h off (of_nat (length k))) = k" and "nd_key_len (fresh_slot h off (of_nat (length k))) = length k"
proof -
  have "tag_ok 0 NTYPE_STRING TIER_PROBATORY 0" by (simp add: tag_ok_def NTYPE_STRING_def TIER_PROBATORY_def)
  note g = TAG_SET_GET [OF this]
  have u: "unat (of_nat (length k) :: u8) = length k" using assms(3) by (intro unat_of_nat_eq) simp
  show "nd_stored_key t (fresh_slot h off (of_nat (length k))) = k"
    by (simp add: nd_stored_key_def fresh_slot_def g u assms)
  show "nd_key_len (fresh_slot h off (of_nat (length k))) = length k"
    by (simp add: nd_key_len_def fresh_slot_def g u)
qed

lemma nd_inv_same_entries:
  assumes inv: "nd_inv t" and sh: "nd_shape t'" "placed (nd_directory t')" and e: "nd_entries t' = nd_entries t"
    and f: "nd_key_pool t' = nd_key_pool t" "nd_bloom t' = nd_bloom t"
  shows "nd_inv t'" and "nd_view t' = nd_view t"
proof -
  note k = stored_key_cong [OF f(1)] entry_ok_cong [OF f]
  show i: "nd_inv t'" using inv sh by (simp add: nd_inv_def e k f(2))
  show "nd_view t' = nd_view t" by (intro nd_view_eqI [OF i]) (simp add: nd_view_iff [OF inv] e k)
qed

lemma nd_inv_add_entry:
  assumes inv: "nd_inv t" and sh: "nd_shape t'" "placed (nd_directory t')" and e: "nd_entries t' = add_mset sl (nd_entries t)"
    and pool: "nd_key_pool t' = nd_key_pool t @ x" and bloom: "nd_bloom t' = map_option (\<lambda>b. nexbloom_add b (fnv1a_64 k)) (nd_bloom t)"
    and sl: "nd_stored_key t' sl = k" "k \<noteq> []" "sl_key_hash sl = fnv1a_64 k" "unat (sl_key_offset sl) + nd_key_len sl \<le> length (nd_key_pool t')"
    and new: "nd_view t k = None"
  shows "nd_inv t'" and "nd_view t' = (nd_view t)(k \<mapsto> sl)"
proof -
  have ok: "entry_ok t y" if "y \<in># nd_entries t" for y using inv that by (simp add: nd_inv_def)
  have ks: "nd_stored_key t' y = nd_stored_key t y" if "y \<in># nd_entries t" for y
    using ok [OF that] by (intro stored_key_extend [OF _ pool]) (simp add: entry_ok_def)
  have ne: "nd_stored_key t y \<noteq> k" if "y \<in># nd_entries t" for y
    using new that nd_view_iff [OF inv, of k y] by auto
  have wf: "case nd_bloom t of None \<Rightarrow> True | Some b \<Rightarrow> nexbloom_wf b" using inv by (simp add: nd_inv_def)
  have ok': "entry_ok t' y" if "y \<in># nd_entries t" for y
    using ok [OF that] ks [OF that] wf
    by (auto simp: entry_ok_def pool bloom nexbloom.check_add_mono split: option.splits)
  moreover have "entry_ok t' sl"
    using sl wf by (auto simp: entry_ok_def bloom nexbloom.check_add_same split: option.splits)
  moreover have "unique_on (nd_stored_key t') (nd_entries t)"
    using inv unique_on_cong [of "nd_entries t" "nd_stored_key t'" "nd_stored_key t"] ks by (simp add: nd_inv_def)
  moreover have "\<forall>y \<in># nd_entries t. nd_stored_key t' y \<noteq> nd_stored_key t' sl" using ks ne sl(1) by auto
  moreover have "case nd_bloom t' of None \<Rightarrow> True | Some b \<Rightarrow> nexbloom_wf b"
    using wf by (auto simp: bloom nexbloom.invar_add split: option.splits)
  ultimately show i: "nd_inv t'" using sh by (simp add: nd_inv_def e unique_on_add)
  show "nd_view t' = (nd_view t)(k \<mapsto> sl)"
  proof (rule nd_view_eqI [OF i])
    fix k' y
    show "((nd_view t)(k \<mapsto> sl)) k' = Some y \<longleftrightarrow> y \<in># nd_entries t' \<and> nd_stored_key t' y = k'"
      using ks [of y] ne [of y] sl(1) nd_view_iff [OF inv, of k' y] by (auto simp: e)
  qed
qed

text \<open>An insertion that finds no free slot, or whose key does not fit, leaves the map as it is.\<close>

lemma nd_insert_none:
  assumes inv: "nd_inv t" and room: "nd_room t k"
    and ins: "nd_insert_into_segment ok now t (segment_of t (fnv1a_64 k)) (fnv1a_64 k) k = Some (t', None)"
  shows "nd_inv t'" "nd_view t' = nd_view t" "nd_entries t' = nd_entries t" "nd_item_count t' = nd_item_count t"
    "nd_used_memory t' = nd_used_memory t" "nd_freed t' = nd_freed t" "nd_free_cb t' = nd_free_cb t"
    "length (nd_directory t') = length (nd_directory t)" "nd_key_pool t' = nd_key_pool t" "0 < nd_key_pool_cap t'"
    "ok \<Longrightarrow> t' = t \<and> length (segment_slots (nd_directory t ! segment_of t (fnv1a_64 k))) = 224"
proof -
  let ?h = "fnv1a_64 k" and ?si = "segment_of t (fnv1a_64 k)"
  have sh: "nd_shape t" and pl: "placed (nd_directory t)" using inv by (simp_all add: nd_inv_def)
  then have si: "?si < length (nd_directory t)" by (simp add: segment_of_def nd_shape_def)
  obtain t1 off where st: "nd_store_key ok t k = Some (t1, off)" "nd_directory t1 = nd_directory t" "nd_bloom t1 = nd_bloom t"
    "nd_item_count t1 = nd_item_count t" "nd_used_memory t1 = nd_used_memory t" "nd_freed t1 = nd_freed t"
    "nd_free_cb t1 = nd_free_cb t" "0 < nd_key_pool_cap t1"
    "case off of None \<Rightarrow> \<not> ok \<and> nd_key_pool t1 = nd_key_pool t
     | Some i \<Rightarrow> unat i = length (nd_key_pool t) \<and> nd_key_pool t1 = nd_key_pool t @ k @ [0]"
    using nd_store_key_spec [OF room] by blast
  let ?z = "\<lparr>sl_key_hash = ?h, sl_value_ptr = 0, sl_key_offset = 0, sl_expire_us32 = 0, sl_value_size = 0\<rparr>"
  consider "nd_free_slot (nd_directory t ! ?si) (bucket_start ?h) = None" "t' = t"
    | q where "nd_free_slot (nd_directory t ! ?si) (bucket_start ?h) = Some q" "off = None" "t' = nd_set_slot (?si, q) ?z t1"
    using ins st(1) by (auto simp: nd_insert_into_segment_def split: option.splits prod.splits)
  then have "nd_inv t' \<and> nd_view t' = nd_view t \<and> nd_entries t' = nd_entries t \<and> nd_item_count t' = nd_item_count t \<and>
    nd_used_memory t' = nd_used_memory t \<and> nd_freed t' = nd_freed t \<and> nd_free_cb t' = nd_free_cb t \<and>
    length (nd_directory t') = length (nd_directory t) \<and> nd_key_pool t' = nd_key_pool t \<and> 0 < nd_key_pool_cap t' \<and>
    (ok \<longrightarrow> t' = t \<and> length (segment_slots (nd_directory t ! ?si)) = 224)"
  proof cases
    case 1
    then show ?thesis using inv nd_free_slot_none room by (auto simp: nd_room_def)
  next
    case 2
    from nd_free_slot_some [OF 2(1)] have q: "valid_pos q" and free: "\<not> seg_occupied (nd_directory t ! ?si) q" by auto
    have pool: "nd_key_pool t1 = nd_key_pool t" "\<not> ok" using st(9) 2(2) by auto
    have v: "nd_valid t1 (?si, q)" "\<not> nd_occupied t1 (?si, q)" "nd_shape t1" "placed (nd_directory t1)"
      using q si free st(2) sh pl by (simp_all add: nd_valid_def nd_occupied_def nd_shape_def)
    note f = nd_set_slot_free [OF v(3,1,2), of ?z, folded 2(3)]
    have e: "nd_entries t' = nd_entries t" using f(2) st(2) by (simp add: nd_entries_def)
    have fields: "nd_key_pool t' = nd_key_pool t" "nd_bloom t' = nd_bloom t" by (simp_all add: 2(3) pool st)
    note s = nd_inv_same_entries [OF inv f(1) f(3) [OF v(4)] e fields]
    show ?thesis using s e fields pool st by (simp add: 2(3))
  qed
  then show "nd_inv t'" "nd_view t' = nd_view t" "nd_entries t' = nd_entries t" "nd_item_count t' = nd_item_count t"
    "nd_used_memory t' = nd_used_memory t" "nd_freed t' = nd_freed t" "nd_free_cb t' = nd_free_cb t"
    "length (nd_directory t') = length (nd_directory t)" "nd_key_pool t' = nd_key_pool t" "0 < nd_key_pool_cap t'"
    "ok \<Longrightarrow> t' = t \<and> length (segment_slots (nd_directory t ! ?si)) = 224"
    by blast+
qed

lemma nd_insert_some:
  assumes inv: "nd_inv t" and k: "k \<noteq> []" "length k \<le> 255" and room: "nd_room t k" and new: "nd_view t k = None"
    and ins: "nd_insert_into_segment ok now t (segment_of t (fnv1a_64 k)) (fnv1a_64 k) k = Some (t', Some p)"
  shows "nd_inv t'" "nd_valid t' p" "nd_occupied t' p" "nd_stored_key t' (nd_slot t' p) = k"
    "\<exists>off. nd_slot t' p = fresh_slot (fnv1a_64 k) off (of_nat (length k))"
    "nd_view t' = (nd_view t)(k \<mapsto> nd_slot t' p)" "nd_entries t' = add_mset (nd_slot t' p) (nd_entries t)"
    "nd_item_count t' = nd_item_count t + 1" "nd_used_memory t' = nd_used_memory t" "nd_freed t' = nd_freed t"
    "nd_free_cb t' = nd_free_cb t" "length (nd_directory t') = length (nd_directory t)"
    "nd_key_pool t' = nd_key_pool t @ k @ [0]"
proof -
  let ?h = "fnv1a_64 k" and ?si = "segment_of t (fnv1a_64 k)"
  have sh: "nd_shape t" and pl: "placed (nd_directory t)" using inv by (simp_all add: nd_inv_def)
  then have si: "?si < length (nd_directory t)" by (simp add: segment_of_def nd_shape_def)
  have wf: "seg_wf (nd_directory t ! ?si)" by (rule nd_shape_seg [OF sh si])
  obtain t1 off where st: "nd_store_key ok t k = Some (t1, off)" "nd_directory t1 = nd_directory t" "nd_bloom t1 = nd_bloom t"
    "nd_item_count t1 = nd_item_count t" "nd_used_memory t1 = nd_used_memory t" "nd_freed t1 = nd_freed t"
    "nd_free_cb t1 = nd_free_cb t" "0 < nd_key_pool_cap t1"
    "case off of None \<Rightarrow> \<not> ok \<and> nd_key_pool t1 = nd_key_pool t
     | Some i \<Rightarrow> unat i = length (nd_key_pool t) \<and> nd_key_pool t1 = nd_key_pool t @ k @ [0]"
    using nd_store_key_spec [OF room] by blast
  from ins st(1,2) obtain q i t2 seg where x: "nd_free_slot (nd_directory t ! ?si) (bucket_start ?h) = Some q" "off = Some i"
    "nd_fill_slot now t1 (nd_directory t ! ?si) q ?h i (of_nat (length k)) True = (t2, seg)"
    "t' = t2\<lparr>nd_directory := (nd_directory t2)[?si := seg]\<rparr>" "p = (?si, q)"
    by (auto simp: nd_insert_into_segment_def split: option.splits prod.splits)
  from nd_free_slot_some [OF x(1)] have q: "valid_pos q" and free: "\<not> seg_occupied (nd_directory t ! ?si) q" by auto
  have pool: "unat i = length (nd_key_pool t)" "nd_key_pool t1 = nd_key_pool t @ k @ [0]" using st(9) x(2) by auto
  note f = nd_fill_slot_seg [OF wf q x(3)]
  let ?sl = "fresh_slot ?h i (of_nat (length k))"
  have dir: "nd_directory t' = (nd_directory t)[?si := seg]" by (simp add: x(4) f st(2))
  show slot: "nd_valid t' p" "nd_occupied t' p" using q si by (simp_all add: nd_valid_def nd_occupied_def dir x(5) f)
  have sl: "nd_slot t' p = ?sl" using si by (simp add: nd_slot_def dir x(5) f)
  then show "\<exists>off. nd_slot t' p = fresh_slot ?h off (of_nat (length k))" by blast
  note fd = fill_directory [OF si wf q free f(2,3)]
  have e: "nd_entries t' = add_mset ?sl (nd_entries t)" using fd(1) by (simp add: nd_entries_def dir)
  then show "nd_entries t' = add_mset (nd_slot t' p) (nd_entries t)" by (simp add: sl)
  have pl': "placed (nd_directory t')" unfolding dir by (rule fd(2) [OF pl]) (simp add: fresh_slot_def segment_of_def)
  have sh': "nd_shape t'" by (rule nd_shape_update [OF sh f(1) dir])
  show pool': "nd_key_pool t' = nd_key_pool t @ k @ [0]" by (simp add: x(4) f pool)
  have bloom': "nd_bloom t' = map_option (\<lambda>b. nexbloom_add b ?h) (nd_bloom t)" by (simp add: x(4) f st(3))
  note fr = stored_fresh [OF pool' pool(1) k(2), of ?h]
  then show "nd_stored_key t' (nd_slot t' p) = k" by (simp add: sl)
  have "sl_key_hash ?sl = ?h" "unat (sl_key_offset ?sl) + nd_key_len ?sl \<le> length (nd_key_pool t')"
    by (simp_all add: fr pool' pool(1) fresh_slot_def) (simp add: fr(2) [unfolded fresh_slot_def])
  note a = nd_inv_add_entry [OF inv sh' pl' e pool' bloom' fr(1) k(1) this new]
  then show "nd_inv t'" "nd_view t' = (nd_view t)(k \<mapsto> nd_slot t' p)" by (simp_all add: sl)
  show "nd_item_count t' = nd_item_count t + 1" "nd_used_memory t' = nd_used_memory t" "nd_freed t' = nd_freed t"
    "nd_free_cb t' = nd_free_cb t" "length (nd_directory t') = length (nd_directory t)"
    by (simp_all add: x(4) f st)
qed

lemma nd_insert_returns: "nd_room t k \<Longrightarrow> \<exists>t' r. nd_insert_into_segment ok now t si h k = Some (t', r)"
proof -
  assume "nd_room t k"
  then obtain t1 off where "nd_store_key ok t k = Some (t1, off)" using nd_store_key_spec by blast
  then show ?thesis by (auto simp: nd_insert_into_segment_def split: option.splits prod.splits)
qed

subsection \<open>Doubling the directory\<close>

lemma nd_rehash_step:
  assumes wf: "\<forall>seg \<in> set dir. seg_wf seg" and ne: "dir \<noteq> []"
    and cap: "length (segment_slots (dir ! (unat (sl_key_hash e) mod length dir))) < 224"
  obtains t' seg where "nd_rehash now (t, dir) e = (t', dir[unat (sl_key_hash e) mod length dir := seg])" "seg_wf seg"
    "mset (segment_slots seg) = add_mset e (mset (segment_slots (dir ! (unat (sl_key_hash e) mod length dir))))"
    "nd_directory t' = nd_directory t" "nd_key_pool t' = nd_key_pool t" "nd_key_pool_cap t' = nd_key_pool_cap t" "nd_bloom t' = nd_bloom t"
    "nd_used_memory t' = nd_used_memory t" "nd_freed t' = nd_freed t" "nd_free_cb t' = nd_free_cb t"
    "nd_item_count t' = nd_item_count t + 1"
proof -
  let ?si = "unat (sl_key_hash e) mod length dir"
  have si: "?si < length dir" using ne by simp
  then have wfs: "seg_wf (dir ! ?si)" using wf by simp
  obtain q where fs: "nd_free_slot (dir ! ?si) (bucket_start (sl_key_hash e)) = Some q"
    using cap nd_free_slot_none [of "dir ! ?si"] by (cases "nd_free_slot (dir ! ?si) (bucket_start (sl_key_hash e))") auto
  from nd_free_slot_some [OF fs] have q: "valid_pos q" and free: "\<not> seg_occupied (dir ! ?si) q" by auto
  obtain t1 seg where f0: "nd_fill_slot now t (dir ! ?si) q (sl_key_hash e) 0 0 False = (t1, seg)"
    by (cases "nd_fill_slot now t (dir ! ?si) q (sl_key_hash e) 0 0 False")
  note f = nd_fill_slot_seg [OF wfs q f0]
  let ?seg = "seg_set_slot q e seg"
  have "(seg_slot seg q)\<lparr>sl_key_offset := sl_key_offset e, sl_value_ptr := sl_value_ptr e,
      sl_expire_us32 := sl_expire_us32 e, sl_value_size := sl_value_size e\<rparr> = e"
    by (simp add: f fresh_slot_def)
  then have r: "nd_rehash now (t, dir) e = (t1, dir[?si := ?seg])"
    by (simp add: nd_rehash_def Let_def fs f0)
  note st = seg_set_slot_simps [OF f(1) q, of e]
  have "\<exists>R. mset (segment_slots (dir ! ?si)) = {#} + R \<and> mset (segment_slots ?seg) = {#e#} + R"
    using segment_slots_change [OF q, of ?seg "dir ! ?si"] free f st by simp
  then have "mset (segment_slots ?seg) = add_mset e (mset (segment_slots (dir ! ?si)))" by auto
  with that [OF r st(1)] f show thesis by simp
qed

text \<open>The entries of one segment, seen from the whole directory.\<close>

lemma segment_filter_bound:
  assumes "\<forall>si < length dir. \<forall>sl \<in> set (segment_slots (dir ! si)). g sl = k + si"
  shows "length (filter (\<lambda>sl. g sl = i) (directory_slots dir)) \<le> 224"
  using assms
proof (induction dir arbitrary: k)
  case (Cons a dir)
  have tl: "\<forall>si < length dir. \<forall>sl \<in> set (segment_slots (dir ! si)). g sl = Suc k + si"
    using Cons.prems [rule_format, of "Suc si" for si] by simp
  have hd: "\<forall>sl \<in> set (segment_slots a). g sl = k" using Cons.prems [rule_format, of 0] by simp
  show ?case
  proof (cases "i = k")
    case True
    have "g sl \<noteq> i" if "sl \<in> set (directory_slots dir)" for sl
    proof -
      from that obtain seg where "seg \<in> set dir" "sl \<in> set (segment_slots seg)" by (auto simp: directory_slots_def)
      then obtain si where "si < length dir" "sl \<in> set (segment_slots (dir ! si))" unfolding in_set_conv_nth [of seg] by blast
      with tl True show ?thesis by simp
    qed
    then have "filter (\<lambda>sl. g sl = i) (directory_slots dir) = []" by (simp add: filter_empty_conv)
    moreover have "length (filter (\<lambda>sl. g sl = i) (segment_slots a)) \<le> 224"
      using length_filter_le length_segment_slots le_trans by blast
    ultimately show ?thesis by (simp add: directory_slots_def)
  next
    case False
    then have "filter (\<lambda>sl. g sl = i) (segment_slots a) = []" using hd by (auto simp: filter_empty_conv)
    with Cons.IH [OF tl] show ?thesis by (simp add: directory_slots_def)
  qed
qed (simp add: directory_slots_def)

lemma rehash_room:
  assumes pl: "placed dir" and ne: "dir \<noteq> []" and L: "directory_slots dir = D @ e # R"
  shows "length (filter (\<lambda>sl. unat (sl_key_hash sl) mod (2 * length dir) = unat (sl_key_hash e) mod (2 * length dir)) D) < 224"
proof -
  let ?n = "length dir" and ?P = "\<lambda>sl. unat (sl_key_hash sl) mod (2 * length dir) = unat (sl_key_hash e) mod (2 * length dir)"
  let ?Q = "\<lambda>sl. unat (sl_key_hash sl) mod length dir = unat (sl_key_hash e) mod length dir"
  have m: "x mod (2 * ?n) mod ?n = x mod ?n" for x by (simp add: mod_mod_cancel)
  have PQ: "?P sl \<Longrightarrow> ?Q sl" for sl
    using m [of "unat (sl_key_hash sl)"] m [of "unat (sl_key_hash e)"] by simp
  have "length (filter ?P D) < length (filter ?P (D @ e # R))" by simp
  also have "\<dots> \<le> length (filter ?Q (D @ e # R))"
    by (rule length_filter_mono) (rule PQ)
  also have "\<dots> \<le> 224"
    unfolding L [symmetric] using pl by (intro segment_filter_bound [of _ _ 0]) (simp add: placed_def)
  finally show ?thesis .
qed

lemma rehash_fold:
  assumes pl: "placed dir" and ne: "dir \<noteq> []" and L: "directory_slots dir = D @ R"
  shows "\<exists>t' ndir. foldl (nd_rehash now) (t, replicate (2 * length dir) empty_segment) D = (t', ndir) \<and>
    length ndir = 2 * length dir \<and> (\<forall>seg \<in> set ndir. seg_wf seg) \<and>
    (\<forall>j < 2 * length dir. mset (segment_slots (ndir ! j)) =
       mset (filter (\<lambda>sl. unat (sl_key_hash sl) mod (2 * length dir) = j) D)) \<and>
    nd_directory t' = nd_directory t \<and> nd_key_pool t' = nd_key_pool t \<and> nd_key_pool_cap t' = nd_key_pool_cap t \<and>
    nd_bloom t' = nd_bloom t \<and> nd_used_memory t' = nd_used_memory t \<and> nd_freed t' = nd_freed t \<and>
    nd_free_cb t' = nd_free_cb t \<and> nd_item_count t' = nd_item_count t + of_nat (length D)"
  using L
proof (induction D arbitrary: R rule: rev_induct)
  case Nil
  show ?case by simp
next
  case (snoc e D)
  let ?N = "2 * length dir" and ?j = "unat (sl_key_hash e) mod (2 * length dir)"
  from snoc.prems have L: "directory_slots dir = D @ e # R" by simp
  from snoc.IH [OF L] obtain t1 nd where IH: "foldl (nd_rehash now) (t, replicate ?N empty_segment) D = (t1, nd)"
    "length nd = ?N" "\<forall>seg \<in> set nd. seg_wf seg"
    "\<And>j. j < ?N \<Longrightarrow> mset (segment_slots (nd ! j)) = mset (filter (\<lambda>sl. unat (sl_key_hash sl) mod ?N = j) D)"
    "nd_directory t1 = nd_directory t" "nd_key_pool t1 = nd_key_pool t" "nd_key_pool_cap t1 = nd_key_pool_cap t"
    "nd_bloom t1 = nd_bloom t" "nd_used_memory t1 = nd_used_memory t" "nd_freed t1 = nd_freed t"
    "nd_free_cb t1 = nd_free_cb t" "nd_item_count t1 = nd_item_count t + of_nat (length D)"
    by blast
  have j: "?j < ?N" using ne by simp
  have "length (segment_slots (nd ! ?j)) = length (filter (\<lambda>sl. unat (sl_key_hash sl) mod ?N = ?j) D)"
    using IH(4) [OF j] by (metis size_mset)
  with rehash_room [OF pl ne L] have cap: "length (segment_slots (nd ! (unat (sl_key_hash e) mod length nd))) < 224"
    by (simp add: IH(2))
  have ne': "nd \<noteq> []" using IH(2) ne by auto
  obtain t2 seg where st: "nd_rehash now (t1, nd) e = (t2, nd[?j := seg])" "seg_wf seg"
    "mset (segment_slots seg) = add_mset e (mset (segment_slots (nd ! ?j)))"
    "nd_directory t2 = nd_directory t1" "nd_key_pool t2 = nd_key_pool t1" "nd_key_pool_cap t2 = nd_key_pool_cap t1"
    "nd_bloom t2 = nd_bloom t1" "nd_used_memory t2 = nd_used_memory t1" "nd_freed t2 = nd_freed t1"
    "nd_free_cb t2 = nd_free_cb t1" "nd_item_count t2 = nd_item_count t1 + 1"
    using nd_rehash_step [OF IH(3) ne' cap, of now t1] unfolding IH(2) by blast
  have "\<forall>i < ?N. mset (segment_slots (nd[?j := seg] ! i)) = mset (filter (\<lambda>sl. unat (sl_key_hash sl) mod ?N = i) (D @ [e]))"
    using IH(2,4) st(3) j by (auto simp: nth_list_update)
  moreover have "\<forall>s \<in> set (nd[?j := seg]). seg_wf s"
    using IH(3) st(2) by (auto dest!: subsetD [OF set_update_subset_insert])
  ultimately show ?case using IH st by simp
qed

lemma mset_concat_filter:
  assumes "\<forall>x \<in> set xs. g x < n"
  shows "mset xs = mset (concat (map (\<lambda>j. filter (\<lambda>x. g x = j) xs) [0..<n]))"
proof -
  have "mset (filter (\<lambda>x. g x < m) xs) = mset (concat (map (\<lambda>j. filter (\<lambda>x. g x = j) xs) [0..<m]))" for m
  proof (induction m)
    case (Suc m)
    have "filter_mset (\<lambda>x. g x < Suc m) (mset xs) = filter_mset (\<lambda>x. g x < m) (mset xs) + filter_mset (\<lambda>x. g x = m) (mset xs)"
      by (induction xs) (auto simp: less_Suc_eq)
    with Suc show ?case by simp
  qed simp
  moreover have "filter (\<lambda>x. g x < n) xs = xs" using assms by simp
  ultimately show ?thesis by metis
qed

lemma double_mod:
  assumes "m \<le> 2 * n" "n < (m :: nat)"
  shows "(2 * n) mod m = 2 * n - m"
proof -
  have "(2 * n) mod m = (2 * n - m) mod m" using assms(1) by (rule le_mod_geq)
  also have "\<dots> = 2 * n - m" using assms(2) by (intro mod_less) linarith
  finally show ?thesis .
qed

lemma nd_resize_spec:
  assumes inv: "nd_inv t" and r: "nd_resize ok now t = (t', True)"
  shows "nd_inv t'" "nd_view t' = nd_view t" "nd_entries t' = nd_entries t"
    "length (nd_directory t') = 2 * length (nd_directory t)"
    "nd_item_count t' = nd_item_count t + of_nat (size (nd_entries t))"
    "nd_key_pool t' = nd_key_pool t" "nd_key_pool_cap t' = nd_key_pool_cap t" "nd_used_memory t' = nd_used_memory t"
    "nd_freed t' = nd_freed t" "nd_free_cb t' = nd_free_cb t"
proof -
  let ?dir = "nd_directory t" and ?N = "2 * length (nd_directory t)"
  have sh: "nd_shape t" and pl: "placed ?dir" using inv by (simp_all add: nd_inv_def)
  then have ne: "?dir \<noteq> []" and len: "length ?dir < 2 ^ 32" by (simp_all add: nd_shape_def)
  have u: "unat (of_nat (length ?dir) :: u32) = length ?dir" using len by (intro unat_of_nat_eq) simp
  have g: "of_nat (length ?dir) < (of_nat (length ?dir) * 2 :: u32)" using r by (auto simp: nd_resize_def Let_def split: if_splits)
  then have g': "length ?dir < (2 * length ?dir) mod 2 ^ 32"
    using u by (simp add: word_less_nat_alt unat_word_ariths mult.commute)
  have N32: "?N < 2 ^ 32"
  proof (rule ccontr)
    assume "\<not> ?N < 2 ^ 32"
    then have "2 ^ 32 \<le> 2 * length ?dir" by (simp only: not_less)
    from g' [unfolded double_mod [OF this len]] len show False by linarith
  qed
  then have uN: "unat (of_nat (length ?dir) * 2 :: u32) = ?N" using u by (simp add: unat_word_ariths mult.commute)
  obtain t1 nd where f: "foldl (nd_rehash now) (t, replicate ?N empty_segment) (directory_slots ?dir) = (t1, nd)"
    "length nd = ?N" "\<forall>seg \<in> set nd. seg_wf seg"
    "\<And>j. j < ?N \<Longrightarrow> mset (segment_slots (nd ! j)) = mset (filter (\<lambda>sl. unat (sl_key_hash sl) mod ?N = j) (directory_slots ?dir))"
    "nd_key_pool t1 = nd_key_pool t" "nd_key_pool_cap t1 = nd_key_pool_cap t" "nd_bloom t1 = nd_bloom t"
    "nd_used_memory t1 = nd_used_memory t" "nd_freed t1 = nd_freed t" "nd_free_cb t1 = nd_free_cb t"
    "nd_item_count t1 = nd_item_count t + of_nat (length (directory_slots ?dir))"
    using rehash_fold [OF pl ne, of "directory_slots ?dir" "[]" now t] by auto
  have t': "t' = t1\<lparr>nd_directory := nd, nd_stats := (nd_stats t1)\<lparr>nds_resizes := nds_resizes (nd_stats t1) + 1\<rparr>\<rparr>"
    using r f(1) uN by (auto simp: nd_resize_def Let_def split: if_splits)
  have "map segment_slots nd = map (\<lambda>j. segment_slots (nd ! j)) [0..<?N]"
    using f(2) by (intro nth_equalityI) auto
  then have "mset (directory_slots nd) = mset (concat (map (\<lambda>j. segment_slots (nd ! j)) [0..<?N]))"
    by (simp only: directory_slots_def)
  also have "\<dots> = mset (concat (map (\<lambda>j. filter (\<lambda>sl. unat (sl_key_hash sl) mod ?N = j) (directory_slots ?dir)) [0..<?N]))"
    unfolding mset_concat map_map comp_def
    by (intro arg_cong [of _ _ sum_list] map_cong refl f(4)) simp
  also have "\<dots> = mset (directory_slots ?dir)"
    by (rule mset_concat_filter [symmetric]) (use ne in simp)
  finally show e: "nd_entries t' = nd_entries t" by (simp add: nd_entries_def t')
  have pl': "placed (nd_directory t')"
    using f(2) mset_eq_setD [OF f(4)] by (auto simp: placed_def t')
  have sh': "nd_shape t'" using f(2,3) ne N32 by (auto simp: nd_shape_def t')
  have fields: "nd_key_pool t' = nd_key_pool t" "nd_bloom t' = nd_bloom t" by (simp_all add: t' f)
  from nd_inv_same_entries [OF inv sh' pl' e fields] show "nd_inv t'" "nd_view t' = nd_view t" .
  show "length (nd_directory t') = ?N" "nd_item_count t' = nd_item_count t + of_nat (size (nd_entries t))"
    "nd_key_pool t' = nd_key_pool t" "nd_key_pool_cap t' = nd_key_pool_cap t" "nd_used_memory t' = nd_used_memory t"
    "nd_freed t' = nd_freed t" "nd_free_cb t' = nd_free_cb t"
    by (simp_all add: t' f nd_entries_def)
qed

subsection \<open>Finding a slot\<close>

lemma nd_search_view:
  assumes "nd_inv t" "nd_search t (fnv1a_64 k) k = Some p"
  shows "nd_valid t p" "nd_occupied t p" "nd_view t k = Some (nd_slot t p)" "nd_stored_key t (nd_slot t p) = k"
  using nd_search_some [of t "fnv1a_64 k" k p] assms by (auto simp: nd_inv_def nd_view_def nd_matches_def)

lemma nd_view_None: "nd_search t (fnv1a_64 k) k = None \<longleftrightarrow> nd_view t k = None"
  by (simp add: nd_view_def)

text \<open>The slot of an existing key, or the removal of an expired one.\<close>

lemma nd_find_present:
  assumes "nd_inv t" "nd_view t k = Some sl"
  obtains p where "nd_search t (fnv1a_64 k) k = Some p" "nd_slot t p = sl" "nd_valid t p" "nd_occupied t p"
    "nd_stored_key t sl = k"
    "nd_find_slot ao ro now t k (fnv1a_64 k) create =
       Some (if slot_expired now sl then (nd_remove t p, None) else (t, Some p))"
proof -
  obtain p where p: "nd_search t (fnv1a_64 k) k = Some p" using assms(2) by (auto simp: nd_view_def)
  note v = nd_search_view [OF assms(1) p]
  with assms(2) have "nd_slot t p = sl" by simp
  with p v that show thesis by (auto simp: nd_find_slot_def)
qed

text \<open>The slot made for a new key, with one doubling of the directory where its segment is full.\<close>

lemma nd_find_create:
  assumes inv: "nd_inv t" and k: "k \<noteq> []" "length k \<le> 255" and room: "nd_room t k" and new: "nd_view t k = None"
  obtains t' r where "nd_find_slot ao ro now t k (fnv1a_64 k) True = Some (t', r)" "nd_inv t'"
    "nd_used_memory t' = nd_used_memory t" "nd_freed t' = nd_freed t" "nd_free_cb t' = nd_free_cb t"
    "case r of
       None \<Rightarrow> nd_view t' = nd_view t \<and> nd_entries t' = nd_entries t
     | Some p \<Rightarrow> nd_valid t' p \<and> nd_occupied t' p \<and> nd_stored_key t' (nd_slot t' p) = k \<and>
         (\<exists>off. nd_slot t' p = fresh_slot (fnv1a_64 k) off (of_nat (length k))) \<and>
         nd_view t' = (nd_view t)(k \<mapsto> nd_slot t' p) \<and> nd_entries t' = add_mset (nd_slot t' p) (nd_entries t)"
    "ro \<Longrightarrow> length (segment_slots (nd_directory t ! segment_of t (fnv1a_64 k))) < 224 \<Longrightarrow> r \<noteq> None"
proof -
  let ?h = "fnv1a_64 k"
  have s: "nd_search t ?h k = None" using new by (simp add: nd_view_None)
  obtain t1 r1 where i1: "nd_insert_into_segment ro now t (segment_of t ?h) ?h k = Some (t1, r1)"
    using nd_insert_returns [OF room] by blast
  show thesis
  proof (cases r1)
    case (Some p)
    note n = nd_insert_some [OF inv k room new i1 [unfolded Some]]
    show thesis
      by (rule that [of t1 "Some p"]) (use s i1 n Some in \<open>simp_all add: nd_find_slot_def\<close>)
  next
    case None
    note n = nd_insert_none [OF inv room i1 [unfolded None]]
    obtain t2 ok where r2: "nd_resize ao now t1 = (t2, ok)" by (cases "nd_resize ao now t1")
    show thesis
    proof (cases ok)
      case False
      with r2 have "t2 = t1" by (auto simp: nd_resize_def Let_def split: if_splits prod.splits)
      show thesis
        by (rule that [of t1 None]) (use s i1 n None r2 False \<open>t2 = t1\<close> in \<open>simp_all add: nd_find_slot_def\<close>)
    next
      case True
      with r2 have "nd_resize ao now t1 = (t2, True)" by simp
      note rs = nd_resize_spec [OF n(1) this]
      have room2: "nd_room t2 k" using room n(9,10) rs(6,7) by (simp add: nd_room_def)
      have new2: "nd_view t2 k = None" using new n(2) rs(2) by simp
      obtain t3 r3 where i3: "nd_insert_into_segment ro now t2 (segment_of t2 ?h) ?h k = Some (t3, r3)"
        using nd_insert_returns [OF room2] by blast
      have fs: "nd_find_slot ao ro now t k ?h True = Some (t3, r3)"
        using s i1 None r2 True i3 by (simp add: nd_find_slot_def)
      show thesis
      proof (cases r3)
        case N3: None
        note n3 = nd_insert_none [OF rs(1) room2 i3 [unfolded N3]]
        show thesis
          by (rule that [OF fs]) (use N3 n n3 rs in simp_all)
      next
        case S3: (Some p)
        note n3 = nd_insert_some [OF rs(1) k room2 new2 i3 [unfolded S3]]
        show thesis
          by (rule that [OF fs]) (use S3 n n3 rs in simp_all)
      qed
    qed
  qed
qed

end
