(* ===== verification/Nex_Dash_Props.thy ===== *)
theory Nex_Dash_Props
  imports Nex_Dash_Ops
begin

text \<open>
  The properties of the NexDash operations: the table is a map from keys to values with an expiry
  time, and growing it loses nothing.
\<close>

subsection \<open>Writing a value\<close>

definition slot_value :: "NexDashSlot \<Rightarrow> u64 \<times> u8" where
  "slot_value sl = (TAG_GET_ADDR (sl_value_ptr sl), TAG_GET_TYPE (sl_value_ptr sl))"

text \<open>What a reader sees at a time: the value of a key unless it is absent or has expired.\<close>

definition nd_value :: "NexDashTable \<Rightarrow> u64 \<Rightarrow> bytes \<Rightarrow> (u64 \<times> u8) option" where
  "nd_value t now k =
     (case nd_view t k of None \<Rightarrow> None | Some sl \<Rightarrow> if slot_expired now sl then None else Some (slot_value sl))"

text \<open>The part of \<open>nexdash_set_nolock\<close> after the slot has been found.\<close>

definition nd_write :: "NexDashTable \<Rightarrow> nd_pos \<Rightarrow> bytes \<Rightarrow> u64 \<Rightarrow> u32 \<Rightarrow> u8 \<Rightarrow> u64 \<Rightarrow> NexDashTable" where
  "nd_write t1 p k value value_size type expire_us =
     (let sl = nd_slot t1 p; vp = sl_value_ptr sl; t2 = nd_free t1 sl;
          old_cost = (if TAG_GET_ADDR vp \<noteq> 0 then ucast (sl_value_size sl) + NEXDASH_ENTRY_OVERHEAD else 0);
          t3 = nd_set_slot p (sl\<lparr>sl_value_ptr := TAG_SET_META value (of_nat (length k)) type (TAG_GET_TIER vp) (TAG_GET_VER vp),
                               sl_expire_us32 := encode_expire expire_us, sl_value_size := value_size\<rparr>) t2
      in t3\<lparr>nd_used_memory := (if old_cost < nd_used_memory t3 then nd_used_memory t3 - old_cost else 0)
                               + ucast value_size + NEXDASH_ENTRY_OVERHEAD,
            nd_current_version := nd_current_version t3 + 1,
            nd_stats := (nd_stats t3)\<lparr>nds_sets := nds_sets (nd_stats t3) + 1\<rparr>\<rparr>)"

lemma nexdash_set_write:
  "k \<noteq> [] \<Longrightarrow> nexdash_set_nolock ao ro now t (Some k) value value_size type expire_us =
     (case nd_find_slot ao ro now t k (fnv1a_64 k) True of
        None \<Rightarrow> None
      | Some (t1, None) \<Rightarrow> Some (t1, False)
      | Some (t1, Some p) \<Rightarrow> Some (nd_write t1 p k value value_size type expire_us, True))"
  by (simp add: nexdash_set_nolock_def nd_write_def Let_def split: option.split prod.split)

lemma nd_write_view:
  fixes value_size :: u32 and expire_us :: u64
  assumes inv: "nd_inv t" and v: "nd_valid t p" and occ: "nd_occupied t p" and k: "nd_stored_key t (nd_slot t p) = k"
    and val: "value < 2 ^ 48" "type < 2 ^ 4"
  defines "t' \<equiv> nd_write t p k value value_size type expire_us"
  shows "nd_inv t'"
    and "\<exists>sl R. nd_view t' = (nd_view t)(k \<mapsto> sl) \<and> slot_value sl = (value, type) \<and>
      sl_expire_us32 sl = encode_expire expire_us \<and> sl_value_size sl = value_size \<and>
      TAG_GET_TIER (sl_value_ptr sl) = TAG_GET_TIER (sl_value_ptr (nd_slot t p)) \<and>
      nd_entries t = add_mset (nd_slot t p) R \<and> nd_entries t' = add_mset sl R"
    and "nd_freed t' = nd_freed (nd_free t (nd_slot t p))" and "nd_free_cb t' = nd_free_cb t"
    and "nd_used_memory t' =
      (let old_cost = (if TAG_GET_ADDR (sl_value_ptr (nd_slot t p)) \<noteq> 0
                       then ucast (sl_value_size (nd_slot t p)) + NEXDASH_ENTRY_OVERHEAD else 0)
       in (if old_cost < nd_used_memory t then nd_used_memory t - old_cost else 0) + ucast value_size + NEXDASH_ENTRY_OVERHEAD)"
proof -
  let ?sl = "nd_slot t p"
  let ?vp = "sl_value_ptr ?sl"
  let ?new = "?sl\<lparr>sl_value_ptr := TAG_SET_META value (of_nat (length k)) type (TAG_GET_TIER ?vp) (TAG_GET_VER ?vp),
                  sl_expire_us32 := encode_expire expire_us, sl_value_size := value_size\<rparr>"
  let ?t2 = "nd_free t ?sl"
  note c = nd_inv_cong [of ?t2 t, OF nd_free_fields(1,2,4)]
  have s2: "nd_valid ?t2 p" "nd_occupied ?t2 p" "nd_slot ?t2 p = ?sl"
    using v occ by (simp_all add: nd_valid_def nd_occupied_def nd_slot_def)
  have k2: "nd_stored_key ?t2 = nd_stored_key t" by (rule stored_key_cong) simp
  have "?sl \<in># nd_entries t" using v occ unfolding in_entries by blast
  then have "length k = nd_key_len ?sl" using inv k stored_key_length [of t ?sl] by (auto simp: nd_inv_def)
  then have len: "of_nat (length k) = TAG_GET_LEN ?vp" by (simp add: nd_key_len_def)
  have "tag_ok value type (TAG_GET_TIER ?vp) (TAG_GET_VER ?vp)"
    using val tag_ok_get [of ?vp] by (simp add: tag_ok_def)
  note g = TAG_SET_GET [OF this]
  have same: "sl_key_hash ?new = sl_key_hash (nd_slot ?t2 p)" "sl_key_offset ?new = sl_key_offset (nd_slot ?t2 p)"
    "TAG_GET_LEN (sl_value_ptr ?new) = TAG_GET_LEN (sl_value_ptr (nd_slot ?t2 p))"
    by (simp_all add: s2(3) g len)
  have inv2: "nd_inv ?t2" using inv c by simp
  note w = nd_set_slot_view [OF inv2 s2(1,2) same]
  have sh2: "nd_shape ?t2" using inv2 by (simp add: nd_inv_def)
  note e = nd_set_slot_entries(2) [OF sh2 s2(1,2), of ?new]
  let ?t3 = "nd_set_slot p ?new ?t2"
  have t': "nd_directory t' = nd_directory ?t3" "nd_key_pool t' = nd_key_pool ?t3" "nd_bloom t' = nd_bloom ?t3"
    by (simp_all add: t'_def nd_write_def Let_def)
  note c3 = nd_inv_cong [OF t']
  show "nd_inv t'" using w(1) c3(1) by simp
  show "\<exists>sl R. nd_view t' = (nd_view t)(k \<mapsto> sl) \<and> slot_value sl = (value, type) \<and>
      sl_expire_us32 sl = encode_expire expire_us \<and> sl_value_size sl = value_size \<and>
      TAG_GET_TIER (sl_value_ptr sl) = TAG_GET_TIER (sl_value_ptr (nd_slot t p)) \<and>
      nd_entries t = add_mset (nd_slot t p) R \<and> nd_entries t' = add_mset sl R"
    using w(2) e c c3 by (intro exI [of _ ?new]) (simp add: s2 k2 k slot_value_def g)
  show "nd_freed t' = nd_freed (nd_free t (nd_slot t p))" "nd_free_cb t' = nd_free_cb t"
    by (simp_all add: t'_def nd_write_def Let_def)
  show "nd_used_memory t' =
      (let old_cost = (if TAG_GET_ADDR (sl_value_ptr (nd_slot t p)) \<noteq> 0
                       then ucast (sl_value_size (nd_slot t p)) + NEXDASH_ENTRY_OVERHEAD else 0)
       in (if old_cost < nd_used_memory t then nd_used_memory t - old_cost else 0) + ucast value_size + NEXDASH_ENTRY_OVERHEAD)"
    by (simp add: t'_def nd_write_def Let_def)
qed

subsection \<open>The empty table\<close>

lemma nd_entries_empty: "nd_entries (nexdash_empty n mm bloom) = {#}"
  by (simp add: nd_entries_def nexdash_empty_def directory_slots_def)

lemma nd_inv_empty:
  assumes "0 < n" "n < 2 ^ 32" "case bloom of None \<Rightarrow> True | Some b \<Rightarrow> nexbloom_wf b"
  shows "nd_inv (nexdash_empty n mm bloom)"
  using assms nd_entries_empty [of n mm bloom]
  by (simp add: nd_inv_def nd_shape_def placed_def) (simp add: nexdash_empty_def)

lemma nd_view_empty: "0 < n \<Longrightarrow> n < 2 ^ 32 \<Longrightarrow> nd_view (nexdash_empty n mm None) = Map.empty"
  by (rule nd_view_eqI) (simp_all add: nd_inv_empty nd_entries_empty)

subsection \<open>Set, get and delete\<close>

lemma slot_expired_mono: "slot_expired now sl \<Longrightarrow> now \<le> now' \<Longrightarrow> slot_expired now' sl"
  by (auto simp: slot_expired_def)

lemma set_effect:
  assumes "nd_inv t" and "k \<noteq> []" and "length k \<le> 255" and "nd_room t k" and "value < 2 ^ 48" and "type < 2 ^ 4"
  shows "\<exists>t' ok. nexdash_set_nolock ao ro now t (Some k) value value_size type expire_us = Some (t', ok) \<and> nd_inv t' \<and>
    (ok \<longrightarrow> (\<exists>sl. nd_view t' = (nd_view t)(k \<mapsto> sl) \<and> slot_value sl = (value, type) \<and>
                  sl_expire_us32 sl = encode_expire expire_us)) \<and>
    (\<not> ok \<longrightarrow> (\<forall>now' \<ge> now. nd_value t' now' = nd_value t now')) \<and>
    (nd_value t now k \<noteq> None \<longrightarrow> ok) \<and>
    (nd_view t k = None \<and> ro \<and> length (segment_slots (nd_directory t ! segment_of t (fnv1a_64 k))) < 224 \<longrightarrow> ok)"
proof (cases "nd_view t k")
  case (Some sl)
  obtain p where p: "nd_slot t p = sl" "nd_valid t p" "nd_occupied t p" "nd_stored_key t sl = k"
    "nd_find_slot ao ro now t k (fnv1a_64 k) True = Some (if slot_expired now sl then (nd_remove t p, None) else (t, Some p))"
    using nd_find_present [OF assms(1) Some] by blast
  show ?thesis
  proof (cases "slot_expired now sl")
    case True
    note r = nd_remove_view [OF assms(1) p(2,3)]
    have "nd_value (nd_remove t p) now' = nd_value t now'" if "now \<le> now'" for now'
      using r(2) p(1,4) Some slot_expired_mono [OF True that] by (simp add: nd_value_def fun_eq_iff)
    moreover have "nd_value t now k = None" using Some True by (simp add: nd_value_def)
    ultimately show ?thesis
      using True p(5) r(1) Some
      by (intro exI [of _ "nd_remove t p"] exI [of _ False]) (simp add: nexdash_set_write [OF assms(2)])
  next
    case False
    have "nd_stored_key t (nd_slot t p) = k" using p by simp
    let ?t = "nd_write t p k value value_size type expire_us"
    note w = nd_write_view(1,2) [OF assms(1) p(2,3) \<open>nd_stored_key t (nd_slot t p) = k\<close> assms(5,6), of value_size expire_us]
    from w(2) have "\<exists>sl. nd_view ?t = (nd_view t)(k \<mapsto> sl) \<and> slot_value sl = (value, type) \<and>
        sl_expire_us32 sl = encode_expire expire_us" by blast
    with False p(5) w(1) show ?thesis
      by (intro exI [of _ ?t] exI [of _ True]) (simp add: nexdash_set_write [OF assms(2)])
  qed
next
  case None
  show ?thesis
  proof (rule nd_find_create [OF assms(1-4) None, of ao ro now])
    fix t1 r
    assume f: "nd_find_slot ao ro now t k (fnv1a_64 k) True = Some (t1, r)" "nd_inv t1"
      and sp: "case r of
         None \<Rightarrow> nd_view t1 = nd_view t \<and> nd_entries t1 = nd_entries t
       | Some p \<Rightarrow> nd_valid t1 p \<and> nd_occupied t1 p \<and> nd_stored_key t1 (nd_slot t1 p) = k \<and>
           (\<exists>off. nd_slot t1 p = fresh_slot (fnv1a_64 k) off (of_nat (length k))) \<and>
           nd_view t1 = (nd_view t)(k \<mapsto> nd_slot t1 p) \<and> nd_entries t1 = add_mset (nd_slot t1 p) (nd_entries t)"
      and space: "ro \<Longrightarrow> length (segment_slots (nd_directory t ! segment_of t (fnv1a_64 k))) < 224 \<Longrightarrow> r \<noteq> None"
    have kn: "nd_value t now k = None" using None by (simp add: nd_value_def)
    show ?thesis
    proof (cases r)
      case N: None
      then have "nd_value t1 now' = nd_value t now'" for now' using sp by (simp add: nd_value_def fun_eq_iff)
      moreover have "\<not> (ro \<and> length (segment_slots (nd_directory t ! segment_of t (fnv1a_64 k))) < 224)"
        using space N by blast
      ultimately show ?thesis using f N kn
        by (intro exI [of _ t1] exI [of _ False]) (simp add: nexdash_set_write [OF assms(2)])
    next
      case (Some p)
      with sp have p: "nd_valid t1 p" "nd_occupied t1 p" "nd_stored_key t1 (nd_slot t1 p) = k"
        "nd_view t1 = (nd_view t)(k \<mapsto> nd_slot t1 p)" by simp_all
      let ?t = "nd_write t1 p k value value_size type expire_us"
      note w = nd_write_view(1,2) [OF f(2) p(1-3) assms(5,6), of value_size expire_us]
      from w(2) p(4) have "\<exists>sl. nd_view ?t = (nd_view t)(k \<mapsto> sl) \<and> slot_value sl = (value, type) \<and>
          sl_expire_us32 sl = encode_expire expire_us" by auto
      with Some f(1) w(1) show ?thesis
        by (intro exI [of _ ?t] exI [of _ True]) (simp add: nexdash_set_write [OF assms(2)])
    qed
  qed
qed



subsubsection \<open>Reading\<close>

text \<open>The part of \<open>nexdash_get_nolock\<close> after a live slot has been found.\<close>

definition nd_promote :: "NexDashTable \<Rightarrow> nd_pos \<Rightarrow> bytes \<Rightarrow> NexDashTable" where
  "nd_promote t1 p k =
     (let sl = nd_slot t1 p; vp = sl_value_ptr sl;
          vp' = (if TAG_GET_TIER vp = TIER_PROBATORY
                 then TAG_SET_META (TAG_GET_ADDR vp) (of_nat (length k)) (TAG_GET_TYPE vp) TIER_PROTECTED (TAG_GET_VER vp)
                 else vp);
          t2 = nd_set_slot p (sl\<lparr>sl_value_ptr := vp'\<rparr>) t1
      in t2\<lparr>nd_stats := (nd_stats t2)\<lparr>nds_hits := nds_hits (nd_stats t2) + 1, nds_gets := nds_gets (nd_stats t2) + 1\<rparr>\<rparr>)"

lemma promote_tag:
  "TAG_GET_ADDR (TAG_SET_META (TAG_GET_ADDR vp) len (TAG_GET_TYPE vp) TIER_PROTECTED (TAG_GET_VER vp)) = TAG_GET_ADDR vp"
  "TAG_GET_LEN (TAG_SET_META (TAG_GET_ADDR vp) len (TAG_GET_TYPE vp) TIER_PROTECTED (TAG_GET_VER vp)) = len"
  "TAG_GET_TYPE (TAG_SET_META (TAG_GET_ADDR vp) len (TAG_GET_TYPE vp) TIER_PROTECTED (TAG_GET_VER vp)) = TAG_GET_TYPE vp"
  "TAG_GET_TIER (TAG_SET_META (TAG_GET_ADDR vp) len (TAG_GET_TYPE vp) TIER_PROTECTED (TAG_GET_VER vp)) = TIER_PROTECTED"
proof -
  have "tag_ok (TAG_GET_ADDR vp) (TAG_GET_TYPE vp) TIER_PROTECTED (TAG_GET_VER vp)"
    using tag_ok_get [of vp] by (simp add: tag_ok_def TIER_PROTECTED_def)
  note g = TAG_SET_GET [OF this]
  show "TAG_GET_ADDR (TAG_SET_META (TAG_GET_ADDR vp) len (TAG_GET_TYPE vp) TIER_PROTECTED (TAG_GET_VER vp)) = TAG_GET_ADDR vp"
    "TAG_GET_LEN (TAG_SET_META (TAG_GET_ADDR vp) len (TAG_GET_TYPE vp) TIER_PROTECTED (TAG_GET_VER vp)) = len"
    "TAG_GET_TYPE (TAG_SET_META (TAG_GET_ADDR vp) len (TAG_GET_TYPE vp) TIER_PROTECTED (TAG_GET_VER vp)) = TAG_GET_TYPE vp"
    "TAG_GET_TIER (TAG_SET_META (TAG_GET_ADDR vp) len (TAG_GET_TYPE vp) TIER_PROTECTED (TAG_GET_VER vp)) = TIER_PROTECTED"
    by (simp_all only: g)
qed

lemma nd_promote_view:
  assumes inv: "nd_inv t" and v: "nd_valid t p" and occ: "nd_occupied t p" and k: "nd_stored_key t (nd_slot t p) = k"
  shows "nd_inv (nd_promote t p k)"
    and "\<exists>sl R. nd_view (nd_promote t p k) = (nd_view t)(k \<mapsto> sl) \<and> slot_value sl = slot_value (nd_slot t p) \<and>
      sl_expire_us32 sl = sl_expire_us32 (nd_slot t p) \<and> sl_value_size sl = sl_value_size (nd_slot t p) \<and>
      TAG_GET_TIER (sl_value_ptr sl) \<in> {TAG_GET_TIER (sl_value_ptr (nd_slot t p)), TIER_PROTECTED} \<and>
      nd_entries t = add_mset (nd_slot t p) R \<and> nd_entries (nd_promote t p k) = add_mset sl R"
    and "nd_freed (nd_promote t p k) = nd_freed t" and "nd_free_cb (nd_promote t p k) = nd_free_cb t"
    and "nd_used_memory (nd_promote t p k) = nd_used_memory t"
proof -
  let ?sl = "nd_slot t p"
  let ?vp = "sl_value_ptr ?sl"
  let ?vp' = "if TAG_GET_TIER ?vp = TIER_PROBATORY
              then TAG_SET_META (TAG_GET_ADDR ?vp) (of_nat (length k)) (TAG_GET_TYPE ?vp) TIER_PROTECTED (TAG_GET_VER ?vp) else ?vp"
  let ?new = "?sl\<lparr>sl_value_ptr := ?vp'\<rparr>" and ?t' = "nd_promote t p k"
  have "?sl \<in># nd_entries t" using v occ unfolding in_entries by blast
  then have "length k = nd_key_len ?sl" using inv k stored_key_length [of t ?sl] by (auto simp: nd_inv_def)
  then have len: "of_nat (length k) = TAG_GET_LEN ?vp" by (simp add: nd_key_len_def)
  have sh: "nd_shape t" using inv by (simp add: nd_inv_def)
  note w = nd_set_slot_view [OF inv v occ, of ?new] and e = nd_set_slot_entries(2) [OF sh v occ, of ?new]
  have same: "sl_key_hash ?new = sl_key_hash ?sl" "sl_key_offset ?new = sl_key_offset ?sl"
    "TAG_GET_LEN (sl_value_ptr ?new) = TAG_GET_LEN (sl_value_ptr ?sl)"
    by (simp_all add: promote_tag len)
  have t': "nd_directory ?t' = nd_directory (nd_set_slot p ?new t)" "nd_key_pool ?t' = nd_key_pool (nd_set_slot p ?new t)"
    "nd_bloom ?t' = nd_bloom (nd_set_slot p ?new t)"
    unfolding nd_promote_def Let_def by simp_all
  note c = nd_inv_cong [OF t']
  show "nd_inv ?t'" using w(1) [OF same] c(1) by simp
  show "\<exists>sl R. nd_view ?t' = (nd_view t)(k \<mapsto> sl) \<and> slot_value sl = slot_value ?sl \<and>
      sl_expire_us32 sl = sl_expire_us32 ?sl \<and> sl_value_size sl = sl_value_size ?sl \<and>
      TAG_GET_TIER (sl_value_ptr sl) \<in> {TAG_GET_TIER (sl_value_ptr ?sl), TIER_PROTECTED} \<and>
      nd_entries t = add_mset ?sl R \<and> nd_entries ?t' = add_mset sl R"
    using w(2) [OF same] e c(2,3) k by (intro exI [of _ ?new]) (simp add: slot_value_def promote_tag)
  show "nd_freed ?t' = nd_freed t" "nd_free_cb ?t' = nd_free_cb t" "nd_used_memory ?t' = nd_used_memory t"
    by (simp_all add: nd_promote_def Let_def)
qed

lemma nexdash_get_found:
  assumes inv: "nd_inv t" and k: "nd_view t k = Some sl"
  shows "nexdash_get_nolock now t (Some k) =
     (case nd_find_slot True True now t k (fnv1a_64 k) False of
        Some (t1, Some p) \<Rightarrow> (nd_promote t1 p k, Some (slot_value (nd_slot t1 p)))
      | Some (t1, None) \<Rightarrow> (count_miss t1, None)
      | None \<Rightarrow> (count_miss t, None))"
proof -
  have e: "sl \<in># nd_entries t" "nd_stored_key t sl = k" using k nd_view_iff [OF inv] by auto
  then have "entry_ok t sl" using inv by (simp add: nd_inv_def)
  then have "k \<noteq> []" and "case nd_bloom t of None \<Rightarrow> True | Some b \<Rightarrow> nexbloom_check b (fnv1a_64 k)"
    using e(2) by (auto simp: entry_ok_def split: option.splits)
  then show ?thesis
    by (simp add: nexdash_get_nolock_def nd_promote_def slot_value_def Let_def promote_tag split: option.splits)
qed

lemma nexdash_get_absent:
  assumes "nd_view t k = None"
  shows "nexdash_get_nolock now t (Some k) = (count_miss t, None)"
  using assms [folded nd_view_None] by (simp add: nexdash_get_nolock_def nd_find_slot_def)

lemma count_miss_fields [simp]:
  "nd_inv (count_miss t) = nd_inv t" "nd_view (count_miss t) = nd_view t" "nd_entries (count_miss t) = nd_entries t"
  "nd_freed (count_miss t) = nd_freed t" "nd_free_cb (count_miss t) = nd_free_cb t"
  "nd_used_memory (count_miss t) = nd_used_memory t" "nd_key_pool_cap (count_miss t) = nd_key_pool_cap t"
  using nd_inv_cong [of "count_miss t" t] by (simp_all add: count_miss_def)

lemma get_effect:
  assumes "nd_inv t"
  shows "\<exists>t'. nexdash_get_nolock now t (Some k) = (t', nd_value t now k) \<and> nd_inv t' \<and>
    (\<forall>now' \<ge> now. nd_value t' now' = nd_value t now')"
proof (cases "nd_view t k")
  case None
  then show ?thesis using assms
    by (intro exI [of _ "count_miss t"]) (simp add: nexdash_get_absent nd_value_def fun_eq_iff)
next
  case (Some sl)
  obtain p where p: "nd_slot t p = sl" "nd_valid t p" "nd_occupied t p" "nd_stored_key t sl = k"
    "nd_find_slot True True now t k (fnv1a_64 k) False = Some (if slot_expired now sl then (nd_remove t p, None) else (t, Some p))"
    using nd_find_present [OF assms Some] by blast
  note g = nexdash_get_found [OF assms Some, of now]
  show ?thesis
  proof (cases "slot_expired now sl")
    case True
    note r = nd_remove_view [OF assms p(2,3)]
    have "nd_value (nd_remove t p) now' = nd_value t now'" if "now \<le> now'" for now'
    proof -
      have "slot_expired now' sl" using slot_expired_mono [OF True that] .
      then show ?thesis using r(2) p(1,4) Some by (simp add: nd_value_def fun_eq_iff)
    qed
    moreover have "nd_value t now k = None" using Some True by (simp add: nd_value_def)
    ultimately show ?thesis using r(1) g p(5) True
      by (intro exI [of _ "count_miss (nd_remove t p)"]) (simp add: nd_value_def fun_eq_iff)
  next
    case False
    have kp: "nd_stored_key t (nd_slot t p) = k" using p by simp
    note w = nd_promote_view [OF assms p(2,3) kp]
    obtain sl' where sl': "nd_view (nd_promote t p k) = (nd_view t)(k \<mapsto> sl')" "slot_value sl' = slot_value sl"
      "sl_expire_us32 sl' = sl_expire_us32 sl" using w(2) p(1) by blast
    have "nd_value (nd_promote t p k) now' = nd_value t now'" for now'
      using sl' Some by (simp add: nd_value_def fun_eq_iff slot_expired_def)
    moreover have "nd_value t now k = Some (slot_value sl)" using Some False by (simp add: nd_value_def)
    ultimately show ?thesis using w(1) g p(1,5) False by (intro exI [of _ "nd_promote t p k"]) simp
  qed
qed

text \<open>
  C29. \<open>nexdash_get\<close> answers as the abstract table: it returns the value of a key that is present and
  not expired and nothing otherwise, so the Bloom filter never hides a stored key; a reader at the
  same or a later time sees the same values before and after the call.
\<close>

theorem nexdash_get_spec:
  assumes "nd_inv t"
  shows "\<exists>t'. nexdash_get_nolock now t (Some k) = (t', nd_value t now k) \<and> nd_inv t' \<and>
    (\<forall>now' \<ge> now. nd_value t' now' = nd_value t now')"
  using get_effect [OF assms] .

theorem nexdash_get_spec_witness:
  "\<exists>t'. nexdash_get_nolock 7 (nexdash_empty 4 0 None) (Some [107]) = (t', nd_value (nexdash_empty 4 0 None) 7 [107]) \<and> nd_inv t'"
proof -
  have i: "nd_inv (nexdash_empty 4 0 None)" by (rule nd_inv_empty) simp_all
  show ?thesis using nexdash_get_spec [OF i, of 7 "[107]"] by blast
qed

lemma del_effect:
  assumes "nd_inv t"
  shows "\<exists>t'. nexdash_del t (Some k) = (t', nd_view t k \<noteq> None) \<and> nd_inv t' \<and> nd_view t' = (nd_view t)(k := None)"
proof (cases "nd_search t (fnv1a_64 k) k")
  case None
  then have "nexdash_del t (Some k) = (t, False)" by (simp add: nexdash_del_def)
  with None assms show ?thesis by (simp add: nd_view_None fun_upd_idem)
next
  case (Some p)
  note v = nd_search_view [OF assms Some]
  have "nd_slot t p \<in># nd_entries t" using v unfolding in_entries by blast
  then have k: "k \<noteq> []" using assms v(4) by (auto simp: nd_inv_def entry_ok_def)
  note r = nd_remove_view [OF assms v(1,2)]
  let ?t = "snd (True, (nd_remove t p)\<lparr>nd_current_version := nd_current_version (nd_remove t p) + 1,
       nd_stats := (nd_stats (nd_remove t p))\<lparr>nds_dels := nds_dels (nd_stats (nd_remove t p)) + 1\<rparr>\<rparr>)"
  have "nd_inv ?t = nd_inv (nd_remove t p)" "nd_view ?t = nd_view (nd_remove t p)"
    by (rule nd_inv_cong; simp)+
  moreover have "nexdash_del t (Some k) = (?t, True)" using Some k by (simp add: nexdash_del_def Let_def)
  ultimately show ?thesis using r v(3,4) by (intro exI [of _ ?t]) simp
qed

text \<open>
  C30. \<open>nexdash_del\<close> removes exactly the given key, reports whether it was present, and keeps the
  invariant.
\<close>

theorem nexdash_del_spec:
  assumes "nd_inv t"
  shows "\<exists>t'. nexdash_del t (Some k) = (t', nd_view t k \<noteq> None) \<and> nd_inv t' \<and> nd_view t' = (nd_view t)(k := None)"
  using del_effect [OF assms] .

theorem nexdash_del_spec_witness:
  "\<exists>t'. nexdash_del (nexdash_empty 4 0 None) (Some [107]) = (t', nd_view (nexdash_empty 4 0 None) [107] \<noteq> None) \<and> nd_inv t'"
proof -
  have i: "nd_inv (nexdash_empty 4 0 None)" by (rule nd_inv_empty) simp_all
  show ?thesis using nexdash_del_spec [OF i, of "[107]"] by blast
qed

subsection \<open>Expired keys and growth\<close>

text \<open>
  C31. A set on a key whose entry has expired but not yet been removed fails and loses the write: the
  call removes the old entry, stores nothing and returns 0, whatever room the table has.
\<close>

theorem nexdash_set_expired_key_fails:
  assumes "nd_inv t" and "nd_view t k = Some sl" and "slot_expired now sl"
  shows "\<exists>t'. nexdash_set_nolock ao ro now t (Some k) value value_size type expire_us = Some (t', False) \<and>
    nd_inv t' \<and> nd_view t' = (nd_view t)(k := None)"
proof -
  obtain p where p: "nd_slot t p = sl" "nd_valid t p" "nd_occupied t p" "nd_stored_key t sl = k"
    "nd_find_slot ao ro now t k (fnv1a_64 k) True = Some (if slot_expired now sl then (nd_remove t p, None) else (t, Some p))"
    using nd_find_present [OF assms(1,2)] by blast
  have "sl \<in># nd_entries t" using assms(1,2) nd_view_iff by blast
  then have k: "k \<noteq> []" using assms(1) p(4) by (auto simp: nd_inv_def entry_ok_def)
  show ?thesis using nd_remove_view [OF assms(1) p(2,3)] p(1,4,5) assms(3) by (simp add: nexdash_set_write [OF k])
qed

text \<open>A table holding one key, and the same table with an expiry time that has passed.\<close>

lemma one_key_table:
  obtains t sl where "nd_inv t" "nd_view t = [[107] \<mapsto> sl]" "slot_value sl = (4096, 2)" "sl_expire_us32 sl = encode_expire e"
proof -
  have i: "nd_inv (nexdash_empty 4 0 None)" by (rule nd_inv_empty) simp_all
  have r: "nd_room (nexdash_empty 4 0 None) [107]" by (simp add: nd_room_def nexdash_empty_def)
  have v: "nd_view (nexdash_empty 4 0 None) = Map.empty" by (rule nd_view_empty) simp_all
  have room: "length (segment_slots (nd_directory (nexdash_empty 4 0 None) ! segment_of (nexdash_empty 4 0 None) h)) < 224" for h
    by (simp add: segment_of_def nexdash_empty_def)
  show thesis
  proof (rule nd_find_create [OF i _ _ r, of True True 0])
    fix t p'
    assume "nd_inv t"
      and c: "case p' of
         None \<Rightarrow> nd_view t = nd_view (nexdash_empty 4 0 None) \<and> nd_entries t = nd_entries (nexdash_empty 4 0 None)
       | Some p \<Rightarrow> nd_valid t p \<and> nd_occupied t p \<and> nd_stored_key t (nd_slot t p) = [107] \<and>
           (\<exists>off. nd_slot t p = fresh_slot (fnv1a_64 [107]) off (of_nat (length [107 :: u8]))) \<and>
           nd_view t = (nd_view (nexdash_empty 4 0 None))([107] \<mapsto> nd_slot t p) \<and>
           nd_entries t = add_mset (nd_slot t p) (nd_entries (nexdash_empty 4 0 None))"
      and s: "True \<Longrightarrow> length (segment_slots (nd_directory (nexdash_empty 4 0 None) ! segment_of (nexdash_empty 4 0 None) (fnv1a_64 [107]))) < 224 \<Longrightarrow> p' \<noteq> None"
    from s [OF TrueI room] obtain p where "p' = Some p" by blast
    with c v have p: "nd_valid t p" "nd_occupied t p" "nd_stored_key t (nd_slot t p) = [107]" "nd_view t = [[107] \<mapsto> nd_slot t p]"
      by simp_all
    note w = nd_write_view(1,2) [OF \<open>nd_inv t\<close> p(1-3), of 4096 2 100 e]
    then obtain sl where "nd_inv (nd_write t p [107] 4096 100 2 e)" "nd_view (nd_write t p [107] 4096 100 2 e) = (nd_view t)([107] \<mapsto> sl)"
      "slot_value sl = (4096, 2)" "sl_expire_us32 sl = encode_expire e" by auto
    with p(4) that show thesis by simp
  qed (simp_all add: v)
qed

theorem nexdash_set_expired_key_fails_witness:
  "\<exists>t t'. nexdash_set_nolock True True 2097152 t (Some [107]) 4096 100 2 0 = Some (t', False) \<and> nd_view t [107] \<noteq> None \<and>
     nd_view t' = Map.empty"
proof -
  obtain t sl where t: "nd_inv t" "nd_view t = [[107] \<mapsto> sl]" "sl_expire_us32 sl = encode_expire 1048576"
    using one_key_table by metis
  have "slot_expired 2097152 sl" using t(3) by (simp add: slot_expired_def encode_expire_def decode_expire_def)
  moreover have v: "nd_view t [107] = Some sl" using t(2) by simp
  ultimately obtain t' where "nexdash_set_nolock True True 2097152 t (Some [107]) 4096 100 2 0 = Some (t', False)"
    "nd_view t' = (nd_view t)([107] := None)"
    using nexdash_set_expired_key_fails [OF t(1) v, of 2097152 True True 4096 100 2 0] by blast
  with t(2) v show ?thesis by (intro exI [of _ t] exI [of _ t']) (simp add: fun_eq_iff)
qed

text \<open>
  Doubling the directory keeps every entry: with memory and fewer than 2^31 segments it succeeds,
  the table meets its invariant and maps every key to the same slot, with twice the segments; the
  branch that gives up on an entry is never taken.  The item counter is not reset first, so every
  entry present is counted a second time.
\<close>

lemma nd_resize_keeps_table:
  assumes "nd_inv t" and "length (nd_directory t) < 2 ^ 31"
  shows "\<exists>t'. nd_resize True now t = (t', True) \<and> nd_inv t' \<and> nd_view t' = nd_view t \<and>
    length (nd_directory t') = 2 * length (nd_directory t) \<and>
    nd_item_count t' = nd_item_count t + of_nat (size (nd_entries t))"
proof -
  have ne: "nd_directory t \<noteq> []" using assms(1) by (simp add: nd_inv_def nd_shape_def)
  have u: "unat (of_nat (length (nd_directory t)) :: u32) = length (nd_directory t)"
    using assms(2) by (intro unat_of_nat_eq) simp
  have "unat (of_nat (length (nd_directory t)) * 2 :: u32) = 2 * length (nd_directory t)"
    using assms(2) u by (simp add: unat_word_ariths)
  then have "\<not> (of_nat (length (nd_directory t)) * 2 :: u32) \<le> of_nat (length (nd_directory t))"
    using u ne by (simp add: word_le_nat_alt)
  then have "snd (nd_resize True now t)" by (simp add: nd_resize_def Let_def split: prod.split)
  then obtain t' where r: "nd_resize True now t = (t', True)" by (metis prod.collapse eq_True)
  with nd_resize_spec [OF assms(1) r] show ?thesis by simp
qed

lemma nd_resize_keeps_table_example:
  "\<exists>t'. nd_resize True 0 (nexdash_empty 4 0 None) = (t', True) \<and> nd_view t' = Map.empty \<and> length (nd_directory t') = 8"
proof -
  have i: "nd_inv (nexdash_empty 4 0 None)" by (rule nd_inv_empty) simp_all
  have v: "nd_view (nexdash_empty 4 0 None) = Map.empty" by (rule nd_view_empty) simp_all
  have l: "length (nd_directory (nexdash_empty 4 0 None)) = 4" by (simp add: nexdash_empty_def)
  show ?thesis using nd_resize_keeps_table [OF i, of 0] v l by auto
qed

end
