(* ===== verification/Nex_Dash_Reach.thy ===== *)
theory Nex_Dash_Reach
  imports Nex_Dash_Props
begin

text \<open>
  The states a NexDash table can reach through its operations, with the values its callers have
  handed over as a history: every such value is freed exactly once or still held, the memory counter
  is exact, and eviction meets its target.
\<close>

subsection \<open>Ownership and accounting\<close>

definition slot_addr :: "NexDashSlot \<Rightarrow> u64" where
  "slot_addr sl = TAG_GET_ADDR (sl_value_ptr sl)"

definition slot_cost :: "NexDashSlot \<Rightarrow> nat" where
  "slot_cost sl = unat (sl_value_size sl) + 32"

definition slot_ready :: "NexDashSlot \<Rightarrow> bool" where
  "slot_ready sl \<longleftrightarrow> slot_addr sl \<noteq> 0 \<and> TAG_GET_TYPE (sl_value_ptr sl) \<noteq> NTYPE_DELETED \<and>
     TAG_GET_TIER (sl_value_ptr sl) \<in> {TIER_PROBATORY, TIER_PROTECTED}"

definition nd_cost :: "NexDashTable \<Rightarrow> nat" where
  "nd_cost t = sum_mset (image_mset slot_cost (nd_entries t))"

definition nd_owned :: "u64 multiset \<Rightarrow> NexDashTable \<Rightarrow> bool" where
  "nd_owned H t \<longleftrightarrow> nd_inv t \<and> nd_free_cb t \<and> mset (nd_freed t) + image_mset slot_addr (nd_entries t) = H \<and>
     unat (nd_used_memory t) = nd_cost t \<and> (\<forall>sl \<in># nd_entries t. slot_ready sl)"

lemma unat_cost: "unat (ucast (sl_value_size sl) + NEXDASH_ENTRY_OVERHEAD :: u64) = slot_cost sl"
proof -
  have b: "unat (sl_value_size sl) < 2 ^ 32" using unsigned_less [of "sl_value_size sl", where 'a = nat] by simp
  then have "unat (ucast (sl_value_size sl) :: u64) = unat (sl_value_size sl)" by (simp add: unat_ucast)
  with b show ?thesis by (simp add: unat_word_ariths NEXDASH_ENTRY_OVERHEAD_def slot_cost_def)
qed

lemma unat_sub_or_zero: "unat u = unat (w :: 'a::len word) + r \<Longrightarrow> unat (if w < u then u - w else 0) = r"
  by (auto simp: word_less_nat_alt unat_sub_if')

lemma nd_owned_cong:
  assumes "nd_directory t' = nd_directory t" "nd_key_pool t' = nd_key_pool t" "nd_bloom t' = nd_bloom t"
    "nd_free_cb t' = nd_free_cb t" "nd_freed t' = nd_freed t" "nd_used_memory t' = nd_used_memory t"
  shows "nd_owned H t' = nd_owned H t"
  using nd_inv_cong [OF assms(1-3)] assms by (simp add: nd_owned_def nd_cost_def)

lemma nd_owned_fields [simp]:
  "nd_owned H (t\<lparr>nd_stats := s\<rparr>) = nd_owned H t" "nd_owned H (t\<lparr>nd_current_version := v\<rparr>) = nd_owned H t"
  "nd_owned H (t\<lparr>nd_snapshot_in_progress := b\<rparr>) = nd_owned H t" "nd_owned H (t\<lparr>nd_snapshot_version := v\<rparr>) = nd_owned H t"
  by (rule nd_owned_cong; simp)+

lemma nd_free_ready:
  "nd_free_cb t \<Longrightarrow> slot_ready sl \<Longrightarrow> nd_freed (nd_free t sl) = nd_freed t @ [slot_addr sl]"
  by (simp add: nd_free_def slot_ready_def slot_addr_def Let_def)

text \<open>Removing an entry, and replacing one that keeps its value.\<close>

lemma nd_remove_owned:
  assumes o: "nd_owned H t" and v: "nd_valid t p" and occ: "nd_occupied t p"
  shows "nd_owned H (nd_remove t p)"
proof -
  let ?sl = "nd_slot t p" and ?t = "nd_remove t p"
  have inv: "nd_inv t" and fc: "nd_free_cb t" using o by (simp_all add: nd_owned_def)
  then have e: "nd_entries t = add_mset ?sl (nd_entries ?t)"
    by (intro nd_remove_entries(2) [OF _ v occ]) (simp add: nd_inv_def)
  then have sr: "slot_ready ?sl" and c: "nd_cost t = slot_cost ?sl + nd_cost ?t"
    using o by (simp_all add: nd_owned_def nd_cost_def)
  have "unat (nd_used_memory ?t) = nd_cost ?t"
    using o c unat_cost [of ?sl] unfolding nd_remove_fields Let_def by (intro unat_sub_or_zero) (simp add: nd_owned_def)
  then show ?thesis
    using o e nd_remove_view(1) [OF inv v occ] nd_free_ready [OF fc sr] by (simp add: nd_owned_def)
qed

lemma nd_owned_replace:
  assumes o: "nd_owned H t" and inv: "nd_inv t'" and e: "nd_entries t = add_mset sl R" "nd_entries t' = add_mset sl' R"
    and same: "slot_value sl' = slot_value sl" "sl_value_size sl' = sl_value_size sl"
    and tier: "TAG_GET_TIER (sl_value_ptr sl') \<in> {TAG_GET_TIER (sl_value_ptr sl), TIER_PROTECTED}"
    and f: "nd_freed t' = nd_freed t" "nd_free_cb t' = nd_free_cb t" "nd_used_memory t' = nd_used_memory t"
  shows "nd_owned H t'"
proof -
  have "slot_addr sl' = slot_addr sl" "slot_cost sl' = slot_cost sl" "slot_ready sl \<Longrightarrow> slot_ready sl'"
    using same tier by (auto simp: slot_value_def slot_addr_def slot_cost_def slot_ready_def)
  then show ?thesis using o inv f by (simp add: nd_owned_def nd_cost_def e)
qed

subsection \<open>The operations\<close>

lemma find_slot_owned:
  assumes o: "nd_owned H t" and f: "nd_find_slot ao ro now t k (fnv1a_64 k) False = Some (t', r)"
  shows "nd_owned H t' \<and> (\<forall>p. r = Some p \<longrightarrow> t' = t \<and> nd_valid t p \<and> nd_occupied t p \<and> nd_stored_key t (nd_slot t p) = k)"
proof (cases "nd_search t (fnv1a_64 k) k")
  case None
  with o f show ?thesis by (simp add: nd_find_slot_def)
next
  case (Some p)
  have inv: "nd_inv t" using o by (simp add: nd_owned_def)
  note v = nd_search_view [OF inv Some]
  show ?thesis using Some f o v nd_remove_owned [OF o v(1,2)] by (auto simp: nd_find_slot_def split: if_splits)
qed

lemma get_owned:
  assumes o: "nd_owned H t"
  shows "nd_owned H (fst (nexdash_get_nolock now t key))"
proof -
  have inv: "nd_inv t" using o by (simp add: nd_owned_def)
  have miss: "nd_owned H (count_miss t')" if "nd_owned H t'" for t'
    using that by (simp add: count_miss_def)
  show ?thesis
  proof (cases key)
    case None
    with miss [OF o] show ?thesis by (simp add: nexdash_get_nolock_def)
  next
    case k: (Some k)
    show ?thesis
    proof (cases "nd_view t k")
      case None
      with miss [OF o] k show ?thesis by (simp add: nexdash_get_absent)
    next
      case (Some sl)
      obtain t1 r where f: "nd_find_slot True True now t k (fnv1a_64 k) False = Some (t1, r)"
        using nd_find_present [OF inv Some] by (metis surj_pair)
      note fo = find_slot_owned [OF o f]
      show ?thesis
      proof (cases r)
        case None
        with miss fo k f show ?thesis by (simp add: nexdash_get_found [OF inv Some])
      next
        case p: (Some p)
        with fo have v: "t1 = t" "nd_valid t p" "nd_occupied t p" "nd_stored_key t (nd_slot t p) = k" by auto
        note w = nd_promote_view [OF inv v(2-4)]
        from w(2) obtain sl' R where "nd_entries t = add_mset (nd_slot t p) R" "nd_entries (nd_promote t p k) = add_mset sl' R"
          "slot_value sl' = slot_value (nd_slot t p)" "sl_value_size sl' = sl_value_size (nd_slot t p)"
          "TAG_GET_TIER (sl_value_ptr sl') \<in> {TAG_GET_TIER (sl_value_ptr (nd_slot t p)), TIER_PROTECTED}" by blast
        from nd_owned_replace [OF o w(1) this w(3-5)] show ?thesis
          using k f p v(1) by (simp add: nexdash_get_found [OF inv Some])
      qed
    qed
  qed
qed

lemma del_owned:
  assumes o: "nd_owned H t"
  shows "nd_owned H (fst (nexdash_del t key))"
proof -
  have inv: "nd_inv t" using o by (simp add: nd_owned_def)
  have "nd_owned H (fst (let t1 = nd_remove t p
      in (t1\<lparr>nd_current_version := nd_current_version t1 + 1,
             nd_stats := (nd_stats t1)\<lparr>nds_dels := nds_dels (nd_stats t1) + 1\<rparr>\<rparr>, True)))"
    if "nd_search t (fnv1a_64 k) k = Some p" for k p
  proof -
    note v = nd_search_view(1,2) [OF inv that]
    show ?thesis using nd_remove_owned [OF o v] by (simp add: Let_def)
  qed
  then show ?thesis using o by (auto simp: nexdash_del_def split: option.splits)
qed

lemma expire_owned:
  assumes o: "nd_owned H t"
  shows "nd_owned H (fst (nexdash_expire now t key e))"
proof -
  have inv: "nd_inv t" using o by (simp add: nd_owned_def)
  have "nd_owned H (nd_set_slot p ((nd_slot t p)\<lparr>sl_expire_us32 := x\<rparr>) t)" if v: "nd_valid t p" "nd_occupied t p" for p x
  proof -
    let ?sl = "(nd_slot t p)\<lparr>sl_expire_us32 := x\<rparr>"
    have sh: "nd_shape t" using inv by (simp add: nd_inv_def)
    have i: "nd_inv (nd_set_slot p ?sl t)" by (rule nd_set_slot_view(1) [OF inv v]) simp_all
    obtain R where e: "nd_entries t = add_mset (nd_slot t p) R" "nd_entries (nd_set_slot p ?sl t) = add_mset ?sl R"
      using nd_set_slot_entries(2) [OF sh v] by blast
    show ?thesis by (rule nd_owned_replace [OF o i e]) (simp_all add: slot_value_def)
  qed
  then show ?thesis
    using o find_slot_owned [OF o, of True True now] by (fastforce simp: nexdash_expire_def split: option.splits)
qed

lemma nd_write_owned:
  fixes vsz :: u32 and e :: u64
  assumes inv: "nd_inv t" and v: "nd_valid t p" and occ: "nd_occupied t p" and k: "nd_stored_key t (nd_slot t p) = k"
    and val: "value < 2 ^ 48" "value \<noteq> 0" "type < 2 ^ 4" "type \<noteq> NTYPE_DELETED"
    and ent: "nd_entries t = add_mset (nd_slot t p) R" and rest: "\<forall>sl \<in># R. slot_ready sl"
    and tier: "TAG_GET_TIER (sl_value_ptr (nd_slot t p)) \<in> {TIER_PROBATORY, TIER_PROTECTED}" and cb: "nd_free_cb t"
    and fr: "mset (nd_freed (nd_free t (nd_slot t p))) + image_mset slot_addr R = H"
    and used: "unat (nd_used_memory t) = (if slot_addr (nd_slot t p) \<noteq> 0 then slot_cost (nd_slot t p) else 0) + sum_mset (image_mset slot_cost R)"
    and mem: "sum_mset (image_mset slot_cost R) + unat vsz + 32 < 2 ^ 64"
  shows "nd_owned (add_mset value H) (nd_write t p k value vsz type e)"
proof -
  let ?t = "nd_write t p k value vsz type e" and ?sl = "nd_slot t p"
  note w = nd_write_view [OF inv v occ k val(1,3), of vsz e]
  from w(2) obtain sl where sl: "slot_value sl = (value, type)" "sl_value_size sl = vsz"
    "TAG_GET_TIER (sl_value_ptr sl) = TAG_GET_TIER (sl_value_ptr ?sl)" "nd_entries ?t = add_mset sl R"
    using ent by auto
  have ready: "slot_ready sl" "slot_addr sl = value"
    using sl(1,3) val tier by (auto simp: slot_ready_def slot_value_def slot_addr_def)
  let ?old = "if TAG_GET_ADDR (sl_value_ptr ?sl) \<noteq> 0 then ucast (sl_value_size ?sl) + NEXDASH_ENTRY_OVERHEAD else 0 :: u64"
  have old: "unat ?old = (if slot_addr ?sl \<noteq> 0 then slot_cost ?sl else 0)"
    using unat_cost [of ?sl] by (simp add: slot_addr_def)
  have "unat (if ?old < nd_used_memory t then nd_used_memory t - ?old else 0) = sum_mset (image_mset slot_cost R)"
    using used old by (intro unat_sub_or_zero) simp
  then have "unat (nd_used_memory ?t) = slot_cost sl + sum_mset (image_mset slot_cost R)"
    using mem unat_cost [of sl] unfolding w(5) Let_def by (simp add: sl(2) unat_word_ariths slot_cost_def add.assoc)
  with w(1,3,4) sl(4) ready rest cb fr show ?thesis by (auto simp: nd_owned_def nd_cost_def)
qed

lemma set_owned:
  assumes o: "nd_owned H t" and k: "k \<noteq> []" "length k \<le> 255" and room: "nd_room t k"
    and val: "value < 2 ^ 48" "value \<noteq> 0" "type < 2 ^ 4" "type \<noteq> NTYPE_DELETED" and mem: "nd_cost t + unat vsz + 32 < 2 ^ 64"
    and s: "nexdash_set_nolock ao ro now t (Some k) value vsz type e = Some (t', ok)"
  shows "nd_owned (if ok then add_mset value H else H) t'"
proof -
  have inv: "nd_inv t" and cb: "nd_free_cb t" using o by (simp_all add: nd_owned_def)
  show ?thesis
  proof (cases "nd_view t k")
    case (Some sl)
    obtain p where p: "nd_slot t p = sl" "nd_valid t p" "nd_occupied t p" "nd_stored_key t (nd_slot t p) = k"
      "nd_find_slot ao ro now t k (fnv1a_64 k) True = Some (if slot_expired now sl then (nd_remove t p, None) else (t, Some p))"
      using nd_find_present [OF inv Some] by blast
    obtain R where R: "nd_entries t = add_mset (nd_slot t p) R"
      using nd_remove_entries(2) [OF _ p(2,3)] inv by (auto simp: nd_inv_def)
    have r: "slot_ready (nd_slot t p)" "\<forall>sl \<in># R. slot_ready sl" using o R by (simp_all add: nd_owned_def)
    have "nd_owned (add_mset value H) (nd_write t p k value vsz type e)"
      using o r R mem nd_free_ready [OF cb r(1)]
      by (intro nd_write_owned [OF inv p(2-4) val R r(2) _ cb]) (auto simp: nd_owned_def nd_cost_def slot_ready_def)
    then show ?thesis
      using s p(5) nd_remove_owned [OF o p(2,3)] by (auto simp: nexdash_set_write [OF k(1)] split: if_splits)
  next
    case None
    show ?thesis
    proof (rule nd_find_create [OF inv k room None, of ao ro now])
      fix t1 r
      assume f: "nd_find_slot ao ro now t k (fnv1a_64 k) True = Some (t1, r)" "nd_inv t1"
        and same: "nd_used_memory t1 = nd_used_memory t" "nd_freed t1 = nd_freed t" "nd_free_cb t1 = nd_free_cb t"
        and sp: "case r of
           None \<Rightarrow> nd_view t1 = nd_view t \<and> nd_entries t1 = nd_entries t
         | Some p \<Rightarrow> nd_valid t1 p \<and> nd_occupied t1 p \<and> nd_stored_key t1 (nd_slot t1 p) = k \<and>
             (\<exists>off. nd_slot t1 p = fresh_slot (fnv1a_64 k) off (of_nat (length k))) \<and>
             nd_view t1 = (nd_view t)(k \<mapsto> nd_slot t1 p) \<and> nd_entries t1 = add_mset (nd_slot t1 p) (nd_entries t)"
      show ?thesis
      proof (cases r)
        case None
        with sp f same s o show ?thesis by (auto simp: nexdash_set_write [OF k(1)] nd_owned_def nd_cost_def)
      next
        case (Some p)
        with sp have p: "nd_valid t1 p" "nd_occupied t1 p" "nd_stored_key t1 (nd_slot t1 p) = k"
          "nd_entries t1 = add_mset (nd_slot t1 p) (nd_entries t)"
          and fresh: "\<exists>off. nd_slot t1 p = fresh_slot (fnv1a_64 k) off (of_nat (length k))" by simp_all
        have "tag_ok 0 NTYPE_STRING TIER_PROBATORY 0" by (simp add: tag_ok_def NTYPE_STRING_def TIER_PROBATORY_def)
        note g = TAG_SET_GET [OF this]
        have z: "slot_addr (nd_slot t1 p) = 0" "TAG_GET_TIER (sl_value_ptr (nd_slot t1 p)) = TIER_PROBATORY"
          "nd_freed (nd_free t1 (nd_slot t1 p)) = nd_freed t1"
          using fresh by (auto simp: slot_addr_def fresh_slot_def g nd_free_def)
        have "nd_owned (add_mset value H) (nd_write t1 p k value vsz type e)"
          using o mem z same cb
          by (intro nd_write_owned [OF f(2) p(1-3) val p(4)]) (auto simp: nd_owned_def nd_cost_def)
        with Some f s show ?thesis by (simp add: nexdash_set_write [OF k(1)])
      qed
    qed
  qed
qed

subsection \<open>Passes over the table\<close>

lemma table_positions_valid: "p \<in> set (table_positions t) \<longleftrightarrow> nd_valid t p"
  by (cases p) (auto simp: table_positions_def nd_valid_def set_probe_order)

lemma nd_valid_length: "length (nd_directory t') = length (nd_directory t) \<Longrightarrow> nd_valid t' = nd_valid t"
  by (simp add: nd_valid_def fun_eq_iff)

lemma scan_expired_owned:
  assumes o: "nd_owned H t"
  shows "nd_owned H (fst (nexdash_scan_expired now t))"
proof -
  let ?f = "\<lambda>(t, calls) p.
              if nd_occupied t p \<and> slot_expired now (nd_slot t p)
              then let t1 = nd_remove t p
                   in (t1\<lparr>nd_stats := (nd_stats t1)\<lparr>nds_dels := nds_dels (nd_stats t1) + 1\<rparr>\<rparr>, calls @ [nd_report t (nd_slot t p)])
              else (t, calls)"
  have step: "nd_owned H (fst (?f tc p)) \<and> length (nd_directory (fst (?f tc p))) = length (nd_directory t)"
    if "nd_owned H (fst tc)" "length (nd_directory (fst tc)) = length (nd_directory t)" "nd_valid t p" for tc p
  proof -
    obtain t0 c where tc: "tc = (t0, c)" by (cases tc)
    have v: "nd_valid t0 p" using that(2,3) nd_valid_length by (metis fst_conv tc)
    show ?thesis
    proof (cases "nd_occupied t0 p \<and> slot_expired now (nd_slot t0 p)")
      case True
      then have "nd_owned H (nd_remove t0 p)" using nd_remove_owned [OF _ v] that(1) tc by simp
      then show ?thesis using True that(2) unfolding tc by (simp add: Let_def)
    qed (use that tc in auto)
  qed
  have "nd_owned H (fst (foldl ?f tc ps)) \<and> length (nd_directory (fst (foldl ?f tc ps))) = length (nd_directory t)"
    if "\<forall>p \<in> set ps. nd_valid t p" "nd_owned H (fst tc)" "length (nd_directory (fst tc)) = length (nd_directory t)" for ps tc
    using that
  proof (induction ps arbitrary: tc)
    case (Cons p ps)
    with step [of tc p] show ?case by simp
  qed simp
  then show ?thesis using o by (auto simp: nexdash_scan_expired_def table_positions_valid)
qed

text \<open>One pass of the eviction: what it keeps and what it has cleared when it does not reach the target.\<close>

definition tier_entries :: "u8 \<Rightarrow> NexDashTable \<Rightarrow> NexDashSlot multiset" where
  "tier_entries tier t = {#sl \<in># nd_entries t. TAG_GET_TIER (sl_value_ptr sl) = tier#}"

definition evict_inv :: "u64 multiset \<Rightarrow> u8 \<Rightarrow> NexDashTable \<Rightarrow> nat \<Rightarrow> NexDashTable \<times> nat \<Rightarrow> bool" where
  "evict_inv H want t n tn \<longleftrightarrow>
     nd_owned H (fst tn) \<and> length (nd_directory (fst tn)) = length (nd_directory t) \<and>
     nd_entries (fst tn) \<subseteq># nd_entries t \<and> size (nd_entries (fst tn)) + snd tn = size (nd_entries t) + n \<and>
     (\<forall>tier. tier \<noteq> want \<longrightarrow> tier_entries tier (fst tn) = tier_entries tier t)"

lemma evict_step_inv:
  assumes e: "evict_inv H want t n tn" and v: "nd_valid t p"
  shows "evict_inv H want t n (evict_step want target tn p)"
    and "nd_used_memory (fst (evict_step want target tn p)) \<le> target \<or>
      (\<not> (nd_occupied (fst (evict_step want target tn p)) p \<and>
          TAG_GET_TIER (sl_value_ptr (nd_slot (fst (evict_step want target tn p)) p)) = want) \<and> target < nd_used_memory (fst tn))"
    and "\<And>r. nd_valid t r \<Longrightarrow> nd_occupied (fst (evict_step want target tn p)) r \<Longrightarrow>
      nd_occupied (fst tn) r \<and> nd_slot (fst (evict_step want target tn p)) r = nd_slot (fst tn) r"
proof -
  obtain t0 m where tn: "tn = (t0, m)" by (cases tn)
  have o: "nd_owned H t0" and len: "length (nd_directory t0) = length (nd_directory t)"
    using e by (simp_all add: evict_inv_def tn)
  have v0: "nd_valid t0 p" using v nd_valid_length [OF len] by simp
  have sh: "nd_shape t0" using o by (simp add: nd_owned_def nd_inv_def)
  let ?hit = "\<not> nd_used_memory t0 \<le> target \<and> nd_occupied t0 p \<and> TAG_GET_TIER (sl_value_ptr (nd_slot t0 p)) = want"
  let ?t1 = "fst (evict_step want target tn p)"
  have miss: "\<not> ?hit \<Longrightarrow> evict_step want target tn p = tn" by (auto simp: evict_step_def tn)
  have hit: "snd (evict_step want target tn p) = m + 1"
    "nd_directory ?t1 = nd_directory (nd_remove t0 p)" "nd_owned H ?t1 = nd_owned H (nd_remove t0 p)"
    "nd_entries ?t1 = nd_entries (nd_remove t0 p)" if ?hit
    using that by (auto simp: evict_step_def tn Let_def nd_entries_def)
  note c = nd_remove_entries [OF sh v0]
  show "evict_inv H want t n (evict_step want target tn p)"
  proof (cases ?hit)
    case True
    then have ent: "nd_entries t0 = add_mset (nd_slot t0 p) (nd_entries ?t1)" using c(2) hit(4) by simp
    then have "nd_entries ?t1 \<subseteq># nd_entries t0" by simp
    then have "nd_entries ?t1 \<subseteq># nd_entries t" by (rule subset_mset.order_trans) (use e in \<open>simp add: evict_inv_def tn\<close>)
    moreover have "size (nd_entries ?t1) + (m + 1) = size (nd_entries t) + n" using e ent by (simp add: evict_inv_def tn)
    moreover have "tier_entries tier ?t1 = tier_entries tier t0" if "tier \<noteq> want" for tier
      using that True unfolding tier_entries_def ent by auto
    ultimately show ?thesis
      using e hit(1) hit(2,3) True nd_remove_owned [OF o v0] len by (simp add: evict_inv_def tn)
  qed (use miss e in simp)
  show "nd_used_memory ?t1 \<le> target \<or>
      (\<not> (nd_occupied ?t1 p \<and> TAG_GET_TIER (sl_value_ptr (nd_slot ?t1 p)) = want) \<and> target < nd_used_memory (fst tn))"
  proof (cases ?hit)
    case True
    then have "\<not> nd_occupied ?t1 p" using c(4) hit(2) by (simp add: nd_occupied_def)
    with True show ?thesis by (simp add: tn not_le)
  qed (use miss in \<open>auto simp: tn\<close>)
  show "nd_occupied (fst tn) r \<and> nd_slot ?t1 r = nd_slot (fst tn) r" if r: "nd_valid t r" "nd_occupied ?t1 r" for r
  proof (cases ?hit)
    case True
    then have eq: "nd_occupied ?t1 = nd_occupied (nd_remove t0 p)" "nd_slot ?t1 = nd_slot (nd_remove t0 p)"
      using hit(2) by (simp_all add: nd_occupied_def nd_slot_def fun_eq_iff)
    then have "r \<noteq> p" using r(2) c(4) True by auto
    then show ?thesis using c(5) [of r] r eq True nd_valid_length [OF len] by (simp add: tn)
  qed (use miss r in simp)
qed

lemma evict_pass:
  fixes want :: u8 and target :: u64 and n :: nat
  assumes "nd_owned H t" and "\<forall>p \<in> set ps. nd_valid t p"
  defines "tn \<equiv> foldl (evict_step want target) (t, n) ps"
  shows "evict_inv H want t n tn" and "nd_used_memory (fst tn) \<le> target \<or>
    (\<forall>p \<in> set ps. \<not> (nd_occupied (fst tn) p \<and> TAG_GET_TIER (sl_value_ptr (nd_slot (fst tn) p)) = want))"
    and "nd_used_memory t \<le> target \<Longrightarrow> tn = (t, n)"
proof -
  have main: "evict_inv H want t n (foldl (evict_step want target) (t, n) qs) \<and>
      (nd_used_memory (fst (foldl (evict_step want target) (t, n) qs)) \<le> target \<or>
       (\<forall>p \<in> set qs. \<not> (nd_occupied (fst (foldl (evict_step want target) (t, n) qs)) p \<and>
          TAG_GET_TIER (sl_value_ptr (nd_slot (fst (foldl (evict_step want target) (t, n) qs)) p)) = want)))"
    if "\<forall>p \<in> set qs. nd_valid t p" for qs
    using that
  proof (induction qs rule: rev_induct)
    case Nil
    show ?case using assms(1) by (simp add: evict_inv_def)
  next
    case (snoc q qs)
    let ?a = "foldl (evict_step want target) (t, n) qs"
    have i: "evict_inv H want t n ?a" and v: "nd_valid t q"
      and ih: "nd_used_memory (fst ?a) \<le> target \<or>
        (\<forall>p \<in> set qs. \<not> (nd_occupied (fst ?a) p \<and> TAG_GET_TIER (sl_value_ptr (nd_slot (fst ?a) p)) = want))"
      using snoc by simp_all
    note st = evict_step_inv [OF i v, where target = target]
    let ?b = "evict_step want target ?a q"
    have "nd_used_memory (fst ?b) \<le> target \<or>
        (\<forall>p \<in> set (qs @ [q]). \<not> (nd_occupied (fst ?b) p \<and> TAG_GET_TIER (sl_value_ptr (nd_slot (fst ?b) p)) = want))"
    proof (rule disjCI)
      assume "\<not> (\<forall>p \<in> set (qs @ [q]). \<not> (nd_occupied (fst ?b) p \<and> TAG_GET_TIER (sl_value_ptr (nd_slot (fst ?b) p)) = want))"
      then obtain p where p: "p \<in> set (qs @ [q])" "nd_occupied (fst ?b) p" "TAG_GET_TIER (sl_value_ptr (nd_slot (fst ?b) p)) = want"
        by blast
      show "nd_used_memory (fst ?b) \<le> target"
      proof (cases "p = q")
        case True
        with st(2) p(2,3) show ?thesis by blast
      next
        case False
        with p(1) have q: "p \<in> set qs" by simp
        have "nd_valid t p" using snoc.prems q by simp
        note r = st(3) [OF this p(2)]
        then have "nd_occupied (fst ?a) p \<and> TAG_GET_TIER (sl_value_ptr (nd_slot (fst ?a) p)) = want" using p(3) by metis
        then have "nd_used_memory (fst ?a) \<le> target" using ih q by blast
        then show ?thesis using st(2) by (meson leD)
      qed
    qed
    with st(1) show ?case by simp
  qed
  show "evict_inv H want t n tn" and "nd_used_memory (fst tn) \<le> target \<or>
    (\<forall>p \<in> set ps. \<not> (nd_occupied (fst tn) p \<and> TAG_GET_TIER (sl_value_ptr (nd_slot (fst tn) p)) = want))"
    using main [OF assms(2)] unfolding tn_def by blast+
  show "tn = (t, n)" if "nd_used_memory t \<le> target"
    unfolding tn_def by (induction ps) (simp_all add: evict_step_def that)
qed

lemma evict_pass_empty:
  assumes "\<forall>p. nd_valid t p \<longrightarrow> \<not> (nd_occupied t p \<and> TAG_GET_TIER (sl_value_ptr (nd_slot t p)) = want)"
  shows "tier_entries want t = {#}"
  using assms by (auto simp: tier_entries_def filter_mset_eq_mempty_iff in_entries)

lemma tier_cover:
  assumes "nd_owned H t" "tier_entries TIER_PROBATORY t = {#}" "tier_entries TIER_PROTECTED t = {#}"
  shows "nd_used_memory t = 0"
proof -
  have "sl \<notin># nd_entries t" for sl
    using assms by (auto simp: nd_owned_def slot_ready_def tier_entries_def filter_mset_eq_mempty_iff)
  then have "nd_entries t = {#}" by (meson multiset_nonemptyE)
  then show ?thesis using assms(1) by (simp add: nd_owned_def nd_cost_def unat_eq_zero)
qed

lemma evict_owned:
  fixes target :: u64
  assumes o: "nd_owned H t"
  defines "tn \<equiv> nexdash_evict_to_target t target"
  shows "nd_owned H (fst tn)" and "nd_used_memory (fst tn) \<le> target" and "nd_entries (fst tn) \<subseteq># nd_entries t"
    and "size (nd_entries (fst tn)) + snd tn = size (nd_entries t)"
    and "tier_entries TIER_PROTECTED (fst tn) = tier_entries TIER_PROTECTED t \<or> tier_entries TIER_PROBATORY (fst tn) = {#}"
proof -
  obtain t1 n1 where p1: "foldl (evict_step TIER_PROBATORY target) (t, 0) (table_positions t) = (t1, n1)" by fastforce
  have tn: "tn = foldl (evict_step TIER_PROTECTED target) (t1, n1) (table_positions t1)"
    by (simp add: tn_def nexdash_evict_to_target_def p1)
  have v: "\<forall>p \<in> set (table_positions t). nd_valid t p" for t by (simp add: table_positions_valid)
  note a = evict_pass [OF o v, where want = TIER_PROBATORY and target = target and n = 0, unfolded p1]
  have o1: "nd_owned H t1" using a(1) by (simp add: evict_inv_def)
  note b = evict_pass [OF o1 v, where want = TIER_PROTECTED and target = target and n = n1, folded tn]
  have dir: "nd_valid t1 = nd_valid t" "nd_valid (fst tn) = nd_valid t1"
    using a(1) b(1) by (auto simp: evict_inv_def intro!: nd_valid_length)
  have ne: "TIER_PROBATORY \<noteq> TIER_PROTECTED" by (simp add: TIER_PROBATORY_def TIER_PROTECTED_def)
  show o2: "nd_owned H (fst tn)" using b(1) by (simp add: evict_inv_def)
  show "nd_entries (fst tn) \<subseteq># nd_entries t"
    using a(1) b(1) by (auto simp: evict_inv_def intro: subset_mset.order_trans)
  show "size (nd_entries (fst tn)) + snd tn = size (nd_entries t)" using a(1) b(1) by (simp add: evict_inv_def)
  have prob: "nd_used_memory t1 \<le> target \<or> tier_entries TIER_PROBATORY t1 = {#}"
    using a(2) by (auto simp: table_positions_valid dir(1) intro!: evict_pass_empty)
  have same: "tier_entries TIER_PROBATORY (fst tn) = tier_entries TIER_PROBATORY t1" using b(1) ne by (simp add: evict_inv_def)
  have "tier_entries TIER_PROTECTED t1 = tier_entries TIER_PROTECTED t" using a(1) ne by (simp add: evict_inv_def)
  with prob same b(3)
  show "tier_entries TIER_PROTECTED (fst tn) = tier_entries TIER_PROTECTED t \<or> tier_entries TIER_PROBATORY (fst tn) = {#}" by auto
  have "nd_used_memory (fst tn) \<le> target \<or> tier_entries TIER_PROTECTED (fst tn) = {#}"
    using b(2) by (auto simp: table_positions_valid dir(2) intro!: evict_pass_empty)
  with prob same b(3) tier_cover [OF o2] show "nd_used_memory (fst tn) \<le> target" by auto
qed


subsection \<open>Reachable tables\<close>

text \<open>
  The life of a table whose owner installs a free callback: created, then driven by any sequence of
  calls at any times and with any allocation outcomes.  The history collects the addresses of the
  values whose set succeeded.  A set hands over a value at a 48-bit address other than 0 with a type
  other than \<open>NTYPE_DELETED\<close>, under a key of 1 to 255 bytes for which the pool has 32-bit room.
\<close>

inductive nd_run :: "NexDashTable \<Rightarrow> u64 multiset \<Rightarrow> bool" where
  create: "nexdash_create fuel True segs max_memory bloom = Some (Some t) \<Longrightarrow>
     (case bloom of None \<Rightarrow> True | Some b \<Rightarrow> nexbloom_wf b) \<Longrightarrow> nd_run (nexdash_set_free_cb t True) {#}"
| set: "nd_run t H \<Longrightarrow> k \<noteq> [] \<Longrightarrow> length k \<le> 255 \<Longrightarrow> nd_room t k \<Longrightarrow> value < 2 ^ 48 \<Longrightarrow> value \<noteq> 0 \<Longrightarrow>
     type < 2 ^ 4 \<Longrightarrow> type \<noteq> NTYPE_DELETED \<Longrightarrow> nd_cost t + unat vsz + 32 < 2 ^ 64 \<Longrightarrow>
     nexdash_set_nolock ao ro now t (Some k) value vsz type e = Some (t', ok) \<Longrightarrow>
     nd_run t' (if ok then add_mset value H else H)"
| get: "nd_run t H \<Longrightarrow> nd_run (fst (nexdash_get_nolock now t key)) H"
| del: "nd_run t H \<Longrightarrow> nd_run (fst (nexdash_del t key)) H"
| expire: "nd_run t H \<Longrightarrow> nd_run (fst (nexdash_expire now t key e)) H"
| scan_expired: "nd_run t H \<Longrightarrow> nd_run (fst (nexdash_scan_expired now t)) H"
| evict: "nd_run t H \<Longrightarrow> nd_run (fst (nexdash_evict_to_target t target)) H"
| snapshot_start: "nd_run t H \<Longrightarrow> nd_run (nexdash_snapshot_start t) H"
| snapshot_end: "nd_run t H \<Longrightarrow> nd_run (nexdash_snapshot_end t) H"

lemma nexdash_nsegs_nonzero:
  "nexdash_nsegs fuel n initial = Some r \<Longrightarrow> (n = 0 \<Longrightarrow> 0 < initial) \<Longrightarrow> r \<noteq> 0"
proof (induction fuel arbitrary: n)
  case (Suc fuel)
  show ?case
  proof (cases "ucast n < initial")
    case True
    then have "0 < initial" using word_neq_0_conv by fastforce
    with Suc.IH [of "push_bit 1 n"] Suc.prems True show ?thesis by simp
  qed (use Suc.prems in auto)
qed simp

lemma create_owned:
  assumes c: "nexdash_create fuel True segs max_memory bloom = Some (Some t)"
    and b: "case bloom of None \<Rightarrow> True | Some b \<Rightarrow> nexbloom_wf b"
  shows "nd_owned {#} (nexdash_set_free_cb t True)"
proof -
  obtain n where n: "nexdash_nsegs fuel 4 segs = Some n" and t: "t = nexdash_empty (unat n) max_memory bloom"
    using c by (auto simp: nexdash_create_def split: option.splits)
  have "n \<noteq> 0" by (rule nexdash_nsegs_nonzero [OF n]) simp
  then have "0 < unat n" by (simp add: unat_gt_0)
  moreover have "unat n < 2 ^ 32" using unsigned_less [of n, where 'a = nat] by simp
  ultimately have "nd_inv t" unfolding t by (rule nd_inv_empty [OF _ _ b])
  moreover have "nd_inv (nexdash_set_free_cb t True) = nd_inv t" "nd_entries (nexdash_set_free_cb t True) = nd_entries t"
    by (rule nd_inv_cong; simp add: nexdash_set_free_cb_def)+
  ultimately show ?thesis
    using nd_entries_empty [of "unat n" max_memory bloom]
    by (simp add: nd_owned_def nd_cost_def t) (simp add: nexdash_set_free_cb_def nexdash_empty_def)
qed

lemma nd_run_owned: "nd_run t H \<Longrightarrow> nd_owned H t"
proof (induction rule: nd_run.induct)
  case create then show ?case by (rule create_owned)
next
  case set then show ?case by (intro set_owned)
next
  case (snapshot_start t H) then show ?case by (simp add: nexdash_snapshot_start_def)
next
  case (snapshot_end t H) then show ?case by (simp add: nexdash_snapshot_end_def)
qed (rule get_owned del_owned expire_owned scan_expired_owned evict_owned(1); assumption)+

text \<open>A run that stores one value.\<close>

lemma one_value_run: "\<exists>t. nd_run t {#4096#} \<and> nd_freed t = []"
proof -
  let ?t = "nexdash_set_free_cb (nexdash_empty 4 0 None) True"
  have "nexdash_create 1 True 0 0 None = Some (Some (nexdash_empty 4 0 None))" by (simp add: nexdash_create_def)
  then have run: "nd_run ?t {#}" using nd_run.create [of 1 0 0 None] by simp
  have o: "nd_owned {#} ?t" by (rule nd_run_owned [OF run])
  have inv: "nd_inv ?t" using o by (simp add: nd_owned_def)
  have e: "nd_entries ?t = {#}" using nd_inv_cong(3) [of ?t "nexdash_empty 4 0 None"] nd_entries_empty
    by (simp add: nexdash_set_free_cb_def)
  have v: "nd_view ?t [107] = None"
    using nd_view_iff [OF inv, of "[107]"] e by (cases "nd_view ?t [107]") auto
  have r: "nd_room ?t [107]" by (simp add: nd_room_def nexdash_empty_def nexdash_set_free_cb_def)
  have room: "length (segment_slots (nd_directory ?t ! segment_of ?t h)) < 224" for h
    by (simp add: segment_of_def nexdash_empty_def nexdash_set_free_cb_def)
  show ?thesis
  proof (rule nd_find_create [OF inv _ _ r v, of True True 0])
    fix t1 r'
    assume f: "nd_find_slot True True 0 ?t [107] (fnv1a_64 [107]) True = Some (t1, r')" and i: "nd_inv t1"
      and fr: "nd_freed t1 = nd_freed ?t"
      and c: "case r' of None \<Rightarrow> nd_view t1 = nd_view ?t \<and> nd_entries t1 = nd_entries ?t
         | Some p \<Rightarrow> nd_valid t1 p \<and> nd_occupied t1 p \<and> nd_stored_key t1 (nd_slot t1 p) = [107] \<and>
           (\<exists>off. nd_slot t1 p = fresh_slot (fnv1a_64 [107]) off (of_nat (length [107 :: u8]))) \<and>
           nd_view t1 = (nd_view ?t)([107] \<mapsto> nd_slot t1 p) \<and> nd_entries t1 = add_mset (nd_slot t1 p) (nd_entries ?t)"
      and sp: "True \<Longrightarrow> length (segment_slots (nd_directory ?t ! segment_of ?t (fnv1a_64 [107]))) < 224 \<Longrightarrow> r' \<noteq> None"
    obtain p where p: "r' = Some p" using sp [OF TrueI room] by blast
    let ?w = "nd_write t1 p [107] 4096 100 2 0"
    have s: "nexdash_set_nolock True True 0 ?t (Some [107]) 4096 100 2 0 = Some (?w, True)"
      using f p by (simp add: nexdash_set_write)
    have run': "nd_run ?w {#4096#}"
      using nd_run.set [OF run _ _ r _ _ _ _ _ s] e by (simp add: NTYPE_DELETED_def nd_cost_def)
    then have "nd_owned {#4096#} ?w" by (rule nd_run_owned)
    moreover have "4096 \<in># image_mset slot_addr (nd_entries ?w)"
      using nd_write_view(2) [OF i, of p "[107]" 4096 2 100 0] p c
      by (auto simp: slot_value_def slot_addr_def)
    ultimately have "mset (nd_freed ?w) = {#}"
      by (auto simp: nd_owned_def dest!: multi_member_split) 
    with run' show ?thesis by auto
  qed simp_all
qed

text \<open>
  C5. Ownership of values.  In every reachable state the values that callers have handed over are
  exactly those passed to the free callback and those still held by an entry, each as often as it was
  handed over: nothing is freed twice, nothing that is held has been freed, and nothing is lost.  The
  memory counter is the exact sum of value sizes and per-entry overhead.
\<close>

theorem nexdash_ownership:
  assumes "nd_run t H"
  shows "mset (nd_freed t) + image_mset slot_addr (nd_entries t) = H \<and> unat (nd_used_memory t) = nd_cost t \<and> nd_inv t"
  using nd_run_owned [OF assms] by (simp add: nd_owned_def)

theorem nexdash_ownership_witness:
  "\<exists>t. nd_run t {#4096#} \<and> image_mset slot_addr (nd_entries t) = {#4096#} \<and> unat (nd_used_memory t) = nd_cost t"
proof -
  obtain t where t: "nd_run t {#4096#}" "nd_freed t = []" using one_value_run by blast
  show ?thesis using nexdash_ownership [OF t(1)] t by auto
qed

text \<open>
  C32. Eviction meets its target.  From every reachable state \<open>nexdash_evict_to_target\<close> brings the
  memory counter to the target or below, returns the number of entries it dropped and adds none, and
  drops a protected entry only when no probatory entry is left.
\<close>

theorem nexdash_evict_meets_target:
  assumes "nd_run t H"
  shows "\<exists>t' n. nexdash_evict_to_target t target = (t', n) \<and> nd_used_memory t' \<le> target \<and>
    nd_entries t' \<subseteq># nd_entries t \<and> size (nd_entries t') + n = size (nd_entries t) \<and>
    (tier_entries TIER_PROTECTED t' = tier_entries TIER_PROTECTED t \<or> tier_entries TIER_PROBATORY t' = {#})"
  using evict_owned [OF nd_run_owned [OF assms], of target]
  by (intro exI [of _ "fst (nexdash_evict_to_target t target)"] exI [of _ "snd (nexdash_evict_to_target t target)"]) simp

theorem nexdash_evict_meets_target_witness:
  "\<exists>t t' n. nd_run t {#4096#} \<and> size (nd_entries t) = 1 \<and> nexdash_evict_to_target t 0 = (t', n) \<and> nd_used_memory t' = 0"
proof -
  obtain t where t: "nd_run t {#4096#}" "nd_freed t = []" using one_value_run by blast
  have "image_mset slot_addr (nd_entries t) = {#4096#}" using nd_run_owned [OF t(1)] t(2) by (simp add: nd_owned_def)
  then have "size (nd_entries t) = 1" by (metis size_image_mset size_single)
  with t(1) nexdash_evict_meets_target [OF t(1), of 0] show ?thesis by auto
qed

end
