(* ===== verification/Nex_Segcache.thy ===== *)
theory Nex_Segcache
  imports Nex_Prelude
begin

text \<open>
  The Segcache backend, \<open>segcache/segcache.c\<close>: items of similar TTL are appended to log segments,
  an index of 8-slot buckets finds them, and whole segments are returned to a pool when they expire.

  A segment pointer is its index in the array of segments.  The list of the segments of a TTL bucket
  of a shard, linked by \<open>next\<close> and \<open>prev\<close> in the code, is a list of indices, newest first.  The free
  pool is the list of the indices queued in it.  The time is an argument.
\<close>

subsection \<open>TTL buckets\<close>

definition SEG_TTL_BUCKETS :: u32 where
  "SEG_TTL_BUCKETS = 1024"

definition ttl_to_bucket :: "u32 \<Rightarrow> u32" where
  "ttl_to_bucket ttl =
     (if ttl = 0 then 0
      else if ttl < 60 then ttl
      else if ttl < 600 then 60 + (ttl - 60) div 10
      else if ttl < 3600 then 60 + 54 + (ttl - 600) div 60
      else (60 + 54 + 50 + (ttl - 3600) div 3600) mod SEG_TTL_BUCKETS)"

definition bucket_to_ttl_seconds :: "u32 \<Rightarrow> u32" where
  "bucket_to_ttl_seconds b =
     (if b = 0 then 0
      else if b < 60 then b
      else if b < 114 then 60 + (b - 60) * 10
      else if b < 164 then 600 + (b - 114) * 60
      else 3600 + (b - 164) * 3600)"

subsection \<open>Items and segments\<close>

definition SEG_HDR_KEY_LEN :: "u64 \<Rightarrow> u64" where
  "SEG_HDR_KEY_LEN h = drop_bit 32 h AND 0xFFFF"

definition SEG_HDR_VAL_LEN :: "u64 \<Rightarrow> u64" where
  "SEG_HDR_VAL_LEN h = drop_bit 16 h AND 0xFFFF"

record NexSegment =
  sgm_data :: bytes
  sgm_write_offset :: u32
  sgm_n_items :: u32
  sgm_ttl_bucket :: u32
  sgm_create_time :: u32

definition seg_header :: "u16 \<Rightarrow> nat \<Rightarrow> nat \<Rightarrow> u32 \<Rightarrow> u64" where
  "seg_header key_fp key_len value_len ttl_b =
     push_bit 48 (ucast key_fp) OR push_bit 32 (of_nat key_len) OR push_bit 16 (of_nat value_len) OR ucast ttl_b"

text \<open>The header, key and value of the item at an offset.\<close>

definition item_header :: "NexSegment \<Rightarrow> nat \<Rightarrow> u64" where
  "item_header seg off = le_dec (buf_read (sgm_data seg) off 8)"

definition item_key :: "NexSegment \<Rightarrow> nat \<Rightarrow> bytes" where
  "item_key seg off = buf_read (sgm_data seg) (off + 8) (unat (SEG_HDR_KEY_LEN (item_header seg off)))"

definition item_value :: "NexSegment \<Rightarrow> nat \<Rightarrow> bytes" where
  "item_value seg off =
     buf_read (sgm_data seg) (off + 8 + unat (SEG_HDR_KEY_LEN (item_header seg off)))
       (unat (SEG_HDR_VAL_LEN (item_header seg off)))"

subsection \<open>The index\<close>

definition NEX_RCU_SHARDS :: nat where
  "NEX_RCU_SHARDS = 16"

definition SEG_BUCKETS_PER_SHARD :: nat where
  "SEG_BUCKETS_PER_SHARD = 8192"

definition SEG_ITEMS_PER_BUCKET :: nat where
  "SEG_ITEMS_PER_BUCKET = 8"

definition SEG_MAX_SEGMENTS :: u32 where
  "SEG_MAX_SEGMENTS = 65536"

definition SEG_DEFAULT_SIZE :: u32 where
  "SEG_DEFAULT_SIZE = 1048576"

record SegHashEntry =
  she_key_fp :: u16
  she_seg_idx :: u16
  she_item_offset :: u32

record SegHashBucket =
  shb_entries :: "SegHashEntry list"
  shb_occupancy :: u8

record SegStats =
  sst_gets :: u64
  sst_sets :: u64
  sst_dels :: u64
  sst_hits :: u64
  sst_misses :: u64
  sst_evictions_segment :: u64
  sst_expirations :: u64
  sst_bytes_stored :: u64

record NexSegcache =
  sc_segments :: "NexSegment list"
  sc_n_free :: u32
  sc_free_queue :: "nat list"
  sc_ttl_shards :: "nat \<Rightarrow> u32 \<Rightarrow> nat list"
  sc_hash_table :: "nat \<Rightarrow> SegHashBucket"
  sc_max_memory :: u64
  sc_used_memory :: u64
  sc_shard_stats :: "nat \<Rightarrow> SegStats"

definition seg_hash :: "bytes \<Rightarrow> u64" where
  "seg_hash key = fnv1a_64 key"

definition seg_shard :: "u64 \<Rightarrow> nat" where
  "seg_shard hash = unat hash mod NEX_RCU_SHARDS"

definition seg_bucket :: "u64 \<Rightarrow> nat" where
  "seg_bucket hash = seg_shard hash * SEG_BUCKETS_PER_SHARD + unat hash div NEX_RCU_SHARDS mod SEG_BUCKETS_PER_SHARD"

definition seg_fp :: "u64 \<Rightarrow> u16" where
  "seg_fp hash = ucast (drop_bit 48 hash)"

definition zero_stats :: SegStats where
  "zero_stats = \<lparr>sst_gets = 0, sst_sets = 0, sst_dels = 0, sst_hits = 0, sst_misses = 0,
     sst_evictions_segment = 0, sst_expirations = 0, sst_bytes_stored = 0\<rparr>"

definition seg_count :: "u64 \<Rightarrow> u32 \<Rightarrow> u32" where
  "seg_count max_memory segment_size =
     (let n = ucast (max_memory div ucast segment_size);
          n1 = (if n = 0 then 16 else n);
          n2 = (if n1 < of_nat NEX_RCU_SHARDS then of_nat NEX_RCU_SHARDS else n1)
      in if SEG_MAX_SEGMENTS < n2 then SEG_MAX_SEGMENTS else n2)"

definition segcache_create :: "bool \<Rightarrow> u64 \<Rightarrow> u32 \<Rightarrow> NexSegcache option" where
  "segcache_create alloc_ok max_memory segment_size =
     (if \<not> alloc_ok then None
      else
        let size = (if segment_size = 0 then SEG_DEFAULT_SIZE else segment_size);
            n = seg_count max_memory size
        in Some \<lparr>sc_segments = replicate (unat n) \<lparr>sgm_data = replicate (unat size) 0, sgm_write_offset = 0,
                    sgm_n_items = 0, sgm_ttl_bucket = 0, sgm_create_time = 0\<rparr>,
                 sc_n_free = n, sc_free_queue = [0..<unat n], sc_ttl_shards = (\<lambda>shard b. []),
                 sc_hash_table = (\<lambda>i. \<lparr>shb_entries = replicate SEG_ITEMS_PER_BUCKET
                    \<lparr>she_key_fp = 0, she_seg_idx = 0, she_item_offset = 0\<rparr>, shb_occupancy = 0\<rparr>),
                 sc_max_memory = max_memory, sc_used_memory = 0, sc_shard_stats = (\<lambda>shard. zero_stats)\<rparr>)"

text \<open>Taking a segment from the pool, cleared.\<close>

definition seg_alloc :: "u32 \<Rightarrow> NexSegcache \<Rightarrow> u32 \<Rightarrow> (NexSegcache \<times> nat) option" where
  "seg_alloc now sc ttl_bucket =
     (case sc_free_queue sc of
        [] \<Rightarrow> None
      | idx # rest \<Rightarrow>
          let seg = sc_segments sc ! idx
          in Some (sc\<lparr>sc_free_queue := rest, sc_n_free := sc_n_free sc - 1,
                     sc_segments := (sc_segments sc)[idx :=
                       \<lparr>sgm_data = replicate (length (sgm_data seg)) 0, sgm_write_offset = 0, sgm_n_items = 0,
                        sgm_ttl_bucket = ttl_bucket, sgm_create_time = now\<rparr>]\<rparr>, idx))"

definition shb_occupied :: "SegHashBucket \<Rightarrow> nat \<Rightarrow> bool" where
  "shb_occupied bkt s \<longleftrightarrow> drop_bit s (shb_occupancy bkt) AND 1 \<noteq> 0"

definition entry_matches :: "NexSegcache \<Rightarrow> u16 \<Rightarrow> bytes \<Rightarrow> SegHashEntry \<Rightarrow> bool" where
  "entry_matches sc key_fp key e \<longleftrightarrow>
     she_key_fp e = key_fp \<and>
     (let seg = sc_segments sc ! unat (she_seg_idx e); off = unat (she_item_offset e)
      in unat (SEG_HDR_KEY_LEN (item_header seg off)) = length key \<and> item_key seg off = key)"

text \<open>
  The loop over the slots of a bucket that \<open>ht_insert\<close>, \<open>ht_find\<close>, \<open>segcache_del\<close> and
  \<open>segcache_exists\<close> share: the first occupied slot with the fingerprint and the key.
\<close>

definition ht_slot :: "NexSegcache \<Rightarrow> u64 \<Rightarrow> bytes \<Rightarrow> nat option" where
  "ht_slot sc hash key =
     (let bkt = sc_hash_table sc (seg_bucket hash)
      in find (\<lambda>s. shb_occupied bkt s \<and> entry_matches sc (seg_fp hash) key (shb_entries bkt ! s)) [0..<SEG_ITEMS_PER_BUCKET])"

definition ht_insert :: "NexSegcache \<Rightarrow> u64 \<Rightarrow> nat \<Rightarrow> u32 \<Rightarrow> bytes \<Rightarrow> NexSegcache option" where
  "ht_insert sc hash seg_idx item_offset key =
     (let i = seg_bucket hash; bkt = sc_hash_table sc i
      in case ht_slot sc hash key of
           Some s \<Rightarrow>
             Some (sc\<lparr>sc_hash_table := (sc_hash_table sc)(i := bkt\<lparr>shb_entries := (shb_entries bkt)[s :=
               (shb_entries bkt ! s)\<lparr>she_seg_idx := of_nat seg_idx, she_item_offset := item_offset\<rparr>]\<rparr>)\<rparr>)
         | None \<Rightarrow>
             (case find (\<lambda>s. \<not> shb_occupied bkt s) [0..<SEG_ITEMS_PER_BUCKET] of
                Some s \<Rightarrow>
                  Some (sc\<lparr>sc_hash_table := (sc_hash_table sc)(i := bkt
                    \<lparr>shb_entries := (shb_entries bkt)[s :=
                       \<lparr>she_key_fp = seg_fp hash, she_seg_idx = of_nat seg_idx, she_item_offset = item_offset\<rparr>],
                     shb_occupancy := shb_occupancy bkt OR push_bit s 1\<rparr>)\<rparr>)
              | None \<Rightarrow> None))"

definition ht_clear :: "NexSegcache \<Rightarrow> u64 \<Rightarrow> nat \<Rightarrow> NexSegcache" where
  "ht_clear sc hash s =
     (let i = seg_bucket hash; bkt = sc_hash_table sc i
      in sc\<lparr>sc_hash_table := (sc_hash_table sc)(i := bkt\<lparr>shb_occupancy := shb_occupancy bkt AND NOT (push_bit s 1)\<rparr>)\<rparr>)"

definition seg_expired :: "u32 \<Rightarrow> NexSegment \<Rightarrow> bool" where
  "seg_expired now seg \<longleftrightarrow>
     (let ttl_s = bucket_to_ttl_seconds (sgm_ttl_bucket seg)
      in 0 < ttl_s \<and> sgm_create_time seg + ttl_s \<le> now)"

definition ht_find :: "u32 \<Rightarrow> NexSegcache \<Rightarrow> u64 \<Rightarrow> bytes \<Rightarrow> NexSegcache \<times> SegHashEntry option" where
  "ht_find now sc hash key =
     (case ht_slot sc hash key of
        None \<Rightarrow> (sc, None)
      | Some s \<Rightarrow>
          let e = shb_entries (sc_hash_table sc (seg_bucket hash)) ! s
          in if seg_expired now (sc_segments sc ! unat (she_seg_idx e)) then (ht_clear sc hash s, None) else (sc, Some e))"

subsection \<open>Operations\<close>

definition upd_stats :: "nat \<Rightarrow> (SegStats \<Rightarrow> SegStats) \<Rightarrow> NexSegcache \<Rightarrow> NexSegcache" where
  "upd_stats shard f sc = sc\<lparr>sc_shard_stats := (sc_shard_stats sc)(shard := f (sc_shard_stats sc shard))\<rparr>"

text \<open>The segment a set writes to: the newest one of its TTL list if the item fits, else a fresh one.\<close>

definition seg_for_write :: "u32 \<Rightarrow> NexSegcache \<Rightarrow> nat \<Rightarrow> u32 \<Rightarrow> u32 \<Rightarrow> (NexSegcache \<times> nat) option" where
  "seg_for_write now sc shard ttl_b item_size =
     (let fresh = (case seg_alloc now sc ttl_b of
                     None \<Rightarrow> None
                   | Some (sc', idx) \<Rightarrow>
                       Some (sc'\<lparr>sc_ttl_shards := (sc_ttl_shards sc')(shard := (sc_ttl_shards sc' shard)
                               (ttl_b := idx # sc_ttl_shards sc' shard ttl_b))\<rparr>, idx))
      in case sc_ttl_shards sc shard ttl_b of
           [] \<Rightarrow> fresh
         | idx # rest \<Rightarrow>
             if of_nat (length (sgm_data (sc_segments sc ! idx))) < sgm_write_offset (sc_segments sc ! idx) + item_size
             then fresh else Some (sc, idx))"

definition seg_append :: "NexSegcache \<Rightarrow> nat \<Rightarrow> bytes \<Rightarrow> u32 \<Rightarrow> NexSegcache" where
  "seg_append sc idx item item_size =
     (let seg = sc_segments sc ! idx
      in sc\<lparr>sc_segments := (sc_segments sc)[idx := seg
           \<lparr>sgm_data := buf_write (sgm_data seg) (unat (sgm_write_offset seg)) item,
            sgm_write_offset := sgm_write_offset seg + item_size, sgm_n_items := sgm_n_items seg + 1\<rparr>]\<rparr>)"

definition segcache_set :: "u32 \<Rightarrow> NexSegcache \<Rightarrow> bytes option \<Rightarrow> bytes option \<Rightarrow> u32 \<Rightarrow> NexSegcache \<times> bool" where
  "segcache_set now sc key value ttl_seconds =
     (case (key, value) of
        (Some k, Some v) \<Rightarrow>
          let item_size = of_nat (8 + length k + length v);
              hash = seg_hash k; shard = seg_shard hash; ttl_b = ttl_to_bucket ttl_seconds
          in (case seg_for_write now sc shard ttl_b item_size of
                None \<Rightarrow> (sc, False)
              | Some (sc1, idx) \<Rightarrow>
                  let off = sgm_write_offset (sc_segments sc1 ! idx);
                      hdr = seg_header (seg_fp hash) (length k) (length v) ttl_b;
                      sc2 = seg_append sc1 idx (le_enc 8 hdr @ k @ v) item_size
                  in (case ht_insert sc2 hash idx off k of
                        None \<Rightarrow>
                          let seg = sc_segments sc2 ! idx
                          in (sc2\<lparr>sc_segments := (sc_segments sc2)[idx := seg
                                 \<lparr>sgm_write_offset := sgm_write_offset seg - item_size, sgm_n_items := sgm_n_items seg - 1\<rparr>]\<rparr>, False)
                      | Some sc3 \<Rightarrow>
                          (upd_stats shard (\<lambda>st. st\<lparr>sst_sets := sst_sets st + 1, sst_bytes_stored := sst_bytes_stored st + ucast item_size\<rparr>)
                             (sc3\<lparr>sc_used_memory := sc_used_memory sc3 + ucast item_size\<rparr>), True)))
      | _ \<Rightarrow> (sc, False))"

datatype seg_result = SegMiss | SegTooSmall nat | SegHit bytes

definition segcache_get :: "u32 \<Rightarrow> NexSegcache \<Rightarrow> bytes option \<Rightarrow> nat \<Rightarrow> NexSegcache \<times> seg_result" where
  "segcache_get now sc key buf_len =
     (case key of
        None \<Rightarrow> (sc, SegMiss)
      | Some k \<Rightarrow>
          let hash = seg_hash k; shard = seg_shard hash
          in (case ht_find now sc hash k of
                (sc1, None) \<Rightarrow>
                  (upd_stats shard (\<lambda>st. st\<lparr>sst_misses := sst_misses st + 1, sst_gets := sst_gets st + 1\<rparr>) sc1, SegMiss)
              | (sc1, Some e) \<Rightarrow>
                  let seg = sc_segments sc1 ! unat (she_seg_idx e); off = unat (she_item_offset e);
                      vlen = unat (SEG_HDR_VAL_LEN (item_header seg off))
                  in if buf_len < vlen then (sc1, SegTooSmall vlen)
                     else (upd_stats shard (\<lambda>st. st\<lparr>sst_hits := sst_hits st + 1, sst_gets := sst_gets st + 1\<rparr>) sc1,
                           SegHit (item_value seg off))))"

definition segcache_del :: "NexSegcache \<Rightarrow> bytes option \<Rightarrow> NexSegcache \<times> int" where
  "segcache_del sc key =
     (case key of
        None \<Rightarrow> (sc, - 1)
      | Some k \<Rightarrow>
          (case ht_slot sc (seg_hash k) k of
             None \<Rightarrow> (sc, 0)
           | Some s \<Rightarrow>
               (upd_stats (seg_shard (seg_hash k)) (\<lambda>st. st\<lparr>sst_dels := sst_dels st + 1\<rparr>) (ht_clear sc (seg_hash k) s), 1)))"

definition segcache_exists :: "u32 \<Rightarrow> NexSegcache \<Rightarrow> bytes option \<Rightarrow> NexSegcache \<times> bool" where
  "segcache_exists now sc key =
     (case key of
        None \<Rightarrow> (sc, False)
      | Some k \<Rightarrow> (case ht_find now sc (seg_hash k) k of (sc1, e) \<Rightarrow> (sc1, e \<noteq> None)))"

subsection \<open>The reaper\<close>

text \<open>One segment of a TTL list: unlinked and returned to the pool when it has expired.\<close>

definition reap_segment :: "u32 \<Rightarrow> nat \<Rightarrow> u32 \<Rightarrow> NexSegcache \<times> u32 \<Rightarrow> nat \<Rightarrow> NexSegcache \<times> u32" where
  "reap_segment now shard b st idx =
     (case st of (sc, expired) \<Rightarrow>
        let seg = sc_segments sc ! idx; ttl_s = bucket_to_ttl_seconds b
        in if 0 < ttl_s \<and> sgm_create_time seg + ttl_s \<le> now
           then (upd_stats shard (\<lambda>s. s\<lparr>sst_evictions_segment := sst_evictions_segment s + 1,
                                        sst_expirations := sst_expirations s + ucast (sgm_n_items seg)\<rparr>)
                   (sc\<lparr>sc_ttl_shards := (sc_ttl_shards sc)(shard := (sc_ttl_shards sc shard)
                         (b := remove1 idx (sc_ttl_shards sc shard b))),
                       sc_free_queue := sc_free_queue sc @ [idx], sc_n_free := sc_n_free sc + 1\<rparr>),
                 expired + sgm_n_items seg)
           else (sc, expired))"

definition segcache_expire_segments :: "u32 \<Rightarrow> NexSegcache \<Rightarrow> NexSegcache \<times> u32" where
  "segcache_expire_segments now sc =
     foldl (\<lambda>st (shard, b). foldl (reap_segment now shard b) st (sc_ttl_shards (fst st) shard b)) (sc, 0)
       [(shard, of_nat b). shard \<leftarrow> [0..<NEX_RCU_SHARDS], b \<leftarrow> [0..<unat SEG_TTL_BUCKETS]]"

definition add_stats :: "SegStats \<Rightarrow> SegStats \<Rightarrow> SegStats" where
  "add_stats a s =
     \<lparr>sst_gets = sst_gets a + sst_gets s, sst_sets = sst_sets a + sst_sets s, sst_dels = sst_dels a + sst_dels s,
      sst_hits = sst_hits a + sst_hits s, sst_misses = sst_misses a + sst_misses s,
      sst_evictions_segment = sst_evictions_segment a + sst_evictions_segment s,
      sst_expirations = sst_expirations a + sst_expirations s, sst_bytes_stored = sst_bytes_stored a + sst_bytes_stored s\<rparr>"

definition segcache_get_stats :: "NexSegcache \<Rightarrow> SegStats \<times> u32" where
  "segcache_get_stats sc =
     (foldl (\<lambda>a shard. add_stats a (sc_shard_stats sc shard)) zero_stats [0..<NEX_RCU_SHARDS],
      of_nat (length (sc_segments sc)) - sc_n_free sc)"

end
