(* ===== verification/Nex_Segcache_Props.thy ===== *)
theory Nex_Segcache_Props
  imports Nex_Segcache
begin

text \<open>
  The correctness of the Segcache backend between two runs of the reaper: a set stores the value for
  its key only, a get returns it until its segment expires, a delete removes it.  The TTL is that of
  the segment, which is quantised and counted from the creation of the segment.
\<close>

subsection \<open>TTL quantisation\<close>

lemma unat_ttl:
  "unat (ttl_to_bucket t) =
     (if unat t < 60 then unat t
      else if unat t < 600 then 60 + (unat t - 60) div 10
      else if unat t < 3600 then 114 + (unat t - 600) div 60
      else (163 + unat t div 3600) mod 1024)"
proof -
  let ?n = "unat t"
  have b: "?n < 2 ^ 32" using unat_bound [of t] by simp
  have s: "unat (t - c) = ?n - unat c" if "unat c \<le> ?n" for c using that by (simp add: unat_sub_if')
  have lt: "t < c \<longleftrightarrow> ?n < unat c" for c by (simp add: word_less_nat_alt)
  consider "?n < 60" | "60 \<le> ?n" "?n < 600" | "600 \<le> ?n" "?n < 3600" | "3600 \<le> ?n" by linarith
  then show ?thesis
  proof cases
    case 1
    then show ?thesis by (simp add: ttl_to_bucket_def lt)
  next
    case 2
    then have "unat ((t - 60) div 10) = (?n - 60) div 10" by (simp add: unat_div s)
    moreover have "(?n - 60) div 10 < 54" using 2 by simp
    ultimately have "unat (60 + (t - 60) div 10) = 60 + (?n - 60) div 10" by (simp add: unat_word_ariths)
    then show ?thesis using 2 by (auto simp: ttl_to_bucket_def lt)
  next
    case 3
    then have "unat ((t - 600) div 60) = (?n - 600) div 60" by (simp add: unat_div s)
    moreover have "(?n - 600) div 60 < 50" using 3 by simp
    ultimately have "unat (114 + (t - 600) div 60) = 114 + (?n - 600) div 60" by (simp add: unat_word_ariths)
    then show ?thesis using 3 by (auto simp: ttl_to_bucket_def lt)
  next
    case 4
    then have "unat ((t - 3600) div 3600) = (?n - 3600) div 3600" by (simp add: unat_div s)
    moreover have "(?n - 3600) div 3600 = ?n div 3600 - 1" using 4 by (simp add: le_div_geq)
    moreover have "1 \<le> ?n div 3600" using 4 by (simp add: le_div_geq)
    moreover have "?n div 3600 < 2 ^ 31" using b by simp
    ultimately have "unat (164 + (t - 3600) div 3600) = 163 + ?n div 3600" by (simp add: unat_word_ariths)
    then show ?thesis using 4 by (auto simp: ttl_to_bucket_def lt SEG_TTL_BUCKETS_def unat_mod)
  qed
qed

lemma unat_bucket_ttl:
  assumes "unat b < 1024"
  shows "unat (bucket_to_ttl_seconds b) =
     (if unat b < 60 then unat b
      else if unat b < 114 then 60 + (unat b - 60) * 10
      else if unat b < 164 then 600 + (unat b - 114) * 60
      else 3600 + (unat b - 164) * 3600)"
proof -
  have s: "unat (b - c) = unat b - unat c" if "unat c \<le> unat b" for c using that by (simp add: unat_sub_if')
  have lt: "b < c \<longleftrightarrow> unat b < unat c" for c by (simp add: word_less_nat_alt)
  have e: "unat (c + (b - d) * m) = unat c + (unat b - unat d) * unat m"
    if "unat d \<le> unat b" "unat c + (unat b - unat d) * unat m < 2 ^ 32" for c d m
    using that by (simp add: unat_word_ariths s)
  show ?thesis
    using assms e [of 60 60 10] e [of 114 600 60] e [of 164 3600 3600] by (auto simp: bucket_to_ttl_seconds_def lt)
qed

text \<open>
  The lifetime that Segcache keeps for a requested TTL is the TTL rounded down to a multiple of 1,
  10, 60 or 3600 seconds according to its size, so never longer, as long as the TTL is below 861
  hours; from there on the bucket number wraps around and a TTL of 861 hours means no expiry at all.
\<close>

lemma ttl_bucket_roundtrip:
  "bucket_to_ttl_seconds (ttl_to_bucket (861 * 3600)) = 0 \<and>
   (unat t < 861 * 3600 \<longrightarrow>
     unat (bucket_to_ttl_seconds (ttl_to_bucket t)) =
       unat t - unat t mod (if unat t < 60 then 1 else if unat t < 600 then 10 else if unat t < 3600 then 60 else 3600))"
proof -
  let ?n = "unat t"
  have "unat (bucket_to_ttl_seconds (ttl_to_bucket t)) =
       ?n - ?n mod (if ?n < 60 then 1 else if ?n < 600 then 10 else if ?n < 3600 then 60 else 3600)" if t: "?n < 861 * 3600"
  proof -
    have sub: "n - n mod g = n div g * g" for n g :: nat by (simp add: minus_mod_eq_div_mult)
    have lt: "unat (ttl_to_bucket t) < 1024" by (auto simp: unat_ttl)
    consider "?n < 60" | "60 \<le> ?n" "?n < 600" | "600 \<le> ?n" "?n < 3600" | "3600 \<le> ?n" by linarith
    then show ?thesis
    proof cases
      case 2
      moreover have "?n div 10 = 6 + (?n - 60) div 10" using 2 by simp
      moreover have "(?n - 60) div 10 < 54" using 2 by simp
      ultimately show ?thesis unfolding unat_bucket_ttl [OF lt] unat_ttl sub by simp
    next
      case 3
      moreover have "?n div 60 = 10 + (?n - 600) div 60" using 3 by simp
      moreover have "(?n - 600) div 60 < 50" using 3 by simp
      ultimately show ?thesis unfolding unat_bucket_ttl [OF lt] unat_ttl sub by simp
    next
      case 4
      moreover have "1 \<le> ?n div 3600" "?n div 3600 < 861" using 4 t by (simp_all add: le_div_geq)
      ultimately show ?thesis unfolding unat_bucket_ttl [OF lt] unat_ttl sub by (simp add: algebra_simps)
    qed (use unat_bucket_ttl [OF lt] in \<open>simp add: unat_ttl\<close>)
  qed
  moreover have "bucket_to_ttl_seconds (ttl_to_bucket (861 * 3600)) = 0"
    by (simp add: ttl_to_bucket_def bucket_to_ttl_seconds_def SEG_TTL_BUCKETS_def)
  ultimately show ?thesis by blast
qed

lemma ttl_bucket_roundtrip_example: "unat (bucket_to_ttl_seconds (ttl_to_bucket 7321)) = 7200"
  using ttl_bucket_roundtrip [of 7321] by simp

subsection \<open>The invariant\<close>

definition item_end :: "NexSegment \<Rightarrow> nat \<Rightarrow> nat" where
  "item_end seg off = off + 8 + unat (SEG_HDR_KEY_LEN (item_header seg off)) + unat (SEG_HDR_VAL_LEN (item_header seg off))"

definition seg_ok :: "NexSegment \<Rightarrow> bool" where
  "seg_ok seg \<longleftrightarrow> unat (sgm_write_offset seg) \<le> length (sgm_data seg) \<and> length (sgm_data seg) + 2 ^ 18 \<le> 2 ^ 32"

definition se_seg :: "NexSegcache \<Rightarrow> SegHashEntry \<Rightarrow> NexSegment" where
  "se_seg sc e = sc_segments sc ! unat (she_seg_idx e)"

definition se_off :: "SegHashEntry \<Rightarrow> nat" where
  "se_off e = unat (she_item_offset e)"

definition se_key :: "NexSegcache \<Rightarrow> SegHashEntry \<Rightarrow> bytes" where
  "se_key sc e = item_key (se_seg sc e) (se_off e)"

text \<open>What the index stores for an entry: value, TTL bucket and creation time of the segment.\<close>

definition se_data :: "NexSegcache \<Rightarrow> SegHashEntry \<Rightarrow> bytes \<times> u32 \<times> u32" where
  "se_data sc e = (item_value (se_seg sc e) (se_off e), sgm_ttl_bucket (se_seg sc e), sgm_create_time (se_seg sc e))"

definition slot_entry :: "NexSegcache \<Rightarrow> nat \<Rightarrow> nat \<Rightarrow> SegHashEntry" where
  "slot_entry sc i s = shb_entries (sc_hash_table sc i) ! s"

definition slot_live :: "NexSegcache \<Rightarrow> nat \<Rightarrow> nat \<Rightarrow> bool" where
  "slot_live sc i s \<longleftrightarrow> s < SEG_ITEMS_PER_BUCKET \<and> shb_occupied (sc_hash_table sc i) s"

definition index_ok :: "NexSegcache \<Rightarrow> nat \<Rightarrow> SegHashEntry \<Rightarrow> bool" where
  "index_ok sc i e \<longleftrightarrow>
     unat (she_seg_idx e) < length (sc_segments sc) \<and> unat (she_seg_idx e) \<notin> set (sc_free_queue sc) \<and>
     item_end (se_seg sc e) (se_off e) \<le> unat (sgm_write_offset (se_seg sc e)) \<and>
     seg_bucket (seg_hash (se_key sc e)) = i \<and> she_key_fp e = seg_fp (seg_hash (se_key sc e))"

definition pool_ok :: "NexSegcache \<Rightarrow> bool" where
  "pool_ok sc \<longleftrightarrow> length (sc_segments sc) \<le> 65536 \<and> (\<forall>seg \<in> set (sc_segments sc). seg_ok seg) \<and>
     distinct (sc_free_queue sc) \<and> (\<forall>idx \<in> set (sc_free_queue sc). idx < length (sc_segments sc)) \<and>
     (\<forall>shard b. \<forall>idx \<in> set (sc_ttl_shards sc shard b).
        idx < length (sc_segments sc) \<and> idx \<notin> set (sc_free_queue sc) \<and> sgm_ttl_bucket (sc_segments sc ! idx) = b)"

definition sc_inv :: "NexSegcache \<Rightarrow> bool" where
  "sc_inv sc \<longleftrightarrow> pool_ok sc \<and> (\<forall>i. length (shb_entries (sc_hash_table sc i)) = SEG_ITEMS_PER_BUCKET) \<and>
     (\<forall>i s. slot_live sc i s \<longrightarrow> index_ok sc i (slot_entry sc i s)) \<and>
     (\<forall>i s s'. slot_live sc i s \<and> slot_live sc i s' \<and> se_key sc (slot_entry sc i s) = se_key sc (slot_entry sc i s') \<longrightarrow> s = s')"

definition sc_view :: "NexSegcache \<Rightarrow> bytes \<Rightarrow> (bytes \<times> u32 \<times> u32) option" where
  "sc_view sc k = map_option (\<lambda>s. se_data sc (slot_entry sc (seg_bucket (seg_hash k)) s)) (ht_slot sc (seg_hash k) k)"

lemma sc_invD:
  assumes "sc_inv sc"
  shows "pool_ok sc" and "length (shb_entries (sc_hash_table sc i)) = SEG_ITEMS_PER_BUCKET"
    and "slot_live sc i s \<Longrightarrow> index_ok sc i (slot_entry sc i s)"
    and "slot_live sc i s \<Longrightarrow> slot_live sc i s' \<Longrightarrow> se_key sc (slot_entry sc i s) = se_key sc (slot_entry sc i s') \<Longrightarrow> s = s'"
proof -
  have "\<forall>i s s'. slot_live sc i s \<and> slot_live sc i s' \<and> se_key sc (slot_entry sc i s) = se_key sc (slot_entry sc i s') \<longrightarrow> s = s'"
    using assms unfolding sc_inv_def by (elim conjE)
  then show "slot_live sc i s \<Longrightarrow> slot_live sc i s' \<Longrightarrow> se_key sc (slot_entry sc i s) = se_key sc (slot_entry sc i s') \<Longrightarrow> s = s'"
    by blast
qed (use assms in \<open>simp_all add: sc_inv_def\<close>)

lemma sc_invI:
  assumes "pool_ok sc" and "\<And>i. length (shb_entries (sc_hash_table sc i)) = SEG_ITEMS_PER_BUCKET"
    and "\<And>i s. slot_live sc i s \<Longrightarrow> index_ok sc i (slot_entry sc i s)"
    and "\<And>i s s'. slot_live sc i s \<Longrightarrow> slot_live sc i s' \<Longrightarrow> se_key sc (slot_entry sc i s) = se_key sc (slot_entry sc i s') \<Longrightarrow> s = s'"
  shows "sc_inv sc"
  unfolding sc_inv_def using assms by (intro conjI allI impI) (erule conjE | rule assms | assumption)+

lemma item_key_length:
  assumes "index_ok sc i e" "pool_ok sc"
  shows "length (se_key sc e) = unat (SEG_HDR_KEY_LEN (item_header (se_seg sc e) (se_off e)))"
proof -
  have "seg_ok (se_seg sc e)" using assms by (simp add: index_ok_def pool_ok_def se_seg_def)
  then have "se_off e + 8 + unat (SEG_HDR_KEY_LEN (item_header (se_seg sc e) (se_off e))) \<le> length (sgm_data (se_seg sc e))"
    using assms(1) by (simp add: index_ok_def item_end_def seg_ok_def)
  then show ?thesis unfolding se_key_def item_key_def by (intro length_buf_read) simp
qed

lemma ht_slot_iff:
  assumes "sc_inv sc"
  shows "ht_slot sc (seg_hash k) k = Some s \<longleftrightarrow>
    slot_live sc (seg_bucket (seg_hash k)) s \<and> se_key sc (slot_entry sc (seg_bucket (seg_hash k)) s) = k"
proof -
  let ?i = "seg_bucket (seg_hash k)"
  let ?P = "\<lambda>s. shb_occupied (sc_hash_table sc ?i) s \<and> entry_matches sc (seg_fp (seg_hash k)) k (shb_entries (sc_hash_table sc ?i) ! s)"
  have h: "ht_slot sc (seg_hash k) k = find ?P [0..<SEG_ITEMS_PER_BUCKET]" by (simp add: ht_slot_def Let_def)
  have m: "?P s \<longleftrightarrow> se_key sc (slot_entry sc ?i s) = k" if "slot_live sc ?i s" for s
  proof -
    have ok: "index_ok sc ?i (slot_entry sc ?i s)" "pool_ok sc" using assms that by (simp_all add: sc_inv_def)
    show ?thesis using that ok item_key_length [OF ok]
      by (auto simp: slot_live_def entry_matches_def slot_entry_def se_key_def se_seg_def se_off_def index_ok_def Let_def)
  qed
  show ?thesis
  proof
    assume "ht_slot sc (seg_hash k) k = Some s"
    then have "?P s" "s < SEG_ITEMS_PER_BUCKET" using find_SomeD [of ?P "[0..<SEG_ITEMS_PER_BUCKET]" s] h by auto
    with m [of s] show "slot_live sc ?i s \<and> se_key sc (slot_entry sc ?i s) = k" by (auto simp: slot_live_def)
  next
    assume s: "slot_live sc ?i s \<and> se_key sc (slot_entry sc ?i s) = k"
    then have "?P s" "s < SEG_ITEMS_PER_BUCKET" using m [of s] by (auto simp: slot_live_def)
    then have "find ?P [0..<SEG_ITEMS_PER_BUCKET] \<noteq> None" unfolding find_None_iff by auto
    then obtain r where r: "find ?P [0..<SEG_ITEMS_PER_BUCKET] = Some r" by auto
    from find_SomeD [OF r] have "slot_live sc ?i r" "se_key sc (slot_entry sc ?i r) = k"
      using m [of r] by (auto simp: slot_live_def)
    then have "r = s" using s sc_invD(4) [OF assms] by metis
    with r h show "ht_slot sc (seg_hash k) k = Some s" by simp
  qed
qed

lemma sc_view_iff:
  assumes "sc_inv sc"
  shows "sc_view sc k = Some d \<longleftrightarrow>
    (\<exists>s. slot_live sc (seg_bucket (seg_hash k)) s \<and> se_key sc (slot_entry sc (seg_bucket (seg_hash k)) s) = k \<and>
         se_data sc (slot_entry sc (seg_bucket (seg_hash k)) s) = d)"
  unfolding sc_view_def map_option_eq_Some using ht_slot_iff [OF assms] by blast

lemma sc_view_eqI:
  assumes "sc_inv sc" and "\<And>k d. m k = Some d \<longleftrightarrow> (\<exists>s. slot_live sc (seg_bucket (seg_hash k)) s \<and>
      se_key sc (slot_entry sc (seg_bucket (seg_hash k)) s) = k \<and> se_data sc (slot_entry sc (seg_bucket (seg_hash k)) s) = d)"
  shows "sc_view sc = m"
proof
  fix k
  have "sc_view sc k = Some d \<longleftrightarrow> m k = Some d" for d using assms by (simp add: sc_view_iff)
  then show "sc_view sc k = m k" by (metis option.exhaust)
qed

text \<open>
  Changing segments without touching the items in use: a state with the same index whose live entries
  read the same items has the same contents.
\<close>

definition same_item :: "NexSegment \<Rightarrow> NexSegment \<Rightarrow> nat \<Rightarrow> bool" where
  "same_item seg seg' off \<longleftrightarrow>
     item_header seg' off = item_header seg off \<and> item_key seg' off = item_key seg off \<and>
     item_value seg' off = item_value seg off \<and> sgm_ttl_bucket seg' = sgm_ttl_bucket seg \<and>
     sgm_create_time seg' = sgm_create_time seg"

lemma segs_frame:
  assumes inv: "sc_inv sc" and ht: "sc_hash_table sc' = sc_hash_table sc" and pool: "pool_ok sc'"
    and len: "length (sc_segments sc') = length (sc_segments sc)" and fr: "set (sc_free_queue sc') \<subseteq> set (sc_free_queue sc)"
    and same: "\<And>i s. slot_live sc i s \<Longrightarrow> same_item (se_seg sc (slot_entry sc i s)) (se_seg sc' (slot_entry sc i s)) (se_off (slot_entry sc i s)) \<and>
       item_end (se_seg sc (slot_entry sc i s)) (se_off (slot_entry sc i s)) \<le> unat (sgm_write_offset (se_seg sc' (slot_entry sc i s)))"
  shows "sc_inv sc'" and "sc_view sc' = sc_view sc"
proof -
  have l: "slot_live sc' = slot_live sc" "slot_entry sc' = slot_entry sc"
    by (simp_all add: slot_live_def slot_entry_def ht fun_eq_iff)
  have k: "se_key sc' (slot_entry sc i s) = se_key sc (slot_entry sc i s)"
    and d: "se_data sc' (slot_entry sc i s) = se_data sc (slot_entry sc i s)"
    and ok: "index_ok sc' i (slot_entry sc i s)" if "slot_live sc i s" for i s
  proof -
    note e = same [OF that, unfolded same_item_def]
    show k: "se_key sc' (slot_entry sc i s) = se_key sc (slot_entry sc i s)" using e by (simp add: se_key_def)
    show "se_data sc' (slot_entry sc i s) = se_data sc (slot_entry sc i s)" using e by (simp add: se_data_def)
    have "index_ok sc i (slot_entry sc i s)" using inv that by (simp add: sc_inv_def)
    with e k len fr show "index_ok sc' i (slot_entry sc i s)" by (auto simp: index_ok_def item_end_def)
  qed
  show i': "sc_inv sc'"
  proof (rule sc_invI)
    show "length (shb_entries (sc_hash_table sc' i)) = SEG_ITEMS_PER_BUCKET" for i using sc_invD(2) [OF inv] by (simp add: ht)
    show "s = s'" if "slot_live sc' i s" "slot_live sc' i s'" "se_key sc' (slot_entry sc' i s) = se_key sc' (slot_entry sc' i s')" for i s s'
      using that k by (intro sc_invD(4) [OF inv]) (simp_all add: l)
  qed (use pool ok in \<open>simp_all add: l\<close>)
  show "sc_view sc' = sc_view sc"
    using k d by (intro sc_view_eqI [OF i']) (auto simp: sc_view_iff [OF inv] l)
qed

subsection \<open>Updating the index\<close>

lemma shb_occupied_bit: "shb_occupied bkt s \<longleftrightarrow> bit (shb_occupancy bkt) s"
  by (simp add: shb_occupied_def and_one_eq bit_iff_odd_drop_bit odd_iff_mod_2_eq_one)

lemma se_same_segments:
  "sc_segments sc' = sc_segments sc \<Longrightarrow> se_key sc' = se_key sc"
  "sc_segments sc' = sc_segments sc \<Longrightarrow> se_data sc' = se_data sc"
  "sc_segments sc' = sc_segments sc \<Longrightarrow> sc_free_queue sc' = sc_free_queue sc \<Longrightarrow> index_ok sc' = index_ok sc"
  by (simp_all add: se_key_def se_data_def index_ok_def se_seg_def fun_eq_iff)

lemma index_put:
  assumes inv: "sc_inv sc" and segs: "sc_segments sc' = sc_segments sc" "sc_free_queue sc' = sc_free_queue sc" "pool_ok sc'"
    and e: "index_ok sc (seg_bucket (seg_hash k)) e" "se_key sc e = k" and s: "s < SEG_ITEMS_PER_BUCKET"
    and other: "\<And>r. slot_live sc (seg_bucket (seg_hash k)) r \<Longrightarrow> se_key sc (slot_entry sc (seg_bucket (seg_hash k)) r) = k \<Longrightarrow> r = s"
    and old: "slot_live sc (seg_bucket (seg_hash k)) s \<Longrightarrow> se_key sc (slot_entry sc (seg_bucket (seg_hash k)) s) = k"
    and ht: "sc_hash_table sc' = (sc_hash_table sc)(seg_bucket (seg_hash k) := bkt)"
    and bkt: "shb_entries bkt = (shb_entries (sc_hash_table sc (seg_bucket (seg_hash k))))[s := e]"
      "\<And>r. shb_occupied bkt r \<longleftrightarrow> r = s \<or> shb_occupied (sc_hash_table sc (seg_bucket (seg_hash k))) r"
  shows "sc_inv sc'" and "sc_view sc' = (sc_view sc)(k \<mapsto> se_data sc e)"
proof -
  let ?i = "seg_bucket (seg_hash k)"
  note same = se_same_segments(1) [OF segs(1)] se_same_segments(2) [OF segs(1)] se_same_segments(3) [OF segs(1,2)]
  have len: "length (shb_entries (sc_hash_table sc i)) = SEG_ITEMS_PER_BUCKET" for i using inv by (simp add: sc_inv_def)
  have live: "slot_live sc' i r \<longleftrightarrow> (i = ?i \<and> r = s) \<or> slot_live sc i r" for i r
    using s by (auto simp: slot_live_def ht bkt(2))
  have ent: "slot_entry sc' i r = (if i = ?i \<and> r = s then e else slot_entry sc i r)" for i r
    using s len [of ?i] by (auto simp: slot_entry_def ht bkt(1) nth_list_update)
  note uniq = sc_invD(4) [OF inv]
  note ok = sc_invD(3) [OF inv]
  have at: "slot_live sc' ?i s" "slot_entry sc' ?i s = e" by (simp_all add: live ent)
  have only: "r = s" if "slot_live sc' ?i r" "se_key sc' (slot_entry sc' ?i r) = k" for r
  proof (rule ccontr)
    assume "r \<noteq> s"
    with that have "slot_live sc ?i r" "se_key sc (slot_entry sc ?i r) = k" unfolding live ent same by simp_all
    then show False using other \<open>r \<noteq> s\<close> by blast
  qed
  show i': "sc_inv sc'"
  proof (rule sc_invI)
    show "length (shb_entries (sc_hash_table sc' i)) = SEG_ITEMS_PER_BUCKET" for i using len by (simp add: ht bkt(1))
    show "index_ok sc' i (slot_entry sc' i r)" if "slot_live sc' i r" for i r
      using that ok [of i r] e(1) unfolding live ent same by (cases "i = ?i \<and> r = s") simp_all
    show "r = r'" if l: "slot_live sc' i r" "slot_live sc' i r'" "se_key sc' (slot_entry sc' i r) = se_key sc' (slot_entry sc' i r')" for i r r'
    proof (cases "i = ?i \<and> (r = s \<or> r' = s)")
      case True
      then have "se_key sc' (slot_entry sc' ?i r) = k" "se_key sc' (slot_entry sc' ?i r') = k"
        using l(3) at(2) e(2) unfolding same by metis+
      with l True show ?thesis using only by metis
    next
      case False
      with l show ?thesis by (intro uniq [of i r r']) (auto simp: live ent same)
    qed
  qed (rule segs(3))
  show "sc_view sc' = (sc_view sc)(k \<mapsto> se_data sc e)"
  proof (rule sc_view_eqI [OF i'])
    fix k' d
    let ?j = "seg_bucket (seg_hash k')"
    show "((sc_view sc)(k \<mapsto> se_data sc e)) k' = Some d \<longleftrightarrow>
       (\<exists>r. slot_live sc' ?j r \<and> se_key sc' (slot_entry sc' ?j r) = k' \<and> se_data sc' (slot_entry sc' ?j r) = d)"
    proof (cases "k' = k")
      case True
      have "se_key sc' (slot_entry sc' ?i s) = k" "se_data sc' (slot_entry sc' ?i s) = se_data sc e" using at(2) e(2) unfolding same by simp_all
      then have "(\<exists>r. slot_live sc' ?i r \<and> se_key sc' (slot_entry sc' ?i r) = k \<and> se_data sc' (slot_entry sc' ?i r) = d) \<longleftrightarrow> se_data sc e = d"
        using only at(1) by metis
      then show ?thesis using True by simp
    next
      case False
      have ne: "\<not> (?j = ?i \<and> r = s)"
        if "slot_live sc ?j r" "se_key sc (slot_entry sc ?j r) = k'" for r
      proof
        assume eq: "?j = ?i \<and> r = s"
        with that(1) have "se_key sc (slot_entry sc ?i s) = k" by (intro old) simp
        with that(2) eq False show False by simp
      qed
      have "slot_live sc' ?j r \<and> se_key sc' (slot_entry sc' ?j r) = k' \<and> se_data sc' (slot_entry sc' ?j r) = d \<longleftrightarrow>
          slot_live sc ?j r \<and> se_key sc (slot_entry sc ?j r) = k' \<and> se_data sc (slot_entry sc ?j r) = d" for r
      proof (cases "?j = ?i \<and> r = s")
        case True
        then have "se_key sc' (slot_entry sc' ?j r) \<noteq> k'" using at(2) e(2) False unfolding same by metis
        with ne [of r] True show ?thesis by blast
      next
        case other: False
        then have "slot_live sc' ?j r = slot_live sc ?j r" "slot_entry sc' ?j r = slot_entry sc ?j r"
          unfolding live ent by auto
        then show ?thesis unfolding same by simp
      qed
      then show ?thesis using False by (simp add: sc_view_iff [OF inv])
    qed
  qed
qed

lemma pool_ok_cong:
  assumes "sc_segments sc' = sc_segments sc" "sc_free_queue sc' = sc_free_queue sc" "sc_ttl_shards sc' = sc_ttl_shards sc"
  shows "pool_ok sc' = pool_ok sc"
  using assms by (simp add: pool_ok_def)

lemma ht_clear_view:
  assumes inv: "sc_inv sc" and s: "ht_slot sc (seg_hash k) k = Some s"
  shows "sc_inv (ht_clear sc (seg_hash k) s)" and "sc_view (ht_clear sc (seg_hash k) s) = (sc_view sc)(k := None)"
proof -
  let ?i = "seg_bucket (seg_hash k)" and ?sc = "ht_clear sc (seg_hash k) s"
  have k: "slot_live sc ?i s" "se_key sc (slot_entry sc ?i s) = k" using s ht_slot_iff [OF inv] by auto
  have segs: "sc_segments ?sc = sc_segments sc" "sc_free_queue ?sc = sc_free_queue sc" "sc_ttl_shards ?sc = sc_ttl_shards sc"
    by (simp_all add: ht_clear_def Let_def)
  note same = se_same_segments(1) [OF segs(1)] se_same_segments(2) [OF segs(1)] se_same_segments(3) [OF segs(1,2)]
  have live: "slot_live ?sc i r \<longleftrightarrow> \<not> (i = ?i \<and> r = s) \<and> slot_live sc i r" for i r
    by (auto simp: slot_live_def ht_clear_def Let_def shb_occupied_bit bit_and_not_exp)
  have ent: "slot_entry ?sc = slot_entry sc" by (auto simp: slot_entry_def ht_clear_def Let_def fun_eq_iff)
  have pool: "pool_ok ?sc" using inv pool_ok_cong [OF segs] by (simp add: sc_inv_def)
  have len: "length (shb_entries (sc_hash_table ?sc i)) = SEG_ITEMS_PER_BUCKET" for i
    using inv by (simp add: sc_inv_def ht_clear_def Let_def)
  note uniq = sc_invD(4) [OF inv]
  show i': "sc_inv ?sc"
  proof (rule sc_invI)
    show "r = r'" if "slot_live ?sc i r" "slot_live ?sc i r'" "se_key ?sc (slot_entry ?sc i r) = se_key ?sc (slot_entry ?sc i r')" for i r r'
      using that by (intro uniq [of i r r']) (simp_all add: live ent same)
  qed (use pool len sc_invD(3) [OF inv] in \<open>simp_all add: live ent same\<close>)
  show "sc_view ?sc = (sc_view sc)(k := None)"
  proof (rule sc_view_eqI [OF i'])
    fix k' d
    have "\<not> (seg_bucket (seg_hash k') = ?i \<and> r = s)"
      if "se_key sc (slot_entry sc (seg_bucket (seg_hash k')) r) = k'" "k' \<noteq> k" for r using k that by metis
    moreover have "r = s" if "slot_live sc ?i r" "se_key sc (slot_entry sc ?i r) = k" for r using k that uniq by metis
    ultimately show "((sc_view sc)(k := None)) k' = Some d \<longleftrightarrow>
        (\<exists>r. slot_live ?sc (seg_bucket (seg_hash k')) r \<and> se_key ?sc (slot_entry ?sc (seg_bucket (seg_hash k')) r) = k' \<and>
             se_data ?sc (slot_entry ?sc (seg_bucket (seg_hash k')) r) = d)"
      unfolding live ent same by (cases "k' = k") (simp_all add: sc_view_iff [OF inv], blast+)
  qed
qed

lemma ht_insert_none:
  "ht_insert sc hash idx off key = None \<longleftrightarrow>
     ht_slot sc hash key = None \<and> (\<forall>s < SEG_ITEMS_PER_BUCKET. shb_occupied (sc_hash_table sc (seg_bucket hash)) s)"
proof -
  have "find (\<lambda>s. \<not> shb_occupied (sc_hash_table sc (seg_bucket hash)) s) [0..<SEG_ITEMS_PER_BUCKET] = None \<longleftrightarrow>
      (\<forall>s < SEG_ITEMS_PER_BUCKET. shb_occupied (sc_hash_table sc (seg_bucket hash)) s)" by (auto simp: find_None_iff)
  moreover have "ht_insert sc hash idx off key = None \<longleftrightarrow> ht_slot sc hash key = None \<and>
      find (\<lambda>s. \<not> shb_occupied (sc_hash_table sc (seg_bucket hash)) s) [0..<SEG_ITEMS_PER_BUCKET] = None"
    by (cases "ht_slot sc hash key"; cases "find (\<lambda>s. \<not> shb_occupied (sc_hash_table sc (seg_bucket hash)) s) [0..<SEG_ITEMS_PER_BUCKET]")
      (simp_all add: ht_insert_def Let_def)
  ultimately show ?thesis by simp
qed

lemma ht_insert_view:
  assumes inv: "sc_inv sc" and ins: "ht_insert sc (seg_hash k) idx off k = Some sc'"
    and e_def: "e = \<lparr>she_key_fp = seg_fp (seg_hash k), she_seg_idx = of_nat idx, she_item_offset = off\<rparr>"
    and e: "index_ok sc (seg_bucket (seg_hash k)) e" and k: "se_key sc e = k"
  shows "sc_inv sc'" and "sc_view sc' = (sc_view sc)(k \<mapsto> se_data sc e)" and "sc_segments sc' = sc_segments sc"
    and "sc_free_queue sc' = sc_free_queue sc" "sc_ttl_shards sc' = sc_ttl_shards sc"
proof -
  let ?i = "seg_bucket (seg_hash k)"
  show segs: "sc_segments sc' = sc_segments sc" "sc_free_queue sc' = sc_free_queue sc" "sc_ttl_shards sc' = sc_ttl_shards sc"
    using ins by (auto simp: ht_insert_def Let_def split: option.splits)
  have pool: "pool_ok sc'" using inv pool_ok_cong [OF segs] by (simp add: sc_inv_def)
  have "sc_inv sc' \<and> sc_view sc' = (sc_view sc)(k \<mapsto> se_data sc e)"
  proof (cases "ht_slot sc (seg_hash k) k")
    case (Some s)
    have s: "slot_live sc ?i s" "se_key sc (slot_entry sc ?i s) = k" using Some ht_slot_iff [OF inv] by auto
    then have fp: "she_key_fp (slot_entry sc ?i s) = seg_fp (seg_hash k)" using sc_invD(3) [OF inv s(1)] by (simp add: index_ok_def)
    have other: "r = s" if "slot_live sc ?i r" "se_key sc (slot_entry sc ?i r) = k" for r
      using s that sc_invD(4) [OF inv] by metis
    let ?bkt = "(sc_hash_table sc ?i)\<lparr>shb_entries := (shb_entries (sc_hash_table sc ?i))[s := e]\<rparr>"
    have "(shb_entries (sc_hash_table sc ?i) ! s)\<lparr>she_seg_idx := of_nat idx, she_item_offset := off\<rparr> = e"
      using fp by (simp add: slot_entry_def e_def)
    then have ht: "sc_hash_table sc' = (sc_hash_table sc)(?i := ?bkt)"
      using ins Some by (auto simp: ht_insert_def Let_def)
    have occ: "shb_occupied ?bkt r \<longleftrightarrow> r = s \<or> shb_occupied (sc_hash_table sc ?i) r" for r
      using s(1) by (auto simp: slot_live_def shb_occupied_def)
    show ?thesis
      using index_put [OF inv segs(1,2) pool e k _ other _ ht _ occ] s by (simp add: slot_live_def)
  next
    case None
    then obtain s where f: "find (\<lambda>s. \<not> shb_occupied (sc_hash_table sc ?i) s) [0..<SEG_ITEMS_PER_BUCKET] = Some s"
      using ins by (auto simp: ht_insert_def Let_def split: option.splits)
    have s: "\<not> shb_occupied (sc_hash_table sc ?i) s" "s < SEG_ITEMS_PER_BUCKET" using find_SomeD [OF f] by auto
    have other: "r = s" if "slot_live sc ?i r" "se_key sc (slot_entry sc ?i r) = k" for r
      using None ht_slot_iff [OF inv, of k r] that by simp
    let ?bkt = "(sc_hash_table sc ?i)\<lparr>shb_entries := (shb_entries (sc_hash_table sc ?i))[s := e],
      shb_occupancy := shb_occupancy (sc_hash_table sc ?i) OR push_bit s 1\<rparr>"
    have ht: "sc_hash_table sc' = (sc_hash_table sc)(?i := ?bkt)"
      using ins None f by (auto simp: ht_insert_def Let_def e_def)
    have occ: "shb_occupied ?bkt r \<longleftrightarrow> r = s \<or> shb_occupied (sc_hash_table sc ?i) r" for r
      using s(2) by (auto simp: shb_occupied_bit bit_or_exp SEG_ITEMS_PER_BUCKET_def)
    show ?thesis
      using index_put [OF inv segs(1,2) pool e k s(2) other _ ht _ occ] s by (simp add: slot_live_def)
  qed
  then show "sc_inv sc'" "sc_view sc' = (sc_view sc)(k \<mapsto> se_data sc e)" by simp_all
qed

subsection \<open>Writing an item\<close>

lemma packed_fields:
  fixes f x y z :: u64
  assumes x: "\<And>j. 16 \<le> j \<Longrightarrow> \<not> bit x j" and y: "\<And>j. 16 \<le> j \<Longrightarrow> \<not> bit y j" and z: "\<And>j. 16 \<le> j \<Longrightarrow> \<not> bit z j"
  shows "take_bit 16 (drop_bit 32 (push_bit 48 f OR push_bit 32 x OR push_bit 16 y OR z)) = x"
    and "take_bit 16 (drop_bit 16 (push_bit 48 f OR push_bit 32 x OR push_bit 16 y OR z)) = y"
proof -
  show "take_bit 16 (drop_bit 32 (push_bit 48 f OR push_bit 32 x OR push_bit 16 y OR z)) = x"
    by (rule bit_word_eqI) (subgoal_tac "n < 16 \<or> 16 \<le> n", use x y z in \<open>auto simp: bit_simps\<close>)
  show "take_bit 16 (drop_bit 16 (push_bit 48 f OR push_bit 32 x OR push_bit 16 y OR z)) = y"
    by (rule bit_word_eqI) (subgoal_tac "n < 16 \<or> 16 \<le> n", use x y z in \<open>auto simp: bit_simps\<close>)
qed

lemma header_lengths:
  assumes "kl \<le> 65535" "vl \<le> 65535" "unat b < 1024"
  shows "unat (SEG_HDR_KEY_LEN (seg_header fp kl vl b)) = kl" "unat (SEG_HDR_VAL_LEN (seg_header fp kl vl b)) = vl"
proof -
  have u: "unat (of_nat kl :: u64) = kl" "unat (of_nat vl :: u64) = vl" using assms by (simp_all add: unat_of_nat_eq)
  have k: "\<not> bit (of_nat kl :: u64) j" "\<not> bit (of_nat vl :: u64) j" "\<not> bit (ucast b :: u64) j" if "16 \<le> j" for j
    using that assms u not_bit_unat [of "of_nat kl :: u64" 16 j] not_bit_unat [of "of_nat vl :: u64" 16 j]
      not_bit_unat [of b 16 j] by (simp_all add: bit_ucast_iff)
  have m: "(w :: u64) AND 0xFFFF = take_bit 16 w" for w by (simp add: take_bit_eq_mask mask_eq_exp_minus_1)
  have "SEG_HDR_KEY_LEN (seg_header fp kl vl b) = of_nat kl" "SEG_HDR_VAL_LEN (seg_header fp kl vl b) = of_nat vl"
    unfolding SEG_HDR_KEY_LEN_def SEG_HDR_VAL_LEN_def m seg_header_def by (rule packed_fields; erule k)+
  then show "unat (SEG_HDR_KEY_LEN (seg_header fp kl vl b)) = kl" "unat (SEG_HDR_VAL_LEN (seg_header fp kl vl b)) = vl"
    using u by simp_all
qed

lemma written_item:
  assumes "sgm_data seg' = buf_write (sgm_data seg) off (le_enc 8 hdr @ k @ v)" "off + 8 + length k + length v \<le> length (sgm_data seg)"
    "unat (SEG_HDR_KEY_LEN hdr) = length k" "unat (SEG_HDR_VAL_LEN hdr) = length v"
  shows "item_header seg' off = hdr" "item_key seg' off = k" "item_value seg' off = v"
proof -
  let ?item = "le_enc 8 hdr @ k @ v"
  have r: "buf_read (sgm_data seg') (off + i) n = buf_read ?item i n" if "i + n \<le> length ?item" for i n
    unfolding assms(1) using that assms(2) by (intro buf_read_write_in) simp_all
  have "buf_read (sgm_data seg') off 8 = le_enc 8 hdr" using r [of 0 8] by (simp add: buf_read_def)
  then show h: "item_header seg' off = hdr" by (simp add: item_header_def)
  show "item_key seg' off = k" using r [of 8 "length k"] by (simp add: item_key_def h assms(3) buf_read_def)
  show "item_value seg' off = v"
    using r [of "8 + length k" "length v"] by (simp add: item_value_def h assms(3,4) buf_read_def add.assoc)
qed

text \<open>An item below the write offset is not changed by a write at the write offset.\<close>

lemma same_item_below:
  assumes "sgm_data seg' = buf_write (sgm_data seg) wo xs" "wo \<le> length (sgm_data seg)" "item_end seg off \<le> wo"
    "sgm_ttl_bucket seg' = sgm_ttl_bucket seg" "sgm_create_time seg' = sgm_create_time seg"
  shows "same_item seg seg' off"
proof -
  have r: "buf_read (sgm_data seg') i n = buf_read (sgm_data seg) i n" if "i + n \<le> wo" for i n
    unfolding assms(1) using that assms(2) by (intro buf_read_write_below)
  have h: "item_header seg' off = item_header seg off"
    using assms(3) r [of off 8] by (simp add: item_header_def item_end_def)
  show ?thesis using assms(3-5) r by (simp add: same_item_def h item_key_def item_value_def item_end_def)
qed

definition fits_all :: "NexSegcache \<Rightarrow> nat \<Rightarrow> bool" where
  "fits_all sc n \<longleftrightarrow> (\<forall>seg \<in> set (sc_segments sc). n \<le> length (sgm_data seg))"

lemma seg_ok_update:
  assumes "\<forall>seg \<in> set segs. P seg" "P seg'" "idx < length segs"
  shows "\<forall>seg \<in> set (segs[idx := seg']). P seg"
  using assms by (auto dest!: subsetD [OF set_update_subset_insert])

lemma seg_alloc_frame:
  assumes inv: "sc_inv sc" and a: "seg_alloc now sc b = Some (sc1, idx)"
  shows "sc_inv sc1" "sc_view sc1 = sc_view sc" "idx < length (sc_segments sc)" "idx \<in> set (sc_free_queue sc)"
    "idx \<notin> set (sc_free_queue sc1)" "set (sc_free_queue sc1) \<subseteq> set (sc_free_queue sc)" "sc_ttl_shards sc1 = sc_ttl_shards sc"
    "sc_segments sc1 = (sc_segments sc)[idx := \<lparr>sgm_data = replicate (length (sgm_data (sc_segments sc ! idx))) 0,
        sgm_write_offset = 0, sgm_n_items = 0, sgm_ttl_bucket = b, sgm_create_time = now\<rparr>]"
    "\<And>shard c j. j \<in> set (sc_ttl_shards sc shard c) \<Longrightarrow> j \<noteq> idx"
proof -
  obtain rest where q: "sc_free_queue sc = idx # rest"
    and sc1: "sc1 = sc\<lparr>sc_free_queue := rest, sc_n_free := sc_n_free sc - 1, sc_segments := (sc_segments sc)[idx :=
        \<lparr>sgm_data = replicate (length (sgm_data (sc_segments sc ! idx))) 0, sgm_write_offset = 0, sgm_n_items = 0,
         sgm_ttl_bucket = b, sgm_create_time = now\<rparr>]\<rparr>"
    using a by (auto simp: seg_alloc_def Let_def split: list.splits)
  note p = sc_invD(1) [OF inv]
  show idx: "idx < length (sc_segments sc)" "idx \<in> set (sc_free_queue sc)" using p q by (auto simp: pool_ok_def)
  show fr: "idx \<notin> set (sc_free_queue sc1)" "set (sc_free_queue sc1) \<subseteq> set (sc_free_queue sc)" "sc_ttl_shards sc1 = sc_ttl_shards sc"
    using p q by (auto simp: sc1 pool_ok_def)
  show segs: "sc_segments sc1 = (sc_segments sc)[idx := \<lparr>sgm_data = replicate (length (sgm_data (sc_segments sc ! idx))) 0,
        sgm_write_offset = 0, sgm_n_items = 0, sgm_ttl_bucket = b, sgm_create_time = now\<rparr>]" by (simp add: sc1)
  show ne: "j \<noteq> idx" if "j \<in> set (sc_ttl_shards sc shard c)" for shard c j using p that idx(2) by (auto simp: pool_ok_def)
  have "seg_ok (sc_segments sc ! idx)" using p idx(1) by (simp add: pool_ok_def)
  then have "\<forall>seg \<in> set (sc_segments sc1). seg_ok seg"
    unfolding segs using p idx(1) by (intro seg_ok_update) (simp_all add: pool_ok_def seg_ok_def)
  moreover have "j < length (sc_segments sc1) \<and> j \<notin> set (sc_free_queue sc1) \<and> sgm_ttl_bucket (sc_segments sc1 ! j) = c"
    if "j \<in> set (sc_ttl_shards sc shard c)" for shard c j
    using p that ne [OF that] fr(2) by (auto simp: pool_ok_def segs)
  ultimately have pool: "pool_ok sc1" using p q unfolding pool_ok_def fr(3) by (auto simp: sc1)
  have ht: "sc_hash_table sc1 = sc_hash_table sc" by (simp add: sc1)
  have len: "length (sc_segments sc1) = length (sc_segments sc)" by (simp add: segs)
  have same: "same_item (se_seg sc (slot_entry sc i s)) (se_seg sc1 (slot_entry sc i s)) (se_off (slot_entry sc i s)) \<and>
       item_end (se_seg sc (slot_entry sc i s)) (se_off (slot_entry sc i s)) \<le> unat (sgm_write_offset (se_seg sc1 (slot_entry sc i s)))"
    if "slot_live sc i s" for i s
  proof -
    have ok: "index_ok sc i (slot_entry sc i s)" using sc_invD(3) [OF inv that] .
    then have "unat (she_seg_idx (slot_entry sc i s)) \<noteq> idx" using idx(2) by (auto simp: index_ok_def)
    then have "se_seg sc1 (slot_entry sc i s) = se_seg sc (slot_entry sc i s)" by (simp add: se_seg_def segs)
    with ok show ?thesis by (simp add: same_item_def index_ok_def)
  qed
  show "sc_inv sc1" "sc_view sc1 = sc_view sc" by (rule segs_frame [OF inv ht pool len fr(2) same]; assumption)+
qed

text \<open>
  The time from which the lifetime of an item of \<open>n\<close> bytes counts: the creation time of the current
  segment of its TTL list when the item goes there, the time of the call when a segment is opened.
\<close>

definition write_time :: "u32 \<Rightarrow> NexSegcache \<Rightarrow> nat \<Rightarrow> u32 \<Rightarrow> nat \<Rightarrow> u32" where
  "write_time now sc shard b n =
     (case sc_ttl_shards sc shard b of
        [] \<Rightarrow> now
      | idx # rest \<Rightarrow>
          let seg = sc_segments sc ! idx
          in if unat (sgm_write_offset seg) + n \<le> length (sgm_data seg) then sgm_create_time seg else now)"

lemma room_test:
  assumes ok: "seg_ok seg" and n: "n < 2 ^ 18"
  shows "of_nat (length (sgm_data seg)) < sgm_write_offset seg + of_nat n \<longleftrightarrow>
    \<not> unat (sgm_write_offset seg) + n \<le> length (sgm_data seg)"
proof -
  have un: "unat (of_nat n :: u32) = n" "unat (of_nat (length (sgm_data seg)) :: u32) = length (sgm_data seg)"
    using n ok by (simp_all add: unat_of_nat_eq seg_ok_def)
  have "unat (sgm_write_offset seg + of_nat n) = unat (sgm_write_offset seg) + n"
    using un(1) n ok by (simp add: unat_word_ariths seg_ok_def)
  with un show ?thesis by (auto simp: word_less_nat_alt)
qed

lemma seg_for_write_table:
  "seg_for_write now sc shard b n = Some (sc1, idx) \<Longrightarrow> sc_hash_table sc1 = sc_hash_table sc"
  by (auto simp: seg_for_write_def seg_alloc_def Let_def split: list.splits if_splits option.splits)

lemma seg_for_write_none:
  assumes "pool_ok sc" "n < 2 ^ 18"
  shows "seg_for_write now sc shard b (of_nat n) = None \<longleftrightarrow>
    sc_free_queue sc = [] \<and> (\<forall>idx rest. sc_ttl_shards sc shard b = idx # rest \<longrightarrow>
      \<not> unat (sgm_write_offset (sc_segments sc ! idx)) + n \<le> length (sgm_data (sc_segments sc ! idx)))"
proof (cases "sc_ttl_shards sc shard b")
  case Nil
  then show ?thesis by (auto simp: seg_for_write_def seg_alloc_def Let_def split: list.splits)
next
  case (Cons i rest)
  then have "i < length (sc_segments sc)" using assms(1) unfolding pool_ok_def by (metis list.set_intros(1))
  then have "seg_ok (sc_segments sc ! i)" using assms(1) by (simp add: pool_ok_def)
  with Cons room_test [OF this assms(2)] show ?thesis
    by (auto simp: seg_for_write_def seg_alloc_def Let_def split: list.splits)
qed

lemma seg_for_write_frame:
  assumes inv: "sc_inv sc" and fits: "fits_all sc n" and n: "n < 2 ^ 18"
    and w: "seg_for_write now sc shard b (of_nat n) = Some (sc1, idx)"
  shows "sc_inv sc1" "sc_view sc1 = sc_view sc" "idx < length (sc_segments sc1)" "idx \<notin> set (sc_free_queue sc1)"
    "unat (sgm_write_offset (sc_segments sc1 ! idx)) + n \<le> length (sgm_data (sc_segments sc1 ! idx))"
    "sgm_ttl_bucket (sc_segments sc1 ! idx) = b"
    "sgm_create_time (sc_segments sc1 ! idx) = write_time now sc shard b n"
proof -
  note p = sc_invD(1) [OF inv]
  consider (old) rest where "sc_ttl_shards sc shard b = idx # rest" "sc1 = sc"
      "\<not> of_nat (length (sgm_data (sc_segments sc ! idx))) < sgm_write_offset (sc_segments sc ! idx) + of_nat n"
    | (fresh) sc2 where "seg_alloc now sc b = Some (sc2, idx)"
      "\<forall>i rest. sc_ttl_shards sc shard b = i # rest \<longrightarrow>
         of_nat (length (sgm_data (sc_segments sc ! i))) < sgm_write_offset (sc_segments sc ! i) + of_nat n"
      "sc1 = sc2\<lparr>sc_ttl_shards := (sc_ttl_shards sc2)(shard := (sc_ttl_shards sc2 shard)(b := idx # sc_ttl_shards sc2 shard b))\<rparr>"
    using w by (auto simp: seg_for_write_def Let_def split: list.splits if_splits option.splits)
  then have "sc_inv sc1 \<and> sc_view sc1 = sc_view sc \<and> idx < length (sc_segments sc1) \<and> idx \<notin> set (sc_free_queue sc1) \<and>
    unat (sgm_write_offset (sc_segments sc1 ! idx)) + n \<le> length (sgm_data (sc_segments sc1 ! idx)) \<and>
    sgm_ttl_bucket (sc_segments sc1 ! idx) = b \<and>
    sgm_create_time (sc_segments sc1 ! idx) = write_time now sc shard b n"
  proof cases
    case old
    let ?seg = "sc_segments sc ! idx"
    have idx: "idx \<in> set (sc_ttl_shards sc shard b)" using old(1) by simp
    then have i: "idx < length (sc_segments sc)" "idx \<notin> set (sc_free_queue sc)" "sgm_ttl_bucket ?seg = b"
      using p by (auto simp: pool_ok_def)
    then have ok: "seg_ok ?seg" using p by (simp add: pool_ok_def)
    have "unat (sgm_write_offset ?seg) + n \<le> length (sgm_data ?seg)" using old(3) room_test [OF ok n] by simp
    with i inv old(1,2) show ?thesis by (simp add: write_time_def)
  next
    case fresh
    note f = seg_alloc_frame [OF inv fresh(1)]
    have segs: "sc_segments sc1 = sc_segments sc2" "sc_free_queue sc1 = sc_free_queue sc2" "sc_hash_table sc1 = sc_hash_table sc2"
      by (simp_all add: fresh(3))
    have at: "sc_segments sc2 ! idx = \<lparr>sgm_data = replicate (length (sgm_data (sc_segments sc ! idx))) 0,
        sgm_write_offset = 0, sgm_n_items = 0, sgm_ttl_bucket = b, sgm_create_time = now\<rparr>" using f(3,8) by simp
    have len: "length (sc_segments sc2) = length (sc_segments sc)" using f(8) by simp
    have "pool_ok sc1" using sc_invD(1) [OF f(1)] f(3,5) len at by (auto simp: pool_ok_def fresh(3))
    then have fr: "sc_inv sc1" "sc_view sc1 = sc_view sc2"
      using segs_frame [OF f(1) segs(3)] sc_invD(3) [OF f(1)] segs
      by (simp_all add: same_item_def index_ok_def se_seg_def)
    have "n \<le> length (sgm_data (sc_segments sc ! idx))" using fits f(3) by (simp add: fits_all_def)
    moreover have "write_time now sc shard b n = now"
    proof (cases "sc_ttl_shards sc shard b")
      case (Cons i rest)
      then have "i < length (sc_segments sc)" using p unfolding pool_ok_def by (metis list.set_intros(1))
      then have "seg_ok (sc_segments sc ! i)" using p by (simp add: pool_ok_def)
      with Cons fresh(2) room_test [OF _ n] show ?thesis by (simp add: write_time_def)
    qed (simp add: write_time_def)
    ultimately show ?thesis using fr f(2,3,5) segs at len by simp
  qed
  then show "sc_inv sc1" "sc_view sc1 = sc_view sc" "idx < length (sc_segments sc1)" "idx \<notin> set (sc_free_queue sc1)"
    "unat (sgm_write_offset (sc_segments sc1 ! idx)) + n \<le> length (sgm_data (sc_segments sc1 ! idx))"
    "sgm_ttl_bucket (sc_segments sc1 ! idx) = b"
    "sgm_create_time (sc_segments sc1 ! idx) = write_time now sc shard b n"
    by blast+
qed

text \<open>Writing at the write offset of an allocated segment, whether or not the offset then moves.\<close>

lemma seg_write_frame:
  assumes inv: "sc_inv sc" and idx: "idx < length (sc_segments sc)"
    and wo: "unat (sgm_write_offset (sc_segments sc ! idx)) + length item \<le> length (sgm_data (sc_segments sc ! idx))"
    and seg': "sgm_data seg' = buf_write (sgm_data (sc_segments sc ! idx)) (unat (sgm_write_offset (sc_segments sc ! idx))) item"
      "sgm_ttl_bucket seg' = sgm_ttl_bucket (sc_segments sc ! idx)" "sgm_create_time seg' = sgm_create_time (sc_segments sc ! idx)"
      "unat (sgm_write_offset (sc_segments sc ! idx)) \<le> unat (sgm_write_offset seg')" "seg_ok seg'"
    and sc': "sc_segments sc' = (sc_segments sc)[idx := seg']" "sc_free_queue sc' = sc_free_queue sc"
      "sc_ttl_shards sc' = sc_ttl_shards sc" "sc_hash_table sc' = sc_hash_table sc"
  shows "sc_inv sc'" "sc_view sc' = sc_view sc"
proof -
  let ?seg = "sc_segments sc ! idx"
  note p = sc_invD(1) [OF inv]
  have "\<forall>seg \<in> set (sc_segments sc'). seg_ok seg"
    unfolding sc'(1) using p idx seg'(5) by (intro seg_ok_update) (simp_all add: pool_ok_def)
  then have pool: "pool_ok sc'" using p idx seg'(2) unfolding pool_ok_def sc' by (auto simp: nth_list_update)
  have len: "length (sc_segments sc') = length (sc_segments sc)" by (simp add: sc')
  have same: "same_item (se_seg sc (slot_entry sc i s)) (se_seg sc' (slot_entry sc i s)) (se_off (slot_entry sc i s)) \<and>
       item_end (se_seg sc (slot_entry sc i s)) (se_off (slot_entry sc i s)) \<le> unat (sgm_write_offset (se_seg sc' (slot_entry sc i s)))"
    if "slot_live sc i s" for i s
  proof -
    let ?e = "slot_entry sc i s"
    have ok: "index_ok sc i ?e" using sc_invD(3) [OF inv that] .
    show ?thesis
    proof (cases "unat (she_seg_idx ?e) = idx")
      case False
      then have "se_seg sc' ?e = se_seg sc ?e" by (simp add: se_seg_def sc')
      with ok show ?thesis by (simp add: same_item_def index_ok_def)
    next
      case True
      then have e: "se_seg sc ?e = ?seg" "se_seg sc' ?e = seg'" using idx by (simp_all add: se_seg_def sc')
      then have fin: "item_end ?seg (se_off ?e) \<le> unat (sgm_write_offset ?seg)" using ok by (simp add: index_ok_def)
      have "same_item ?seg seg' (se_off ?e)" by (rule same_item_below [OF seg'(1) _ fin seg'(2,3)]) (use wo in simp)
      with fin seg'(4) e show ?thesis by simp
    qed
  qed
  show "sc_inv sc'" "sc_view sc' = sc_view sc"
    by (rule segs_frame [OF inv sc'(4) pool len _ same]; simp add: sc'(2))+
qed

subsection \<open>Set and get\<close>

lemma upd_stats_same [simp]:
  "sc_segments (upd_stats shard f sc) = sc_segments sc" "sc_hash_table (upd_stats shard f sc) = sc_hash_table sc"
  "sc_free_queue (upd_stats shard f sc) = sc_free_queue sc" "sc_ttl_shards (upd_stats shard f sc) = sc_ttl_shards sc"
  by (simp_all add: upd_stats_def)

lemma sc_cong:
  assumes "sc_segments sc' = sc_segments sc" "sc_hash_table sc' = sc_hash_table sc" "sc_free_queue sc' = sc_free_queue sc"
    "sc_ttl_shards sc' = sc_ttl_shards sc" and inv: "sc_inv sc"
  shows "sc_inv sc'" "sc_view sc' = sc_view sc"
proof -
  have pool: "pool_ok sc'" using pool_ok_cong [OF assms(1,3,4)] sc_invD(1) [OF inv] by simp
  show "sc_inv sc'" "sc_view sc' = sc_view sc"
    by (rule segs_frame [OF inv assms(2) pool];
        use assms sc_invD(3) [OF inv] in \<open>simp add: same_item_def se_seg_def index_ok_def\<close>)+
qed

text \<open>What a reader is told about an entry at a time.\<close>

definition entry_expired :: "u32 \<Rightarrow> bytes \<times> u32 \<times> u32 \<Rightarrow> bool" where
  "entry_expired now d =
     (case d of (v, b, c) \<Rightarrow> 0 < bucket_to_ttl_seconds b \<and> c + bucket_to_ttl_seconds b \<le> now)"

definition sc_answer :: "u32 \<Rightarrow> nat \<Rightarrow> (bytes \<times> u32 \<times> u32) option \<Rightarrow> seg_result" where
  "sc_answer now buf_len r =
     (case r of None \<Rightarrow> SegMiss
      | Some d \<Rightarrow> if entry_expired now d then SegMiss
                  else if buf_len < length (fst d) then SegTooSmall (length (fst d)) else SegHit (fst d))"

lemma item_value_length:
  assumes "index_ok sc i e" "pool_ok sc"
  shows "length (item_value (se_seg sc e) (se_off e)) = unat (SEG_HDR_VAL_LEN (item_header (se_seg sc e) (se_off e)))"
proof -
  have "seg_ok (se_seg sc e)" using assms by (simp add: index_ok_def pool_ok_def se_seg_def)
  then have "item_end (se_seg sc e) (se_off e) \<le> length (sgm_data (se_seg sc e))"
    using assms(1) by (simp add: index_ok_def seg_ok_def)
  then show ?thesis unfolding item_value_def by (intro length_buf_read) (simp add: item_end_def)
qed

lemma segcache_get_view:
  assumes inv: "sc_inv sc"
  shows "snd (segcache_get now sc (Some k) buf_len) = sc_answer now buf_len (sc_view sc k)"
    and "sc_inv (fst (segcache_get now sc (Some k) buf_len))"
    and "sc_view (fst (segcache_get now sc (Some k) buf_len)) =
      (case sc_view sc k of None \<Rightarrow> sc_view sc | Some d \<Rightarrow> if entry_expired now d then (sc_view sc)(k := None) else sc_view sc)"
proof -
  let ?g = "segcache_get now sc (Some k) buf_len" and ?i = "seg_bucket (seg_hash k)"
  have "snd ?g = sc_answer now buf_len (sc_view sc k) \<and> sc_inv (fst ?g) \<and> sc_view (fst ?g) =
      (case sc_view sc k of None \<Rightarrow> sc_view sc | Some d \<Rightarrow> if entry_expired now d then (sc_view sc)(k := None) else sc_view sc)"
  proof (cases "ht_slot sc (seg_hash k) k")
    case None
    then have "?g = (upd_stats (seg_shard (seg_hash k)) (\<lambda>st. st\<lparr>sst_misses := sst_misses st + 1, sst_gets := sst_gets st + 1\<rparr>) sc, SegMiss)"
      by (simp add: segcache_get_def ht_find_def Let_def)
    moreover have "sc_view sc k = None" using None by (simp add: sc_view_def)
    ultimately show ?thesis using sc_cong [OF _ _ _ _ inv, of "fst ?g"] by (simp add: sc_answer_def)
  next
    case (Some s)
    let ?e = "slot_entry sc ?i s"
    have live: "slot_live sc ?i s" using Some ht_slot_iff [OF inv] by auto
    have ok: "index_ok sc ?i ?e" by (rule sc_invD(3) [OF inv live])
    have v: "sc_view sc k = Some (se_data sc ?e)" using Some by (simp add: sc_view_def)
    have x: "entry_expired now (se_data sc ?e) \<longleftrightarrow> seg_expired now (se_seg sc ?e)"
      by (simp add: entry_expired_def se_data_def seg_expired_def Let_def)
    have vl: "length (fst (se_data sc ?e)) = unat (SEG_HDR_VAL_LEN (item_header (se_seg sc ?e) (se_off ?e)))"
      using item_value_length [OF ok sc_invD(1) [OF inv]] by (simp add: se_data_def)
    show ?thesis
    proof (cases "seg_expired now (se_seg sc ?e)")
      case True
      then have "?g = (upd_stats (seg_shard (seg_hash k)) (\<lambda>st. st\<lparr>sst_misses := sst_misses st + 1, sst_gets := sst_gets st + 1\<rparr>)
          (ht_clear sc (seg_hash k) s), SegMiss)"
        using Some by (simp add: segcache_get_def ht_find_def Let_def slot_entry_def se_seg_def)
      moreover note c = ht_clear_view [OF inv Some]
      ultimately show ?thesis using sc_cong [OF _ _ _ _ c(1), of "fst ?g"] c v x True by (simp add: sc_answer_def)
    next
      case False
      then have "ht_find now sc (seg_hash k) k = (sc, Some ?e)"
        using Some by (simp add: ht_find_def slot_entry_def se_seg_def Let_def)
      then have "snd ?g = sc_answer now buf_len (sc_view sc k)" and f: "sc_segments (fst ?g) = sc_segments sc"
        "sc_hash_table (fst ?g) = sc_hash_table sc" "sc_free_queue (fst ?g) = sc_free_queue sc" "sc_ttl_shards (fst ?g) = sc_ttl_shards sc"
        using v x vl False by (simp_all add: segcache_get_def Let_def sc_answer_def se_data_def se_seg_def se_off_def)
      with sc_cong [OF f inv] v x False show ?thesis by simp
    qed
  qed
  then show "snd ?g = sc_answer now buf_len (sc_view sc k)" "sc_inv (fst ?g)"
    "sc_view (fst ?g) = (case sc_view sc k of None \<Rightarrow> sc_view sc | Some d \<Rightarrow> if entry_expired now d then (sc_view sc)(k := None) else sc_view sc)"
    by simp_all
qed

lemma segcache_set_view:
  assumes inv: "sc_inv sc" and len: "length k \<le> 65535" "length v \<le> 65535" and fits: "fits_all sc (8 + length k + length v)"
    and set: "segcache_set now sc (Some k) (Some v) ttl = (sc', ok)"
  shows "sc_inv sc'" "\<not> ok \<Longrightarrow> sc_view sc' = sc_view sc"
    "ok \<Longrightarrow> sc_view sc' = (sc_view sc)(k \<mapsto>
      (v, ttl_to_bucket ttl, write_time now sc (seg_shard (seg_hash k)) (ttl_to_bucket ttl) (8 + length k + length v)))"
    "ok \<longleftrightarrow> seg_for_write now sc (seg_shard (seg_hash k)) (ttl_to_bucket ttl) (of_nat (8 + length k + length v)) \<noteq> None \<and>
      (sc_view sc k \<noteq> None \<or> (\<exists>s < SEG_ITEMS_PER_BUCKET. \<not> shb_occupied (sc_hash_table sc (seg_bucket (seg_hash k))) s))"
proof -
  let ?h = "seg_hash k" and ?b = "ttl_to_bucket ttl"
  define n where "n = 8 + length k + length v"
  have nb: "n < 2 ^ 18" using len by (simp add: n_def)
  have fits': "fits_all sc n" using fits by (simp add: n_def)
  have b: "unat ?b < 1024" by (auto simp: unat_ttl)
  have "sc_inv sc' \<and> (\<not> ok \<longrightarrow> sc_view sc' = sc_view sc) \<and> 
      (ok \<longrightarrow> sc_view sc' = (sc_view sc)(k \<mapsto> (v, ?b, write_time now sc (seg_shard ?h) ?b n))) \<and>
      (ok \<longleftrightarrow> seg_for_write now sc (seg_shard ?h) ?b (of_nat n) \<noteq> None \<and>
        (sc_view sc k \<noteq> None \<or> (\<exists>s < SEG_ITEMS_PER_BUCKET. \<not> shb_occupied (sc_hash_table sc (seg_bucket ?h)) s)))"
  proof (cases "seg_for_write now sc (seg_shard ?h) ?b (of_nat n)")
    case None
    with set inv show ?thesis by (simp add: segcache_set_def Let_def n_def)
  next
    case (Some r)
    obtain sc1 idx where r: "r = (sc1, idx)" by (cases r)
    note w = seg_for_write_frame [OF inv fits' nb Some [unfolded r]]
    let ?seg = "sc_segments sc1 ! idx"
    let ?off = "sgm_write_offset ?seg" and ?hdr = "seg_header (seg_fp ?h) (length k) (length v) ?b"
    let ?item = "le_enc 8 ?hdr @ k @ v"
    let ?sc2 = "seg_append sc1 idx ?item (of_nat n)"
    let ?seg2 = "?seg\<lparr>sgm_data := buf_write (sgm_data ?seg) (unat ?off) ?item, sgm_write_offset := ?off + of_nat n,
      sgm_n_items := sgm_n_items ?seg + 1\<rparr>"
    have segok: "seg_ok ?seg" using sc_invD(1) [OF w(1)] w(3) by (simp add: pool_ok_def)
    have il: "length ?item = n" by (simp add: n_def)
    have woff: "unat ?off + length ?item \<le> length (sgm_data ?seg)" using w(5) il by simp
    have un: "unat (?off + of_nat n) = unat ?off + n"
      using w(5) segok nb by (simp add: unat_word_ariths unat_of_nat_eq seg_ok_def)
    have ok2: "seg_ok ?seg2" using segok w(5) un il by (simp add: seg_ok_def)
    have sc2: "sc_segments ?sc2 = (sc_segments sc1)[idx := ?seg2]" "sc_free_queue ?sc2 = sc_free_queue sc1"
      "sc_ttl_shards ?sc2 = sc_ttl_shards sc1" "sc_hash_table ?sc2 = sc_hash_table sc1"
      by (simp_all add: seg_append_def Let_def)
    have f2: "sc_inv ?sc2" "sc_view ?sc2 = sc_view sc1"
      by (rule seg_write_frame [OF w(1,3) woff _ _ _ _ ok2 sc2]; simp add: un)+
    have at2: "sc_segments ?sc2 ! idx = ?seg2" using w(3) by (simp add: sc2)
    note hl = header_lengths [OF len b, of "seg_fp ?h"]
    have wi: "item_header ?seg2 (unat ?off) = ?hdr" "item_key ?seg2 (unat ?off) = k" "item_value ?seg2 (unat ?off) = v"
      by (rule written_item [of _ ?seg]; use hl w(5) in \<open>simp add: n_def\<close>)+
    define e where "e = \<lparr>she_key_fp = seg_fp ?h, she_seg_idx = of_nat idx, she_item_offset = ?off\<rparr>"
    have "idx < 65536" using w(3) sc_invD(1) [OF w(1)] by (simp add: pool_ok_def)
    then have ui: "unat (of_nat idx :: u16) = idx" by (simp add: unat_of_nat_eq)
    have es: "se_seg ?sc2 e = ?seg2" "se_off e = unat ?off" by (simp_all add: se_seg_def se_off_def e_def ui at2)
    have key: "se_key ?sc2 e = k" by (simp add: se_key_def es wi)
    have data: "se_data ?sc2 e = (v, ?b, sgm_create_time ?seg)" by (simp add: se_data_def es wi w(6))
    have io: "index_ok ?sc2 (seg_bucket ?h) e"
    proof -
      have "item_end ?seg2 (unat ?off) = unat ?off + 8 + length k + length v" unfolding item_end_def wi(1) hl by simp
      then have "item_end ?seg2 (unat ?off) \<le> unat (sgm_write_offset ?seg2)" using un n_def by simp
      moreover have "unat (she_seg_idx e) = idx" "she_key_fp e = seg_fp ?h" by (simp_all add: e_def ui)
      ultimately show ?thesis using w(3,4) key by (simp add: index_ok_def es sc2)
    qed
    have ins_iff: "ht_insert ?sc2 ?h idx ?off k = None \<longleftrightarrow>
        \<not> (sc_view sc k \<noteq> None \<or> (\<exists>s < SEG_ITEMS_PER_BUCKET. \<not> shb_occupied (sc_hash_table sc (seg_bucket ?h)) s))"
    proof -
      have "ht_slot ?sc2 ?h k = None \<longleftrightarrow> sc_view sc k = None"
        using f2(2) w(2) by (metis option.map_disc_iff sc_view_def)
      moreover have "sc_hash_table ?sc2 = sc_hash_table sc" using sc2(4) seg_for_write_table [OF Some [unfolded r]] by simp
      ultimately show ?thesis unfolding ht_insert_none by metis
    qed
    show ?thesis
    proof (cases "ht_insert ?sc2 ?h idx ?off k")
      case None
      let ?sc3 = "?sc2\<lparr>sc_segments := (sc_segments ?sc2)[idx := ?seg2
          \<lparr>sgm_write_offset := sgm_write_offset ?seg2 - of_nat n, sgm_n_items := sgm_n_items ?seg2 - 1\<rparr>]\<rparr>"
      let ?seg3 = "?seg2\<lparr>sgm_write_offset := ?off, sgm_n_items := sgm_n_items ?seg\<rparr>"
      have r: "(sc', ok) = (?sc3, False)"
        using set Some None at2 by (simp add: segcache_set_def r Let_def n_def)
      have sc3: "sc_segments ?sc3 = (sc_segments sc1)[idx := ?seg3]" "sc_free_queue ?sc3 = sc_free_queue sc1"
        "sc_ttl_shards ?sc3 = sc_ttl_shards sc1" "sc_hash_table ?sc3 = sc_hash_table sc1"
        by (simp_all add: sc2)
      have ok3: "seg_ok ?seg3" using segok w(5) il by (simp add: seg_ok_def)
      have "sc_inv ?sc3" "sc_view ?sc3 = sc_view sc1"
        by (rule seg_write_frame [OF w(1,3) woff _ _ _ _ ok3 sc3]; simp)+
      with r w(2) ins_iff None show ?thesis by simp
    next
      case ins: (Some sc3)
      note v3 = ht_insert_view [OF f2(1) ins e_def io key]
      have r: "ok" "sc_segments sc' = sc_segments sc3" "sc_hash_table sc' = sc_hash_table sc3"
        "sc_free_queue sc' = sc_free_queue sc3" "sc_ttl_shards sc' = sc_ttl_shards sc3"
        using set Some ins by (auto simp: segcache_set_def r Let_def n_def)
      note c = sc_cong [OF r(2-5) v3(1)]
      have "sc_view sc' = (sc_view sc)(k \<mapsto> (v, ?b, sgm_create_time ?seg))" using c(2) v3(2) f2(2) w(2) data by simp
      moreover have "\<not> \<not> (sc_view sc k \<noteq> None \<or> (\<exists>s < SEG_ITEMS_PER_BUCKET. \<not> shb_occupied (sc_hash_table sc (seg_bucket ?h)) s))"
        using ins_iff ins by simp
      ultimately show ?thesis using c(1) r(1) w(7) Some by simp
    qed
  qed
  then show "sc_inv sc'" "\<not> ok \<Longrightarrow> sc_view sc' = sc_view sc"
    "ok \<Longrightarrow> sc_view sc' = (sc_view sc)(k \<mapsto> (v, ?b, write_time now sc (seg_shard ?h) ?b (8 + length k + length v)))"
    "ok \<longleftrightarrow> seg_for_write now sc (seg_shard ?h) ?b (of_nat (8 + length k + length v)) \<noteq> None \<and>
      (sc_view sc k \<noteq> None \<or> (\<exists>s < SEG_ITEMS_PER_BUCKET. \<not> shb_occupied (sc_hash_table sc (seg_bucket ?h)) s))"
    unfolding n_def by blast+
qed


text \<open>Room in the current segment of a TTL list.\<close>

definition has_room :: "NexSegcache \<Rightarrow> nat \<Rightarrow> u32 \<Rightarrow> nat \<Rightarrow> bool" where
  "has_room sc shard b n =
     (case sc_ttl_shards sc shard b of
        [] \<Rightarrow> False
      | idx # rest \<Rightarrow> unat (sgm_write_offset (sc_segments sc ! idx)) + n \<le> length (sgm_data (sc_segments sc ! idx)))"

lemma not_has_room:
  assumes "pool_ok sc" "n < 2 ^ 18"
  shows "seg_for_write now sc shard b (of_nat n) \<noteq> None \<longleftrightarrow> sc_free_queue sc \<noteq> [] \<or> has_room sc shard b n"
  unfolding seg_for_write_none [OF assms] by (auto simp: has_room_def split: list.splits)


text \<open>A fresh cache meets the invariant.\<close>

lemma segcache_create_inv:
  assumes "segcache_create True max_memory ssz = Some sc" "unat ssz + 2 ^ 18 \<le> 2 ^ 32" "0 < ssz"
  shows "sc_inv sc" and "n \<le> unat ssz \<Longrightarrow> fits_all sc n" and "sc_free_queue sc \<noteq> []"
    and "\<not> shb_occupied (sc_hash_table sc i) s" and "sc_ttl_shards sc shard b = []" and "sc_view sc k = None"
proof -
  let ?n = "seg_count max_memory ssz"
  have sz: "ssz \<noteq> 0" using assms(3) by auto
  have sc: "sc_segments sc = replicate (unat ?n) \<lparr>sgm_data = replicate (unat ssz) 0, sgm_write_offset = 0, sgm_n_items = 0,
      sgm_ttl_bucket = 0, sgm_create_time = 0\<rparr>" "sc_free_queue sc = [0..<unat ?n]" "sc_ttl_shards sc = (\<lambda>shard b. [])"
    "\<And>i. sc_hash_table sc i = \<lparr>shb_entries = replicate SEG_ITEMS_PER_BUCKET
       \<lparr>she_key_fp = 0, she_seg_idx = 0, she_item_offset = 0\<rparr>, shb_occupancy = 0\<rparr>"
    using assms(1) sz by (auto simp: segcache_create_def Let_def)
  have "unat ?n \<le> 65536" "0 < unat ?n"
    by (auto simp: seg_count_def Let_def SEG_MAX_SEGMENTS_def NEX_RCU_SHARDS_def word_less_nat_alt split: if_splits)
  with assms(2) have pool: "pool_ok sc" by (simp add: pool_ok_def sc seg_ok_def)
  show free: "\<not> shb_occupied (sc_hash_table sc i) s" for i s by (simp add: sc shb_occupied_def)
  show inv: "sc_inv sc" by (rule sc_invI) (use free in \<open>auto simp: pool slot_live_def sc(4)\<close>)
  show "n \<le> unat ssz \<Longrightarrow> fits_all sc n" by (simp add: fits_all_def sc)
  show "sc_free_queue sc \<noteq> []" using \<open>0 < unat ?n\<close> by (simp add: sc)
  show "sc_ttl_shards sc shard b = []" by (simp add: sc)
  have "ht_slot sc (seg_hash k) k = None" using ht_slot_iff [OF inv, of k] free by (auto simp: slot_live_def)
  then show "sc_view sc k = None" by (simp add: sc_view_def)
qed



text \<open>
  A set can report success and be lost at once.  When the current segment of the TTL list still has
  room but its lifetime is already over, as between two runs of the reaper, the item is appended to
  it all the same, and a get at the same second finds it expired.
\<close>

lemma segcache_set_lost:
  assumes "sc_inv sc" and "length k \<le> 65535" and "length v \<le> 65535" and "fits_all sc (8 + length k + length v)"
    and "sc_ttl_shards sc (seg_shard (seg_hash k)) (ttl_to_bucket ttl) = idx # rest"
    and "unat (sgm_write_offset (sc_segments sc ! idx)) + (8 + length k + length v) \<le> length (sgm_data (sc_segments sc ! idx))"
    and "seg_expired now (sc_segments sc ! idx)"
    and "segcache_set now sc (Some k) (Some v) ttl = (sc', True)"
  shows "snd (segcache_get now sc' (Some k) buf_len) = SegMiss"
proof -
  have b: "sgm_ttl_bucket (sc_segments sc ! idx) = ttl_to_bucket ttl"
    using sc_invD(1) [OF assms(1)] assms(5) unfolding pool_ok_def by (metis list.set_intros(1))
  note v = segcache_set_view [OF assms(1-4,8)]
  have "write_time now sc (seg_shard (seg_hash k)) (ttl_to_bucket ttl) (8 + length k + length v) = sgm_create_time (sc_segments sc ! idx)"
    using assms(5,6) by (simp add: write_time_def)
  then have "entry_expired now (v, ttl_to_bucket ttl, write_time now sc (seg_shard (seg_hash k)) (ttl_to_bucket ttl) (8 + length k + length v))"
    using assms(7) b by (simp add: entry_expired_def seg_expired_def Let_def)
  with v show ?thesis by (simp add: segcache_get_view(1) [OF v(1)] sc_answer_def)
qed

text \<open>The segment that the first set of a TTL bucket opens.\<close>

lemma segcache_set_opens:
  assumes "sc_ttl_shards sc (seg_shard (seg_hash k)) (ttl_to_bucket ttl) = []"
    and "\<forall>idx \<in> set (sc_free_queue sc). idx < length (sc_segments sc)"
    and "segcache_set now sc (Some k) (Some v) ttl = (sc', True)"
  obtains idx where "sc_ttl_shards sc' (seg_shard (seg_hash k)) (ttl_to_bucket ttl) = [idx]" "idx < length (sc_segments sc)"
    "sc_free_queue sc = idx # sc_free_queue sc'"
    "sgm_create_time (sc_segments sc' ! idx) = now" "sgm_ttl_bucket (sc_segments sc' ! idx) = ttl_to_bucket ttl"
    "sgm_write_offset (sc_segments sc' ! idx) = of_nat (8 + length k + length v)"
    "sc_segments sc' = (sc_segments sc)[idx := sc_segments sc' ! idx]"
    "sgm_data (sc_segments sc' ! idx) = buf_write (replicate (length (sgm_data (sc_segments sc ! idx))) 0) 0
       (le_enc 8 (seg_header (seg_fp (seg_hash k)) (length k) (length v) (ttl_to_bucket ttl)) @ k @ v)"
proof -
  obtain idx rest where q: "sc_free_queue sc = idx # rest"
    using assms(1,3) by (auto simp: segcache_set_def seg_for_write_def seg_alloc_def Let_def split: option.splits list.splits)
  have "idx < length (sc_segments sc)" using assms(2) q by simp
  with assms(1,3) q that [of idx] show thesis
    by (auto simp: segcache_set_def seg_for_write_def seg_alloc_def seg_append_def ht_insert_def Let_def split: option.splits)
qed

lemma segcache_set_lost_example:
  "\<exists>sc sc'. sc_inv sc \<and> segcache_set 140 sc (Some [107]) (Some [1, 2]) 30 = (sc', True) \<and>
     snd (segcache_get 140 sc' (Some [107]) 10) = SegMiss"
proof -
  obtain sc0 where c: "segcache_create True 0 1024 = Some sc0" by (simp add: segcache_create_def Let_def)
  note i = segcache_create_inv [OF c, simplified]
  let ?k = "[107 :: u8]" and ?v = "[1 :: u8, 2]" and ?sh = "seg_shard (seg_hash [107])"
  have f: "fits_all sc0 (8 + length ?k + length ?v)" using i(2) [of 11] by simp
  have occ: "\<exists>s < SEG_ITEMS_PER_BUCKET. \<not> shb_occupied (sc_hash_table sc0 (seg_bucket (seg_hash ?k))) s"
    using i(4) by (intro exI [of _ 0]) (simp add: SEG_ITEMS_PER_BUCKET_def)
  have nb: "8 + length ?k + length ?v < 2 ^ 18" by simp
  note room = not_has_room [OF sc_invD(1) nb]
  obtain sc ok where s0: "segcache_set 100 sc0 (Some ?k) (Some ?v) 30 = (sc, ok)" by fastforce
  have ok using segcache_set_view(4) [OF i(1) _ _ f s0] room [OF i(1)] i(3) occ by simp
  with s0 have s1: "segcache_set 100 sc0 (Some ?k) (Some ?v) 30 = (sc, True)" by simp
  have v: "sc_inv sc" "sc_view sc ?k \<noteq> None"
    using segcache_set_view(1) [OF i(1) _ _ f s1] segcache_set_view(3) [OF i(1) _ _ f s1] by simp_all
  have fq: "\<forall>idx \<in> set (sc_free_queue sc0). idx < length (sc_segments sc0)" using sc_invD(1) [OF i(1)] by (simp add: pool_ok_def)
  obtain idx where o: "sc_ttl_shards sc ?sh (ttl_to_bucket 30) = [idx]" "idx < length (sc_segments sc0)"
    "sgm_create_time (sc_segments sc ! idx) = 100" "sgm_ttl_bucket (sc_segments sc ! idx) = ttl_to_bucket 30"
    "sgm_write_offset (sc_segments sc ! idx) = of_nat (8 + length ?k + length ?v)"
    "sc_segments sc = (sc_segments sc0)[idx := sc_segments sc ! idx]"
    "sgm_data (sc_segments sc ! idx) = buf_write (replicate (length (sgm_data (sc_segments sc0 ! idx))) 0) 0
       (le_enc 8 (seg_header (seg_fp (seg_hash ?k)) (length ?k) (length ?v) (ttl_to_bucket 30)) @ ?k @ ?v)"
    by (rule segcache_set_opens [OF i(5) fq s1]) blast
  have l0: "1024 \<le> length (sgm_data seg)" if "seg \<in> set (sc_segments sc0)" for seg using i(2) [of 1024] that by (simp add: fits_all_def)
  have "length (sgm_data (sc_segments sc ! idx)) = length (sgm_data (sc_segments sc0 ! idx))"
    using l0 [of "sc_segments sc0 ! idx"] o(2) by (simp add: o(7))
  then have li: "1024 \<le> length (sgm_data (sc_segments sc ! idx))" using l0 o(2) by simp
  have "fits_all sc 1024"
    unfolding fits_all_def by (subst o(6), rule seg_ok_update) (use l0 li o(2) in auto)
  then have f1: "fits_all sc (8 + length ?k + length ?v)" by (auto simp: fits_all_def)
  have x: "seg_expired 140 (sc_segments sc ! idx)"
    by (simp add: seg_expired_def Let_def o(3,4) ttl_to_bucket_def bucket_to_ttl_seconds_def)
  have fit: "unat (sgm_write_offset (sc_segments sc ! idx)) + (8 + length ?k + length ?v) \<le> length (sgm_data (sc_segments sc ! idx))"
    using li by (simp add: o(5))
  obtain sc' ok' where s2: "segcache_set 140 sc (Some ?k) (Some ?v) 30 = (sc', ok')" by fastforce
  have "has_room sc ?sh (ttl_to_bucket 30) (8 + length ?k + length ?v)" using fit by (simp add: has_room_def o(1))
  then have ok' using segcache_set_view(4) [OF v(1) _ _ f1 s2] room [OF v(1)] v(2) by simp
  with s2 have s2: "segcache_set 140 sc (Some ?k) (Some ?v) 30 = (sc', True)" by simp
  show ?thesis using v(1) s2 segcache_set_lost [OF v(1) _ _ f1 o(1) fit x s2, of 10] by auto
qed

end
