(* ===== verification/Nex_Mpsc.thy ===== *)
theory Nex_Mpsc
  imports Nex_Prelude
begin

text \<open>
  The intrusive multi-producer single-consumer queue of \<open>vera_lockfree.h\<close>, used for the pool of free
  segments.  The nodes are linked through their \<open>next\<close> fields from the tail, where the consumer takes
  nodes, to the head, where producers add them; a stub node keeps the list from being empty.

  The first part gives the operations as functions and shows that, run one after the other, they
  are a first-in first-out queue.  The second part splits them at their atomic accesses and lets any
  number of producers run against one consumer.
\<close>

datatype node = Stub | Node nat

record mpsc_queue =
  mq_next :: "node \<Rightarrow> node option"
  mq_head :: node
  mq_tail :: node

definition mpsc_init :: "mpsc_queue \<Rightarrow> mpsc_queue" where
  "mpsc_init q = q\<lparr>mq_head := Stub, mq_tail := Stub, mq_next := (mq_next q)(Stub := None)\<rparr>"

definition mpsc_enqueue :: "mpsc_queue \<Rightarrow> node \<Rightarrow> mpsc_queue" where
  "mpsc_enqueue q n =
     (let prev = mq_head q; nx = (mq_next q)(n := None)
      in q\<lparr>mq_head := n, mq_next := nx(prev := Some n)\<rparr>)"

definition mpsc_dequeue :: "mpsc_queue \<Rightarrow> mpsc_queue \<times> node option" where
  "mpsc_dequeue q =
     (let fetch = (\<lambda>q tail.
            case mq_next q tail of
              Some next \<Rightarrow> (q\<lparr>mq_tail := next\<rparr>, Some tail)
            | None \<Rightarrow>
                if tail \<noteq> mq_head q then (q, None)
                else let q' = mpsc_enqueue q Stub
                     in case mq_next q' tail of
                          Some next \<Rightarrow> (q'\<lparr>mq_tail := next\<rparr>, Some tail)
                        | None \<Rightarrow> (q', None))
      in if mq_tail q = Stub
         then case mq_next q Stub of
                None \<Rightarrow> (q, None)
              | Some next \<Rightarrow> fetch (q\<lparr>mq_tail := next\<rparr>) next
         else fetch q (mq_tail q))"

subsection \<open>Chains of nodes\<close>

text \<open>
  The nodes from tail to head: each is linked to the next one, or its link is still pending, because
  its producer has exchanged the head but not yet written the \<open>next\<close> field.
\<close>

fun links :: "node list \<Rightarrow> (node \<times> node) set" where
  "links (a # b # ts) = insert (a, b) (links (b # ts))"
| "links ts = {}"

definition linked :: "(node \<Rightarrow> node option) \<Rightarrow> (node \<times> node) set \<Rightarrow> node list \<Rightarrow> bool" where
  "linked nx P ts \<longleftrightarrow> ts \<noteq> [] \<and> distinct ts \<and> P \<subseteq> links ts \<and> nx (last ts) = None \<and>
     (\<forall>a b. (a, b) \<in> links ts \<longrightarrow> nx a = (if (a, b) \<in> P then None else Some b))"

lemma links_in: "(a, b) \<in> links ts \<Longrightarrow> a \<in> set ts \<and> b \<in> set ts"
  by (induction ts rule: links.induct) auto

lemma links_snoc: "ts \<noteq> [] \<Longrightarrow> links (ts @ [n]) = insert (last ts, n) (links ts)"
  by (induction ts rule: links.induct) auto

lemma links_last: "distinct ts \<Longrightarrow> (a, b) \<in> links ts \<Longrightarrow> a \<noteq> last ts"
  by (induction ts rule: links.induct) (auto dest: links_in)

lemma links_unique: "distinct ts \<Longrightarrow> (a, b) \<in> links ts \<Longrightarrow> (a, c) \<in> links ts \<Longrightarrow> b = c"
  by (induction ts rule: links.induct) (auto dest: links_in)

lemma linked_snoc:
  assumes "linked nx P ts" "n \<notin> set ts"
  shows "linked (nx(n := None)) (insert (last ts, n) P) (ts @ [n])"
proof -
  have "a \<noteq> n" "a \<noteq> last ts" if "(a, b) \<in> links ts" for a b
    using that assms links_in [OF that] links_last [OF _ that] by (auto simp: linked_def)
  moreover have "last ts \<noteq> n" using assms last_in_set [of ts] by (auto simp: linked_def)
  ultimately show ?thesis using assms by (auto simp: linked_def links_snoc)
qed

lemma linked_link:
  assumes "linked nx P ts" "(p, n) \<in> P"
  shows "linked (nx(p := Some n)) (P - {(p, n)}) ts"
proof -
  have pn: "(p, n) \<in> links ts" "distinct ts" using assms by (auto simp: linked_def)
  then have "p \<noteq> last ts" "\<And>b. (p, b) \<in> links ts \<Longrightarrow> b = n" using links_last links_unique by blast+
  then show ?thesis using assms by (auto simp: linked_def)
qed

lemma linked_step:
  assumes "linked nx P (t # ts)" "nx t = Some m"
  obtains ts' where "ts = m # ts'" "linked nx P (m # ts')"
proof (cases ts)
  case Nil
  with assms show thesis by (simp add: linked_def)
next
  case (Cons b ts')
  with assms have "b = m" "(t, b) \<notin> P" by (auto simp: linked_def split: if_splits)
  with Cons assms(1) that show thesis by (auto simp: linked_def)
qed

lemma linked_single:
  assumes "linked nx P (t # ts)" "last (t # ts) = t"
  shows "ts = []"
proof (rule ccontr)
  assume "ts \<noteq> []"
  with assms have "t \<in> set ts" using last_in_set [of ts] by simp
  with assms(1) show False by (simp add: linked_def)
qed

lemma linked_restart:
  assumes "linked nx P ts" "n \<notin> set ts"
  shows "linked (nx(n := x)) P ts"
  using assms last_in_set [of ts] by (auto simp: linked_def dest: links_in)

subsection \<open>One operation at a time\<close>

text \<open>The queue holds the nodes of its chain other than the stub.\<close>

definition mq_rep :: "mpsc_queue \<Rightarrow> node list \<Rightarrow> bool" where
  "mq_rep q xs \<longleftrightarrow> (\<exists>ts. linked (mq_next q) {} (mq_tail q # ts) \<and> last (mq_tail q # ts) = mq_head q \<and>
     filter (\<lambda>n. n \<noteq> Stub) (mq_tail q # ts) = xs)"

text \<open>Dequeuing up to \<open>n\<close> nodes, as long as there are any.\<close>

primrec drain :: "('q \<Rightarrow> 'q \<times> 'a option) \<Rightarrow> nat \<Rightarrow> 'q \<Rightarrow> 'q \<times> 'a list" where
  "drain deq 0 q = (q, [])"
| "drain deq (Suc n) q =
     (case deq q of
        (q', None) \<Rightarrow> (q', [])
      | (q', Some x) \<Rightarrow> (case drain deq n q' of (q'', xs) \<Rightarrow> (q'', x # xs)))"

text \<open>What a client of a queue relies on.\<close>

locale fifo_queue =
  fixes enq :: "'q \<Rightarrow> 'a \<Rightarrow> 'q" and deq :: "'q \<Rightarrow> 'q \<times> 'a option"
    and rep :: "'q \<Rightarrow> 'a list \<Rightarrow> bool" and item_ok :: "'a \<Rightarrow> bool"
  assumes rep_enq: "rep q xs \<Longrightarrow> item_ok x \<Longrightarrow> x \<notin> set xs \<Longrightarrow> rep (enq q x) (xs @ [x])"
    and rep_deq_empty: "rep q [] \<Longrightarrow> snd (deq q) = None \<and> rep (fst (deq q)) []"
    and rep_deq: "rep q (x # xs) \<Longrightarrow> snd (deq q) = Some x \<and> rep (fst (deq q)) xs"
begin

text \<open>Enqueuing distinct items and then dequeuing as many returns them in order.\<close>

lemma rep_enqs: "rep q xs \<Longrightarrow> distinct (xs @ ys) \<Longrightarrow> \<forall>y \<in> set ys. item_ok y \<Longrightarrow> rep (foldl enq q ys) (xs @ ys)"
proof (induction ys arbitrary: q xs)
  case (Cons y ys)
  then have "rep (enq q y) (xs @ [y])" by (intro rep_enq) auto
  with Cons.IH [of "enq q y" "xs @ [y]"] Cons.prems show ?case by simp
qed simp

lemma rep_drain: "rep q (xs @ ys) \<Longrightarrow> snd (drain deq (length xs) q) = xs \<and> rep (fst (drain deq (length xs) q)) ys"
proof (induction xs arbitrary: q)
  case (Cons x xs)
  then have d: "snd (deq q) = Some x" "rep (fst (deq q)) (xs @ ys)" using rep_deq [of q x "xs @ ys"] by auto
  obtain q' where q': "deq q = (q', Some x)" using d(1) by (metis prod.collapse)
  with d(2) Cons.IH [of q'] show ?case by (auto split: prod.split)
qed simp

end

lemma mq_rep_enqueue:
  assumes "mq_rep q xs" "x \<noteq> Stub" "x \<notin> set xs"
  shows "mq_rep (mpsc_enqueue q x) (xs @ [x])"
proof -
  obtain ts where ts: "linked (mq_next q) {} (mq_tail q # ts)" "last (mq_tail q # ts) = mq_head q"
    "filter (\<lambda>n. n \<noteq> Stub) (mq_tail q # ts) = xs" using assms(1) unfolding mq_rep_def by blast
  have n: "x \<notin> set (mq_tail q # ts)" using assms(2,3) unfolding ts(3) [symmetric] by (auto split: if_splits)
  have "linked ((mq_next q)(x := None)) {(mq_head q, x)} ((mq_tail q # ts) @ [x])"
    using linked_snoc [OF ts(1) n] ts(2) by simp
  from linked_link [OF this, of "mq_head q" x]
  have "linked (mq_next (mpsc_enqueue q x)) {} (mq_tail q # ts @ [x])" by (simp add: mpsc_enqueue_def Let_def)
  moreover have "mq_tail (mpsc_enqueue q x) = mq_tail q" "mq_head (mpsc_enqueue q x) = x"
    by (simp_all add: mpsc_enqueue_def Let_def)
  ultimately show ?thesis using ts(3) assms(2) unfolding mq_rep_def by (intro exI [of _ "ts @ [x]"]) auto
qed

lemma mq_fetch:
  assumes ts: "linked (mq_next q) {} (t # ts)" "last (t # ts) = mq_head q" "mq_tail q = t" "t \<noteq> Stub"
    and xs: "t # filter (\<lambda>n. n \<noteq> Stub) ts = x # xs"
    and r: "r = (case mq_next q t of
              Some next \<Rightarrow> (q\<lparr>mq_tail := next\<rparr>, Some t)
            | None \<Rightarrow>
                if t \<noteq> mq_head q then (q, None)
                else let q' = mpsc_enqueue q Stub
                     in case mq_next q' t of
                          Some next \<Rightarrow> (q'\<lparr>mq_tail := next\<rparr>, Some t)
                        | None \<Rightarrow> (q', None))"
  shows "snd r = Some x \<and> mq_rep (fst r) xs"
proof (cases "mq_next q t")
  case (Some m)
  then obtain ts' where "ts = m # ts'" "linked (mq_next q) {} (m # ts')" by (rule linked_step [OF ts(1)])
  then have "mq_rep (q\<lparr>mq_tail := m\<rparr>) xs" using ts(2) xs unfolding mq_rep_def by (intro exI [of _ ts']) auto
  with Some r xs show ?thesis by simp
next
  case None
  have "ts = []" using None ts(1) by (cases ts) (auto simp: linked_def split: if_splits)
  then have x: "x = t" "xs = []" "t = mq_head q" using xs ts(2) by auto
  let ?q = "mpsc_enqueue q Stub"
  have "mq_next ?q t = Some Stub" "mq_next ?q Stub = None" "mq_head ?q = Stub"
    using x(3) ts(4) by (auto simp: mpsc_enqueue_def Let_def)
  then have "mq_rep (?q\<lparr>mq_tail := Stub\<rparr>) []" unfolding mq_rep_def by (intro exI [of _ "[]"]) (simp add: linked_def)
  with None r x \<open>mq_next ?q t = Some Stub\<close> show ?thesis by simp
qed

lemma mq_rep_dequeue:
  assumes "mq_rep q ys"
  shows "case ys of [] \<Rightarrow> snd (mpsc_dequeue q) = None \<and> mq_rep (fst (mpsc_dequeue q)) []
    | x # xs \<Rightarrow> snd (mpsc_dequeue q) = Some x \<and> mq_rep (fst (mpsc_dequeue q)) xs"
proof -
  obtain ts where ts: "linked (mq_next q) {} (mq_tail q # ts)" "last (mq_tail q # ts) = mq_head q"
    "filter (\<lambda>n. n \<noteq> Stub) (mq_tail q # ts) = ys" using assms unfolding mq_rep_def by blast
  show ?thesis
  proof (cases "mq_tail q = Stub")
    case stub: True
    show ?thesis
    proof (cases "mq_next q Stub")
      case None
      have "ts = []" using None ts(1) stub by (cases ts) (auto simp: linked_def split: if_splits)
      with ts(3) stub None assms show ?thesis by (simp add: mpsc_dequeue_def)
    next
      case (Some m)
      obtain ts' where t: "ts = m # ts'" "linked (mq_next q) {} (m # ts')"
        using linked_step [OF ts(1)] Some stub by metis
      have ns: "m \<noteq> Stub" "Stub \<notin> set ts'" using ts(1) t(1) stub by (auto simp: linked_def)
      have ys: "ys = m # filter (\<lambda>n. n \<noteq> Stub) ts'" using ts(3) t(1) stub ns by simp
      show ?thesis unfolding ys list.case
        by (rule mq_fetch [of "q\<lparr>mq_tail := m\<rparr>" m ts'])
          (use t(2) ts(2) t(1) ns stub Some in \<open>simp_all add: mpsc_dequeue_def Let_def\<close>)
    qed
  next
    case False
    have ys: "ys = mq_tail q # filter (\<lambda>n. n \<noteq> Stub) ts" using ts(3) False by simp
    show ?thesis unfolding ys list.case
      by (rule mq_fetch [OF ts(1,2)]) (use False in \<open>simp_all add: mpsc_dequeue_def Let_def\<close>)
  qed
qed

interpretation mq: fifo_queue mpsc_enqueue mpsc_dequeue mq_rep "\<lambda>n. n \<noteq> Stub"
proof
  show "mq_rep (mpsc_enqueue q x) (xs @ [x])" if "mq_rep q xs" "x \<noteq> Stub" "x \<notin> set xs" for q xs x
    using mq_rep_enqueue [OF that] .
  show "snd (mpsc_dequeue q) = None \<and> mq_rep (fst (mpsc_dequeue q)) []" if "mq_rep q []" for q
    using mq_rep_dequeue [OF that] by simp
  show "snd (mpsc_dequeue q) = Some x \<and> mq_rep (fst (mpsc_dequeue q)) xs" if "mq_rep q (x # xs)" for q x xs
    using mq_rep_dequeue [OF that] by simp
qed

lemma mq_rep_init: "mq_rep (mpsc_init q) []"
  unfolding mq_rep_def by (intro exI [of _ "[]"]) (simp add: mpsc_init_def linked_def)

subsection \<open>Interleaved producers and one consumer\<close>

text \<open>
  A producer runs \<open>mpsc_enqueue\<close> in three atomic steps: it clears the \<open>next\<close> field of its node, exchanges
  the head, and writes the \<open>next\<close> field of the previous head.  The consumer's program counter names
  the next atomic access of \<open>mpsc_dequeue\<close>; the tail is its own.  \<open>mp_owned\<close> are the nodes outside the
  queue, \<open>mp_ready\<close> those a producer has cleared, \<open>mp_pend\<close> the links still to be written, and
  \<open>mp_in\<close>, \<open>mp_out\<close> record the order of the exchanges and of the returned nodes.
\<close>

datatype con_pc = Idle | Reload node | CheckHead node | PrepStub node | is_ExchStub: ExchStub node
  | LinkStub node node | Final node

record mp_state =
  mp_q :: mpsc_queue
  mp_owned :: "node set"
  mp_ready :: "node set"
  mp_pend :: "(node \<times> node) set"
  mp_pc :: con_pc
  mp_in :: "node list"
  mp_out :: "node list"

definition set_next :: "mpsc_queue \<Rightarrow> node \<Rightarrow> node option \<Rightarrow> mpsc_queue" where
  "set_next q n v = q\<lparr>mq_next := (mq_next q)(n := v)\<rparr>"

definition enq_clear :: "node \<Rightarrow> mp_state \<Rightarrow> mp_state" where
  "enq_clear n s = s\<lparr>mp_q := set_next (mp_q s) n None, mp_owned := mp_owned s - {n},
     mp_ready := insert n (mp_ready s)\<rparr>"

definition enq_exchange :: "node \<Rightarrow> mp_state \<Rightarrow> mp_state" where
  "enq_exchange n s = s\<lparr>mp_q := (mp_q s)\<lparr>mq_head := n\<rparr>, mp_ready := mp_ready s - {n},
     mp_pend := insert (mq_head (mp_q s), n) (mp_pend s), mp_in := mp_in s @ [n]\<rparr>"

definition enq_link :: "node \<times> node \<Rightarrow> mp_state \<Rightarrow> mp_state" where
  "enq_link pn s = s\<lparr>mp_q := set_next (mp_q s) (fst pn) (Some (snd pn)), mp_pend := mp_pend s - {pn}\<rparr>"

definition con_return :: "node \<Rightarrow> node \<Rightarrow> mp_state \<Rightarrow> mp_state" where
  "con_return t next s = s\<lparr>mp_q := (mp_q s)\<lparr>mq_tail := next\<rparr>, mp_pc := Idle, mp_out := mp_out s @ [t],
     mp_owned := insert t (mp_owned s)\<rparr>"

definition con_step :: "mp_state \<Rightarrow> mp_state" where
  "con_step s = (case mp_pc s of
     Idle \<Rightarrow>
       let tail = mq_tail (mp_q s) in
       (case mq_next (mp_q s) tail of
          None \<Rightarrow> if tail = Stub then s else s\<lparr>mp_pc := CheckHead tail\<rparr>
        | Some next \<Rightarrow>
            if tail = Stub then s\<lparr>mp_q := (mp_q s)\<lparr>mq_tail := next\<rparr>, mp_pc := Reload next\<rparr>
            else con_return tail next s)
   | Reload t \<Rightarrow>
       (case mq_next (mp_q s) t of None \<Rightarrow> s\<lparr>mp_pc := CheckHead t\<rparr> | Some next \<Rightarrow> con_return t next s)
   | CheckHead t \<Rightarrow> if t \<noteq> mq_head (mp_q s) then s\<lparr>mp_pc := Idle\<rparr> else s\<lparr>mp_pc := PrepStub t\<rparr>
   | PrepStub t \<Rightarrow> s\<lparr>mp_q := set_next (mp_q s) Stub None, mp_pc := ExchStub t\<rparr>
   | ExchStub t \<Rightarrow> s\<lparr>mp_q := (mp_q s)\<lparr>mq_head := Stub\<rparr>, mp_pc := LinkStub (mq_head (mp_q s)) t\<rparr>
   | LinkStub prev t \<Rightarrow> s\<lparr>mp_q := set_next (mp_q s) prev (Some Stub), mp_pc := Final t\<rparr>
   | Final t \<Rightarrow>
       (case mq_next (mp_q s) t of None \<Rightarrow> s\<lparr>mp_pc := Idle\<rparr> | Some next \<Rightarrow> con_return t next s))"

definition mp_init :: "node set \<Rightarrow> mp_state" where
  "mp_init nodes = \<lparr>mp_q = mpsc_init \<lparr>mq_next = \<lambda>_. None, mq_head = Stub, mq_tail = Stub\<rparr>,
     mp_owned = nodes - {Stub}, mp_ready = {}, mp_pend = {}, mp_pc = Idle, mp_in = [], mp_out = []\<rparr>"

inductive mp_run :: "node set \<Rightarrow> mp_state \<Rightarrow> bool" for nodes where
  mp_start: "mp_run nodes (mp_init nodes)"
| mp_clear: "mp_run nodes s \<Longrightarrow> n \<in> mp_owned s \<Longrightarrow> mp_run nodes (enq_clear n s)"
| mp_exchange: "mp_run nodes s \<Longrightarrow> n \<in> mp_ready s \<Longrightarrow> mp_run nodes (enq_exchange n s)"
| mp_link: "mp_run nodes s \<Longrightarrow> pn \<in> mp_pend s \<Longrightarrow> mp_run nodes (enq_link pn s)"
| mp_consume: "mp_run nodes s \<Longrightarrow> mp_run nodes (con_step s)"

text \<open>The atomic steps, run without interference, are the two functions above.\<close>

lemma enqueue_steps:
  "mp_q (enq_link (mq_head (mp_q s), n) (enq_exchange n (enq_clear n s))) = mpsc_enqueue (mp_q s) n"
  by (simp add: enq_link_def enq_exchange_def enq_clear_def set_next_def mpsc_enqueue_def Let_def)

lemma check_head_steps:
  assumes "mp_pc s = CheckHead t" "t \<noteq> Stub"
  shows "(con_step ^^ (if t = mq_head (mp_q s) then 5 else 1)) s =
    (if t = mq_head (mp_q s)
     then con_return t Stub (s\<lparr>mp_q := mpsc_enqueue (mp_q s) Stub\<rparr>) else s\<lparr>mp_pc := Idle\<rparr>)"
  using assms
  by (auto simp: con_step_def eval_nat_numeral set_next_def con_return_def mpsc_enqueue_def Let_def)

lemma dequeue_steps:
  assumes idle: "mp_pc s = Idle"
  shows "\<exists>k. mp_q ((con_step ^^ k) s) = fst (mpsc_dequeue (mp_q s)) \<and> mp_pc ((con_step ^^ k) s) = Idle \<and>
    mp_out ((con_step ^^ k) s) = mp_out s @ (case snd (mpsc_dequeue (mp_q s)) of None \<Rightarrow> [] | Some n \<Rightarrow> [n])"
    (is "\<exists>k. ?P ((con_step ^^ k) s)")
proof -
  let ?q = "mp_q s" and ?t = "mq_tail (mp_q s)"
  have add: "\<exists>k. ?P ((con_step ^^ k) s)" if "(con_step ^^ j) s = s'" "?P ((con_step ^^ i) s')" for i j s'
    using that by (intro exI [of _ "i + j"]) (simp add: funpow_add)
  show ?thesis
  proof (cases "?t = Stub")
    case False
    show ?thesis
    proof (cases "mq_next ?q ?t")
      case None
      show ?thesis by (rule add [of 1 "s\<lparr>mp_pc := CheckHead ?t\<rparr>" "if ?t = mq_head ?q then 5 else 1"])
        (use False None idle check_head_steps [of "s\<lparr>mp_pc := CheckHead ?t\<rparr>" ?t] in
          \<open>auto simp: con_step_def mpsc_dequeue_def con_return_def Let_def mpsc_enqueue_def\<close>)
    next
      case (Some m)
      show ?thesis by (rule exI [of _ 1])
        (use False Some idle in \<open>simp add: con_step_def mpsc_dequeue_def con_return_def Let_def\<close>)
    qed
  next
    case stub: True
    show ?thesis
    proof (cases "mq_next ?q Stub")
      case None
      show ?thesis by (rule exI [of _ 0])
        (use stub None idle in \<open>simp add: con_step_def mpsc_dequeue_def con_return_def Let_def\<close>)
    next
      case m: (Some m)
      show ?thesis
      proof (cases "mq_next ?q m")
        case (Some l)
        show ?thesis by (rule exI [of _ 2])
          (use stub m Some idle in \<open>simp add: con_step_def mpsc_dequeue_def con_return_def Let_def eval_nat_numeral\<close>)
      next
        case None
        let ?s = "s\<lparr>mp_q := ?q\<lparr>mq_tail := m\<rparr>, mp_pc := CheckHead m\<rparr>"
        have "m \<noteq> Stub" using m None by auto
        moreover have "(con_step ^^ 2) s = ?s"
          using stub m None idle by (simp add: con_step_def numeral_2_eq_2)
        ultimately show ?thesis using stub m None check_head_steps [of ?s m]
          by (intro add [of 2 ?s "if m = mq_head ?q then 5 else 1"])
            (simp_all add: mpsc_dequeue_def con_return_def Let_def mpsc_enqueue_def)
      qed
    qed
  qed
qed

subsection \<open>The invariant of the interleaved runs\<close>

fun pc_pend :: "con_pc \<Rightarrow> (node \<times> node) set" where
  "pc_pend (LinkStub prev t) = {(prev, Stub)}"
| "pc_pend _ = {}"

fun pc_ok :: "con_pc \<Rightarrow> node \<Rightarrow> node list \<Rightarrow> bool" where
  "pc_ok Idle t ts = True"
| "pc_ok (PrepStub u) t ts = (u = t \<and> t \<noteq> Stub \<and> Stub \<notin> set ts)"
| "pc_ok (ExchStub u) t ts = (u = t \<and> t \<noteq> Stub \<and> Stub \<notin> set ts)"
| "pc_ok (LinkStub p u) t ts = (u = t \<and> t \<noteq> Stub)"
| "pc_ok (Reload u) t ts = (u = t \<and> t \<noteq> Stub)"
| "pc_ok (CheckHead u) t ts = (u = t \<and> t \<noteq> Stub)"
| "pc_ok (Final u) t ts = (u = t \<and> t \<noteq> Stub)"

definition mp_inv :: "node list \<Rightarrow> mp_state \<Rightarrow> bool" where
  "mp_inv ts s \<longleftrightarrow>
     linked (mq_next (mp_q s)) (mp_pend s \<union> pc_pend (mp_pc s)) (mq_tail (mp_q s) # ts) \<and>
     last (mq_tail (mp_q s) # ts) = mq_head (mp_q s) \<and>
     mp_in s = mp_out s @ filter (\<lambda>n. n \<noteq> Stub) (mq_tail (mp_q s) # ts) \<and>
     pc_ok (mp_pc s) (mq_tail (mp_q s)) ts \<and>
     Stub \<notin> snd ` mp_pend s \<and> Stub \<notin> mp_owned s \<union> mp_ready s \<and>
     mp_owned s \<inter> mp_ready s = {} \<and> (mp_owned s \<union> mp_ready s) \<inter> set (mq_tail (mp_q s) # ts) = {} \<and>
     (\<forall>n \<in> mp_ready s. mq_next (mp_q s) n = None) \<and>
     (is_ExchStub (mp_pc s) \<longrightarrow> mq_next (mp_q s) Stub = None)"

lemma pc_ok_snoc: "pc_ok pc t ts \<Longrightarrow> n \<noteq> Stub \<Longrightarrow> pc_ok pc t (ts @ [n])"
  by (cases pc) auto

lemma pc_ok_exch: "pc_ok pc t ts \<Longrightarrow> is_ExchStub pc \<Longrightarrow> Stub \<notin> set (t # ts)"
  by (cases pc) auto

lemma mp_inv_init: "mp_inv [] (mp_init nodes)"
  by (simp add: mp_inv_def mp_init_def mpsc_init_def linked_def)

lemma mp_inv_clear:
  assumes "mp_inv ts s" "n \<in> mp_owned s"
  shows "mp_inv ts (enq_clear n s)"
proof -
  have "n \<notin> set (mq_tail (mp_q s) # ts)" using assms by (auto simp: mp_inv_def)
  then show ?thesis using assms linked_restart [of "mq_next (mp_q s)" _ "mq_tail (mp_q s) # ts" n None]
    by (auto simp: mp_inv_def enq_clear_def set_next_def)
qed

lemma mp_inv_exchange:
  assumes inv: "mp_inv ts s" and n: "n \<in> mp_ready s"
  shows "mp_inv (ts @ [n]) (enq_exchange n s)"
proof -
  have m: "n \<notin> set (mq_tail (mp_q s) # ts)" "mq_next (mp_q s) n = None" "n \<noteq> Stub"
    using assms by (auto simp: mp_inv_def)
  then have "(mq_next (mp_q s))(n := None) = mq_next (mp_q s)" by auto
  with linked_snoc [OF _ m(1), of "mq_next (mp_q s)" "mp_pend s \<union> pc_pend (mp_pc s)"] inv
  have "linked (mq_next (mp_q s)) (insert (mq_head (mp_q s), n) (mp_pend s \<union> pc_pend (mp_pc s)))
      ((mq_tail (mp_q s) # ts) @ [n])" unfolding mp_inv_def by simp
  then show ?thesis using inv m(1,3) n unfolding mp_inv_def
    by (auto simp: enq_exchange_def pc_ok_snoc)
qed

lemma mp_inv_link:
  assumes inv: "mp_inv ts s" and pn: "pn \<in> mp_pend s"
  shows "mp_inv ts (enq_link pn s)"
proof -
  let ?P = "mp_pend s \<union> pc_pend (mp_pc s)" and ?c = "mq_tail (mp_q s) # ts"
  have l: "linked (mq_next (mp_q s)) ?P ?c" using inv by (simp add: mp_inv_def)
  have "pn \<notin> pc_pend (mp_pc s)" using inv pn by (cases "mp_pc s") (force simp: mp_inv_def)+
  then have "?P - {pn} = (mp_pend s - {pn}) \<union> pc_pend (mp_pc s)" by auto
  with linked_link [OF l, of "fst pn" "snd pn"] pn
  have "linked ((mq_next (mp_q s))(fst pn := Some (snd pn))) ((mp_pend s - {pn}) \<union> pc_pend (mp_pc s)) ?c"
    by (cases pn) simp
  moreover have "fst pn \<in> set ?c" using l pn links_in [of "fst pn" "snd pn" ?c] by (auto simp: linked_def)
  moreover have "is_ExchStub (mp_pc s) \<longrightarrow> Stub \<notin> set ?c" using inv pc_ok_exch by (auto simp: mp_inv_def)
  ultimately show ?thesis using inv unfolding mp_inv_def by (auto simp: enq_link_def set_next_def)
qed

lemma mp_inv_return:
  assumes inv: "mp_inv ts s" and t: "mq_tail (mp_q s) = t" "t \<noteq> Stub" "mq_next (mp_q s) t = Some m"
    and pc: "pc_pend (mp_pc s) = {}"
  shows "mp_inv (tl ts) (con_return t m s)"
proof -
  have "linked (mq_next (mp_q s)) (mp_pend s) (t # ts)" using inv t(1) pc by (simp add: mp_inv_def)
  then obtain ts' where ts': "ts = m # ts'" "linked (mq_next (mp_q s)) (mp_pend s) (m # ts')"
    using linked_step t(3) by metis
  have "t \<notin> mp_ready s" "distinct (t # ts)" using inv t(1) by (auto simp: mp_inv_def linked_def)
  with ts' inv t show ?thesis unfolding mp_inv_def by (auto simp: con_return_def)
qed

lemma mp_inv_fetch:
  assumes inv: "mp_inv ts s" and t: "mq_tail (mp_q s) = t" "t \<noteq> Stub" and pc: "pc_pend (mp_pc s) = {}"
    and pc': "pc_pend pc' = {}" "pc_ok pc' t ts" "\<not> is_ExchStub pc'"
  shows "\<exists>ts'. mp_inv ts' (case mq_next (mp_q s) t of None \<Rightarrow> s\<lparr>mp_pc := pc'\<rparr> | Some m \<Rightarrow> con_return t m s)"
proof (cases "mq_next (mp_q s) t")
  case None
  have "mp_inv ts (s\<lparr>mp_pc := pc'\<rparr>)" using inv t pc pc' by (simp add: mp_inv_def)
  with None show ?thesis by auto
next
  case (Some m)
  with mp_inv_return [OF inv t Some pc] show ?thesis by auto
qed

lemma mp_inv_consume:
  assumes inv: "mp_inv ts s"
  shows "\<exists>ts'. mp_inv ts' (con_step s)"
proof (cases "mp_pc s")
  case Idle
  show ?thesis
  proof (cases "mq_next (mp_q s) (mq_tail (mp_q s))")
    case None
    then have "con_step s = (if mq_tail (mp_q s) = Stub then s else s\<lparr>mp_pc := CheckHead (mq_tail (mp_q s))\<rparr>)"
      using Idle by (simp add: con_step_def Let_def)
    then show ?thesis using inv Idle by (intro exI [of _ ts]) (auto simp: mp_inv_def)
  next
    case (Some m)
    show ?thesis
    proof (cases "mq_tail (mp_q s) = Stub")
      case False
      then show ?thesis using mp_inv_return [OF inv refl False Some] Idle Some by (auto simp: con_step_def Let_def)
    next
      case True
      have "linked (mq_next (mp_q s)) (mp_pend s) (Stub # ts)" using inv True Idle by (simp add: mp_inv_def)
      then obtain ts' where "ts = m # ts'" "linked (mq_next (mp_q s)) (mp_pend s) (m # ts')"
        using linked_step Some True by metis
      moreover from this have "m \<noteq> Stub" using inv True by (auto simp: mp_inv_def linked_def)
      ultimately show ?thesis using inv Idle Some True
        by (intro exI [of _ ts']) (simp add: con_step_def mp_inv_def Let_def)
    qed
  qed
next
  case (Reload t)
  then have "con_step s = (case mq_next (mp_q s) t of None \<Rightarrow> s\<lparr>mp_pc := CheckHead t\<rparr> | Some m \<Rightarrow> con_return t m s)"
    by (simp add: con_step_def)
  moreover have "mq_tail (mp_q s) = t" "t \<noteq> Stub" using inv Reload by (simp_all add: mp_inv_def)
  ultimately show ?thesis using mp_inv_fetch [OF inv, of t "CheckHead t"] Reload by simp
next
  case (Final t)
  then have "con_step s = (case mq_next (mp_q s) t of None \<Rightarrow> s\<lparr>mp_pc := Idle\<rparr> | Some m \<Rightarrow> con_return t m s)"
    by (simp add: con_step_def)
  moreover have "mq_tail (mp_q s) = t" "t \<noteq> Stub" using inv Final by (simp_all add: mp_inv_def)
  ultimately show ?thesis using mp_inv_fetch [OF inv, of t Idle] Final by simp
next
  case (CheckHead t)
  then show ?thesis
    using inv linked_single [of "mq_next (mp_q s)" "mp_pend s" t ts]
    by (intro exI [of _ ts]) (auto simp: con_step_def mp_inv_def)
next
  case (PrepStub t)
  then have "Stub \<notin> set (t # ts)" "t = mq_tail (mp_q s)" using inv by (auto simp: mp_inv_def)
  then show ?thesis
    using inv PrepStub linked_restart [of "mq_next (mp_q s)" "mp_pend s" "t # ts" Stub None]
    by (intro exI [of _ ts]) (auto simp: con_step_def mp_inv_def set_next_def)
next
  case (ExchStub t)
  then have t: "Stub \<notin> set (t # ts)" "t = mq_tail (mp_q s)" "mq_next (mp_q s) Stub = None"
    using inv by (auto simp: mp_inv_def)
  then have "(mq_next (mp_q s))(Stub := None) = mq_next (mp_q s)" by auto
  then show ?thesis using inv ExchStub t linked_snoc [of "mq_next (mp_q s)" "mp_pend s" "t # ts" Stub]
    by (intro exI [of _ "ts @ [Stub]"]) (auto simp: con_step_def mp_inv_def)
next
  case (LinkStub p t)
  let ?P = "insert (p, Stub) (mp_pend s)" and ?c = "t # ts"
  have l: "linked (mq_next (mp_q s)) ?P ?c" "t = mq_tail (mp_q s)" using inv LinkStub by (auto simp: mp_inv_def)
  have "(p, Stub) \<notin> mp_pend s" using inv by (force simp: mp_inv_def)
  then have "linked ((mq_next (mp_q s))(p := Some Stub)) (mp_pend s) ?c" using linked_link [OF l(1), of p Stub] by simp
  moreover have "p \<in> set ?c" using l links_in [of p Stub ?c] by (auto simp: linked_def)
  ultimately show ?thesis using inv LinkStub l(2)
    by (intro exI [of _ ts]) (auto simp: con_step_def mp_inv_def set_next_def)
qed

lemma mp_run_inv: "mp_run nodes s \<Longrightarrow> \<exists>ts. mp_inv ts s"
  by (induction rule: mp_run.induct)
    (blast intro: mp_inv_init mp_inv_clear mp_inv_exchange mp_inv_link mp_inv_consume)+

lemma mp_inv_rep:
  assumes "mp_inv ts s" "mp_pc s = Idle" "mp_pend s = {}"
  shows "mq_rep (mp_q s) (filter (\<lambda>n. n \<noteq> Stub) (mq_tail (mp_q s) # ts))"
  using assms unfolding mp_inv_def mq_rep_def by (intro exI [of _ ts]) simp

lemma mp_inv_pend:
  assumes "mp_inv ts s" "(p, n) \<in> mp_pend s"
  shows "p = Stub \<or> p \<in> set (filter (\<lambda>n. n \<noteq> Stub) (mq_tail (mp_q s) # ts))"
proof -
  have "(p, n) \<in> links (mq_tail (mp_q s) # ts)" using assms by (auto simp: mp_inv_def linked_def)
  from links_in [OF this] show ?thesis by auto
qed

lemma mq_rep_deq: "mq_rep q xs \<Longrightarrow> snd (mpsc_dequeue q) = (case xs of [] \<Rightarrow> None | x # _ \<Rightarrow> Some x)"
  using mq_rep_dequeue [of q xs] by (cases xs) auto

subsection \<open>Properties\<close>

text \<open>
  C9. However the steps of any number of producers interleave with those of the consumer, the nodes are
  returned in the order in which the producers exchanged the head, none is lost or returned twice,
  a node in the hands of a client is not in the queue, no pending write of a producer is to a node
  that has left the queue, and when no enqueue or dequeue is in progress \<open>mpsc_dequeue\<close> returns the
  oldest node.
\<close>

theorem mpsc_fifo:
  assumes "mp_run nodes s"
  shows "\<exists>xs. mp_in s = mp_out s @ xs \<and> distinct xs \<and> set xs \<inter> (mp_owned s \<union> mp_ready s) = {} \<and>
    (\<forall>(p, n) \<in> mp_pend s. p = Stub \<or> p \<in> set xs) \<and>
    (mp_pc s = Idle \<and> mp_pend s = {} \<longrightarrow>
       snd (mpsc_dequeue (mp_q s)) = (case xs of [] \<Rightarrow> None | x # _ \<Rightarrow> Some x))"
proof -
  obtain ts where ts: "mp_inv ts s" using mp_run_inv [OF assms] by blast
  then show ?thesis
    by (intro exI [of _ "filter (\<lambda>n. n \<noteq> Stub) (mq_tail (mp_q s) # ts)"] conjI)
      (use ts mp_inv_pend [OF ts] mq_rep_deq [OF mp_inv_rep [OF ts]] in
        \<open>auto simp: mp_inv_def linked_def simp del: filter.simps\<close>)
qed

text \<open>Two producers: the second links its node first, and the consumer finds nothing until the first does.\<close>

definition mp_sample :: mp_state where
  "mp_sample = con_step (enq_link (Node 1, Node 2) (enq_exchange (Node 2) (enq_exchange (Node 1)
     (enq_clear (Node 2) (enq_clear (Node 1) (mp_init {Node 1, Node 2}))))))"

lemma mp_sample_run: "mp_run {Node 1, Node 2} mp_sample"
  unfolding mp_sample_def
  by (intro mp_consume mp_link mp_exchange mp_clear mp_start)
    (simp_all add: mp_init_def enq_clear_def enq_exchange_def mpsc_init_def)

lemma mp_sample_pend: "mp_pend mp_sample = {(Stub, Node 1)} \<and> mp_out mp_sample = [] \<and> mp_in mp_sample = [Node 1, Node 2]"
  by (auto simp: mp_sample_def mp_init_def enq_clear_def enq_exchange_def enq_link_def con_step_def set_next_def mpsc_init_def)

theorem mpsc_fifo_witness:
  "mp_pend mp_sample = {(Stub, Node 1)} \<and> snd (mpsc_dequeue (mp_q mp_sample)) = None \<and>
   snd (mpsc_dequeue (mp_q (enq_link (Stub, Node 1) mp_sample))) = Some (Node 1)"
proof -
  have run: "mp_run {Node 1, Node 2} (enq_link (Stub, Node 1) mp_sample)"
    by (rule mp_link [OF mp_sample_run]) (simp add: mp_sample_pend)
  have s: "mp_pc mp_sample = Idle" "snd (mpsc_dequeue (mp_q mp_sample)) = None"
    by (simp_all add: mp_sample_def mp_init_def enq_clear_def enq_exchange_def enq_link_def con_step_def
        set_next_def mpsc_init_def mpsc_dequeue_def)
  from mpsc_fifo [OF run] s(1) mp_sample_pend
  have "snd (mpsc_dequeue (mp_q (enq_link (Stub, Node 1) mp_sample))) = Some (Node 1)"
    by (auto simp: enq_link_def)
  with s mp_sample_pend show ?thesis by simp
qed

text \<open>
  Run one after the other, the operations refine a first-in first-out queue: after enqueuing distinct
  nodes into an initialised queue, dequeuing returns the oldest node and leaves a queue
  that returns the others in order, whatever their number.
\<close>

lemma mpsc_sequential_refinement:
  assumes "distinct (xs @ ys)" "Stub \<notin> set (xs @ ys)"
  shows "snd (drain mpsc_dequeue (length xs) (foldl mpsc_enqueue (mpsc_init q) (xs @ ys))) = xs \<and>
    mq_rep (fst (drain mpsc_dequeue (length xs) (foldl mpsc_enqueue (mpsc_init q) (xs @ ys)))) ys"
proof (rule mq.rep_drain)
  show "mq_rep (foldl mpsc_enqueue (mpsc_init q) (xs @ ys)) (xs @ ys)"
    using mq.rep_enqs [OF mq_rep_init, of "xs @ ys" q] assms by force
qed

lemma mpsc_sequential_refinement_example:
  "snd (drain mpsc_dequeue (length [Node 1, Node 2]) (foldl mpsc_enqueue (mpsc_init \<lparr>mq_next = \<lambda>_. None, mq_head = Stub, mq_tail = Stub\<rparr>)
     ([Node 1, Node 2] @ [Node 3]))) = [Node 1, Node 2]"
  using mpsc_sequential_refinement [of "[Node 1, Node 2]" "[Node 3]" "\<lparr>mq_next = \<lambda>_. None, mq_head = Stub, mq_tail = Stub\<rparr>"]
  by (simp del: drain.simps foldl.simps append.simps list.size)

end
