(* ===== verification/Nex_Persist.thy ===== *)
theory Nex_Persist
  imports Nex_Prelude
begin

text \<open>
  The append-only file and the snapshots of \<open>persistence/persist.c\<close>.  A file is its contents together
  with the length that is known to be on disk; each \<open>write\<close> takes its outcome as an argument, so
  short and failed writes are part of the model, and so are the outcomes of \<open>open\<close>, \<open>fsync\<close>,
  \<open>rename\<close>, \<open>malloc\<close> and thread creation.  A read of a regular file returns the bytes that are
  left.  The callbacks that apply recovered operations are an argument; the iterator of \<open>rdb_save\<close>
  is the list of items it delivers.  The duration of a snapshot, a floating-point statistic, is
  left out.  A file found when the log is opened has survived, so all of it counts as being on disk.
\<close>

subsection \<open>State\<close>

datatype AOFMode = AOF_DISABLED | AOF_ALWAYS | AOF_EVERYSEC | AOF_NO

datatype AOFEntryType = AOF_OP_SET | AOF_OP_DEL | AOF_OP_EXPIRE | AOF_OP_FLUSH | AOF_OP_SELECT

fun aof_op_code :: "AOFEntryType \<Rightarrow> u8" where
  "aof_op_code AOF_OP_SET = 1"
| "aof_op_code AOF_OP_DEL = 2"
| "aof_op_code AOF_OP_EXPIRE = 3"
| "aof_op_code AOF_OP_FLUSH = 4"
| "aof_op_code AOF_OP_SELECT = 5"

record AOFEntry =
  ae_type :: u8
  ae_flags :: u8
  ae_key_len :: u16
  ae_value_len :: u32
  ae_expire_us :: u64

text \<open>The 16 bytes of the packed header.\<close>

definition aof_entry_image :: "AOFEntry \<Rightarrow> bytes" where
  "aof_entry_image h = [ae_type h, ae_flags h] @ le_enc 2 (ae_key_len h) @ le_enc 4 (ae_value_len h) @
     le_enc 8 (ae_expire_us h)"

definition aof_entry_of_image :: "bytes \<Rightarrow> AOFEntry" where
  "aof_entry_of_image bs = \<lparr>ae_type = bs ! 0, ae_flags = bs ! 1, ae_key_len = le_dec (buf_read bs 2 2),
     ae_value_len = le_dec (buf_read bs 4 4), ae_expire_us = le_dec (buf_read bs 8 8)\<rparr>"

definition AOF_MAGIC :: bytes where
  "AOF_MAGIC = [0x4E, 0x45, 0x58, 0x41, 0x4F, 0x46, 0x31]"

definition RDB_MAGIC :: bytes where
  "RDB_MAGIC = [0x4E, 0x45, 0x58, 0x52, 0x44, 0x42, 0x31]"

record PersistStats =
  pst_aof_writes :: u64
  pst_aof_bytes :: u64
  pst_aof_fsyncs :: u64
  pst_rdb_saves :: u64
  pst_rdb_bytes :: u64
  pst_aof_rewrite_count :: u64
  pst_recovery_ops :: u64

record PersistConfig =
  pc_aof_mode :: AOFMode
  pc_aof_path :: string
  pc_rdb_path :: string
  pc_rdb_auto_save :: bool
  pc_rdb_save_interval_s :: u32
  pc_rdb_max_dirty_keys :: u32
  pc_aof_rewrite_enabled :: bool
  pc_aof_rewrite_size_mb :: u64

text \<open>\<open>gp_open\<close> says that \<open>aof_fd\<close> is not negative; \<open>gp_file\<close> and \<open>gp_synced\<close> are the file behind it.\<close>

record g_persist =
  gp_open :: bool
  gp_file :: bytes
  gp_synced :: nat
  gp_cfg :: PersistConfig
  gp_stats :: PersistStats
  gp_running :: bool
  gp_bg_thread :: bool
  gp_last_rdb_save_us :: u64
  gp_dirty_keys :: u64

definition os_fsync :: "bool \<Rightarrow> g_persist \<Rightarrow> g_persist" where
  "os_fsync ok g = (if ok then g\<lparr>gp_synced := length (gp_file g)\<rparr> else g)"

subsection \<open>The append-only file\<close>

definition aof_init :: "bool \<Rightarrow> bool \<Rightarrow> int \<Rightarrow> u64 \<Rightarrow> bytes \<Rightarrow> PersistConfig \<Rightarrow> g_persist \<times> bool" where
  "aof_init open_ok thread_ok r now file cfg =
     (let g = \<lparr>gp_open = False, gp_file = file, gp_synced = length file, gp_cfg = cfg,
                gp_stats = \<lparr>pst_aof_writes = 0, pst_aof_bytes = 0, pst_aof_fsyncs = 0, pst_rdb_saves = 0,
                  pst_rdb_bytes = 0, pst_aof_rewrite_count = 0, pst_recovery_ops = 0\<rparr>,
                gp_running = False, gp_bg_thread = False, gp_last_rdb_save_us = 0, gp_dirty_keys = 0\<rparr>;
          use = (pc_aof_mode cfg \<noteq> AOF_DISABLED \<and> pc_aof_path cfg \<noteq> [])
      in if use \<and> \<not> open_ok then (g, False)
         else let g1 = (if use
                        then g\<lparr>gp_open := True,
                               gp_file := if file = [] then fst (os_write r AOF_MAGIC file) else file\<rparr>
                        else g);
                  g2 = g1\<lparr>gp_last_rdb_save_us := now, gp_running := True\<rparr>
              in if thread_ok then (g2\<lparr>gp_bg_thread := True\<rparr>, True)
                 else (g2\<lparr>gp_running := False, gp_bg_thread := False\<rparr>, False))"

definition aof_header :: "AOFEntryType \<Rightarrow> nat \<Rightarrow> nat \<Rightarrow> u64 \<Rightarrow> AOFEntry" where
  "aof_header type key_len value_len expire_us =
     \<lparr>ae_type = aof_op_code type, ae_flags = 0,
      ae_key_len = of_nat (if key_len > 65535 then 65535 else key_len),
      ae_value_len = of_nat (if value_len > 4294967295 then 4294967295 else value_len),
      ae_expire_us = expire_us\<rparr>"

text \<open>\<open>w1\<close>, \<open>w2\<close>, \<open>w3\<close> are the outcomes of the three writes and \<open>sync_ok\<close> that of \<open>fsync\<close>.\<close>

definition aof_write ::
    "int \<Rightarrow> int \<Rightarrow> int \<Rightarrow> bool \<Rightarrow> g_persist \<Rightarrow> AOFEntryType \<Rightarrow> bytes option \<Rightarrow> bytes option \<Rightarrow> nat \<Rightarrow> u64 \<Rightarrow> g_persist \<times> int" where
  "aof_write w1 w2 w3 sync_ok g type key value value_len expire_us =
     (if \<not> gp_open g then (g, 0)
      else case key of
        None \<Rightarrow> (g, -1)
      | Some k \<Rightarrow>
          if k = [] then (g, -1)
          else
            let hdr = aof_header type (length k) value_len expire_us;
                (f1, a) = os_write w1 (aof_entry_image hdr) (gp_file g);
                (f2, b) = (if a = 16 then os_write w2 (take (unat (ae_key_len hdr)) k) f1 else (f1, a));
                (f3, c) = (case value of
                    Some v \<Rightarrow> if value_len > 0 \<and> b > 0 then os_write w3 (take (unat (ae_value_len hdr)) v) f2 else (f2, b)
                  | None \<Rightarrow> (f2, b));
                g1 = g\<lparr>gp_file := f3\<rparr>;
                st = gp_stats g
            in if c < 0 then (g1, -1)
               else
                 let g2 = g1\<lparr>gp_stats := st\<lparr>pst_aof_writes := pst_aof_writes st + 1,
                                pst_aof_bytes := pst_aof_bytes st + (16 + ucast (ae_key_len hdr) + ucast (ae_value_len hdr))\<rparr>,
                             gp_dirty_keys := gp_dirty_keys g + 1\<rparr>;
                     g3 = (if pc_aof_mode (gp_cfg g) = AOF_ALWAYS
                           then (os_fsync sync_ok g2)\<lparr>gp_stats := (gp_stats g2)\<lparr>pst_aof_fsyncs := pst_aof_fsyncs (gp_stats g2) + 1\<rparr>\<rparr>
                           else g2)
                 in (g3, 0))"

definition aof_fsync_now :: "bool \<Rightarrow> g_persist \<Rightarrow> g_persist \<times> int" where
  "aof_fsync_now ok g =
     (if \<not> gp_open g then (g, 0)
      else if ok
      then ((os_fsync ok g)\<lparr>gp_stats := (gp_stats g)\<lparr>pst_aof_fsyncs := pst_aof_fsyncs (gp_stats g) + 1\<rparr>\<rparr>, 0)
      else (g, -1))"

text \<open>
  The replay loop: \<open>ka i\<close> and \<open>va i\<close> say whether the allocations for key and value of the \<open>i\<close>-th entry succeed.
\<close>

function aof_replay_loop ::
    "(nat \<Rightarrow> bool) \<Rightarrow> (nat \<Rightarrow> bool) \<Rightarrow> (u8 \<Rightarrow> bytes \<Rightarrow> bytes option \<Rightarrow> u32 \<Rightarrow> u64 \<Rightarrow> 'st \<Rightarrow> 'st) \<Rightarrow> nat \<Rightarrow> bytes \<Rightarrow> 'st \<Rightarrow> 'st \<times> nat" where
  "aof_replay_loop ka va apply_fn ops file st =
     (if length file < 16 then (st, ops)
      else
        let hdr = aof_entry_of_image (take 16 file);
            key_len = unat (ae_key_len hdr); value_len = unat (ae_value_len hdr);
            has_value = (value_len > 0 \<and> va ops);
            f1 = drop 16 file; f2 = drop key_len f1
        in if \<not> ka ops then (st, ops)
           else if length f1 < key_len then (st, ops)
           else if has_value \<and> length f2 < value_len then (st, ops)
           else aof_replay_loop ka va apply_fn (ops + 1) (if has_value then drop value_len f2 else f2)
                  (apply_fn (ae_type hdr) (take key_len f1) (if has_value then Some (take value_len f2) else None)
                     (ae_value_len hdr) (ae_expire_us hdr) st))"
  by pat_completeness auto
termination by (relation "measure (\<lambda>(_, _, _, _, file, _). length file)") (auto simp: Let_def)

declare aof_replay_loop.simps [simp del]

definition aof_replay ::
    "(nat \<Rightarrow> bool) \<Rightarrow> (nat \<Rightarrow> bool) \<Rightarrow> (u8 \<Rightarrow> bytes \<Rightarrow> bytes option \<Rightarrow> u32 \<Rightarrow> u64 \<Rightarrow> 'st \<Rightarrow> 'st) \<Rightarrow> bytes option \<Rightarrow> g_persist \<Rightarrow> 'st \<Rightarrow>
     g_persist \<times> 'st \<times> int" where
  "aof_replay ka va apply_fn file g st =
     (case file of
        None \<Rightarrow> (g, st, -1)
      | Some f \<Rightarrow>
          if length f < 7 \<or> take 7 f \<noteq> AOF_MAGIC then (g, st, -1)
          else let (st', ops) = aof_replay_loop ka va apply_fn 0 (drop 7 f) st
               in (g\<lparr>gp_stats := (gp_stats g)\<lparr>pst_recovery_ops := pst_recovery_ops (gp_stats g) + of_nat ops\<rparr>\<rparr>, st', 0))"

definition aof_rewrite :: "g_persist \<Rightarrow> g_persist" where
  "aof_rewrite g = g\<lparr>gp_stats := (gp_stats g)\<lparr>pst_aof_rewrite_count := pst_aof_rewrite_count (gp_stats g) + 1\<rparr>\<rparr>"

subsection \<open>Snapshots\<close>

text \<open>What one call of the iterator delivers.\<close>

record rdb_item =
  ri_key_buf :: bytes
  ri_value :: "bytes option"
  ri_value_len :: nat
  ri_expire_us :: u64

definition c_strlen :: "bytes \<Rightarrow> nat" where
  "c_strlen buf = length (takeWhile (\<lambda>b. b \<noteq> 0) buf)"

definition rdb_klen :: "rdb_item \<Rightarrow> u16" where
  "rdb_klen it = of_nat (c_strlen (ri_key_buf it))"

definition rdb_vlen :: "rdb_item \<Rightarrow> u32" where
  "rdb_vlen it = of_nat (ri_value_len it)"

text \<open>The buffers that are written for an item, in order, and for the whole file.\<close>

definition rdb_item_writes :: "rdb_item \<Rightarrow> bytes list" where
  "rdb_item_writes it =
     [le_enc 2 (rdb_klen it), take (unat (rdb_klen it)) (ri_key_buf it), le_enc 4 (rdb_vlen it)] @
     (case ri_value it of
        Some v \<Rightarrow> if ri_value_len it > 0 then [take (unat (rdb_vlen it)) v] else []
      | None \<Rightarrow> []) @
     [le_enc 8 (ri_expire_us it)]"

definition rdb_writes :: "u64 \<Rightarrow> rdb_item list \<Rightarrow> bytes list" where
  "rdb_writes ts items =
     [RDB_MAGIC, le_enc 4 (1 :: u32), le_enc 8 ts] @ concat (map rdb_item_writes items) @ [le_enc 2 (0xFFFF :: u16)]"

text \<open>The results of these writes are not looked at: \<open>wr i\<close> bytes of the \<open>i\<close>-th buffer reach the file.\<close>

fun write_each :: "(nat \<Rightarrow> nat) \<Rightarrow> nat \<Rightarrow> bytes list \<Rightarrow> bytes" where
  "write_each wr i [] = []"
| "write_each wr i (b # bs) = take (wr i) b @ write_each wr (i + 1) bs"

definition rdb_bytes_written :: "rdb_item list \<Rightarrow> u64" where
  "rdb_bytes_written items =
     foldl (\<lambda>n it. n + (2 + ucast (rdb_klen it) + 4 + ucast (rdb_vlen it) + 8)) (7 + 4 + 8) items"

text \<open>\<open>file\<close> is the file at \<open>path\<close> before the call; it is replaced by the rename only.\<close>

definition rdb_save ::
    "bool \<Rightarrow> bool \<Rightarrow> (nat \<Rightarrow> nat) \<Rightarrow> u64 \<Rightarrow> u64 \<Rightarrow> rdb_item list \<Rightarrow> g_persist \<Rightarrow> bytes option \<Rightarrow> g_persist \<times> bytes option \<times> int" where
  "rdb_save open_ok rename_ok wr ts now items g file =
     (if \<not> open_ok then (g, file, -1)
      else let tmp = write_each wr 0 (rdb_writes ts items)
           in if \<not> rename_ok then (g, file, -1)
              else (g\<lparr>gp_stats := (gp_stats g)\<lparr>pst_rdb_saves := pst_rdb_saves (gp_stats g) + 1,
                        pst_rdb_bytes := rdb_bytes_written items\<rparr>,
                      gp_dirty_keys := 0, gp_last_rdb_save_us := now\<rparr>, Some tmp, 0))"

text \<open>
  The load loop.  The result of reading the expiry is not looked at; when it is cut off, \<open>junk i\<close> is what
  the uninitialised variable holds.
\<close>

function rdb_load_loop ::
    "(nat \<Rightarrow> bool) \<Rightarrow> (nat \<Rightarrow> bool) \<Rightarrow> (nat \<Rightarrow> u64) \<Rightarrow> (bytes \<Rightarrow> bytes option \<Rightarrow> u32 \<Rightarrow> u64 \<Rightarrow> 'st \<Rightarrow> 'st) \<Rightarrow> nat \<Rightarrow> bytes \<Rightarrow> 'st \<Rightarrow> 'st \<times> nat" where
  "rdb_load_loop ka va junk apply_fn ops f st =
     (if length f < 2 then (st, ops)
      else
        let klen = le_dec (take 2 f) :: u16; f1 = drop 2 f; f2 = drop (unat klen) f1;
            vlen = le_dec (take 4 f2) :: u32; f3 = drop 4 f2; f4 = drop (unat vlen) f3
        in if klen = 0xFFFF then (st, ops)
           else if \<not> ka ops then (st, ops)
           else if length f1 < unat klen then (st, ops)
           else if length f2 < 4 then (st, ops)
           else if vlen > 0 \<and> (\<not> va ops \<or> length f3 < unat vlen) then (st, ops)
           else rdb_load_loop ka va junk apply_fn (ops + 1) (drop 8 f4)
                  (apply_fn (take (unat klen) f1) (if vlen > 0 then Some (take (unat vlen) f3) else None) vlen
                     (if length f4 < 8 then junk ops else le_dec (take 8 f4)) st))"
  by pat_completeness auto
termination by (relation "measure (\<lambda>(_, _, _, _, _, file, _). length file)") (auto simp: Let_def)

declare rdb_load_loop.simps [simp del]

definition rdb_load ::
    "(nat \<Rightarrow> bool) \<Rightarrow> (nat \<Rightarrow> bool) \<Rightarrow> (nat \<Rightarrow> u64) \<Rightarrow> (bytes \<Rightarrow> bytes option \<Rightarrow> u32 \<Rightarrow> u64 \<Rightarrow> 'st \<Rightarrow> 'st) \<Rightarrow> bytes option \<Rightarrow> g_persist \<Rightarrow> 'st \<Rightarrow>
     g_persist \<times> 'st \<times> int" where
  "rdb_load ka va junk apply_fn file g st =
     (case file of
        None \<Rightarrow> (g, st, -1)
      | Some f \<Rightarrow>
          if length f < 7 \<or> take 7 f \<noteq> RDB_MAGIC then (g, st, -1)
          else let (st', ops) = rdb_load_loop ka va junk apply_fn 0 (drop (7 + 4 + 8) f) st
               in (g\<lparr>gp_stats := (gp_stats g)\<lparr>pst_recovery_ops := pst_recovery_ops (gp_stats g) + of_nat ops\<rparr>\<rparr>, st', 0))"

subsection \<open>Background work and shutdown\<close>

text \<open>One round of \<open>persist_bg_thread\<close> after its sleep.\<close>

definition persist_bg_round :: "bool \<Rightarrow> u64 \<Rightarrow> g_persist \<Rightarrow> g_persist" where
  "persist_bg_round sync_ok now g =
     (let cfg = gp_cfg g;
          g1 = (if pc_aof_mode cfg = AOF_EVERYSEC then fst (aof_fsync_now sync_ok g) else g);
          g2 = (if pc_rdb_auto_save cfg \<and> pc_rdb_path cfg \<noteq> [] \<and>
                   (now - gp_last_rdb_save_us g1) div 1000000 \<ge> ucast (pc_rdb_save_interval_s cfg) \<and>
                   gp_dirty_keys g1 \<ge> ucast (pc_rdb_max_dirty_keys cfg)
                then g1\<lparr>gp_last_rdb_save_us := now, gp_dirty_keys := 0\<rparr> else g1)
      in if pc_aof_rewrite_enabled cfg \<and> gp_open g2 \<and> pst_aof_bytes (gp_stats g2) div 1024 div 1024 \<ge> pc_aof_rewrite_size_mb cfg
         then aof_rewrite g2 else g2)"

definition aof_shutdown :: "bool \<Rightarrow> g_persist \<Rightarrow> g_persist" where
  "aof_shutdown sync_ok g =
     (let g1 = g\<lparr>gp_running := False\<rparr>
      in if gp_open g1 then (fst (aof_fsync_now sync_ok g1))\<lparr>gp_open := False\<rparr> else g1)"

definition persist_get_stats :: "g_persist \<Rightarrow> PersistStats" where
  "persist_get_stats g = gp_stats g"

subsection \<open>Images of entries\<close>

lemma length_aof_entry_image [simp]: "length (aof_entry_image h) = 16"
  by (simp add: aof_entry_image_def)

lemma aof_entry_roundtrip [simp]: "aof_entry_of_image (aof_entry_image h) = h"
  by (simp add: aof_entry_of_image_def aof_entry_image_def buf_read_def)

text \<open>An operation that fits the format, its bytes, and its effect.\<close>

record aof_op =
  op_type :: AOFEntryType
  op_key :: bytes
  op_value :: bytes
  op_expire :: u64

definition op_ok :: "aof_op \<Rightarrow> bool" where
  "op_ok x \<longleftrightarrow> op_key x \<noteq> [] \<and> length (op_key x) \<le> 65535 \<and> length (op_value x) \<le> 4294967295"

definition op_header :: "aof_op \<Rightarrow> AOFEntry" where
  "op_header x = aof_header (op_type x) (length (op_key x)) (length (op_value x)) (op_expire x)"

definition op_bytes :: "aof_op \<Rightarrow> bytes" where
  "op_bytes x = aof_entry_image (op_header x) @ op_key x @ op_value x"

definition op_apply :: "(u8 \<Rightarrow> bytes \<Rightarrow> bytes option \<Rightarrow> u32 \<Rightarrow> u64 \<Rightarrow> 'st \<Rightarrow> 'st) \<Rightarrow> aof_op \<Rightarrow> 'st \<Rightarrow> 'st" where
  "op_apply apply_fn x = apply_fn (aof_op_code (op_type x)) (op_key x)
     (if op_value x = [] then None else Some (op_value x)) (of_nat (length (op_value x))) (op_expire x)"

lemma op_header_len:
  assumes "op_ok x"
  shows "unat (ae_key_len (op_header x)) = length (op_key x)" "unat (ae_value_len (op_header x)) = length (op_value x)"
    "ae_value_len (op_header x) = of_nat (length (op_value x))"
  using assms by (simp_all add: op_ok_def op_header_def aof_header_def unat_of_nat_eq)

lemma op_header_fields [simp]:
  "ae_type (op_header x) = aof_op_code (op_type x)" "ae_expire_us (op_header x) = op_expire x"
  by (simp_all add: op_header_def aof_header_def)

lemma length_op_bytes: "length (op_bytes x) = 16 + length (op_key x) + length (op_value x)"
  by (simp add: op_bytes_def)

lemma aof_replay_step:
  assumes "op_ok x" "ka i" "va i"
  shows "aof_replay_loop ka va ap i (op_bytes x @ rest) st = aof_replay_loop ka va ap (i + 1) rest (op_apply ap x st)"
  using assms
  by (subst aof_replay_loop.simps)
    (simp add: Let_def op_bytes_def op_header_len(1,2) op_header_len(3) [symmetric] op_apply_def)

lemma aof_replay_torn:
  assumes "op_ok x" "n < length (op_bytes x)" "va i"
  shows "aof_replay_loop ka va ap i (take n (op_bytes x)) st = (st, i)"
proof (cases "n < 16")
  case True
  then have "length (take n (op_bytes x)) < 16" by simp
  then show ?thesis by (subst aof_replay_loop.simps) (simp only: if_True)
next
  case False
  then have t: "take 16 (take n (op_bytes x)) = aof_entry_image (op_header x)"
    "drop 16 (take n (op_bytes x)) = take (n - 16) (op_key x @ op_value x)"
    by (simp_all add: op_bytes_def min_def)
  let ?f1 = "take (n - 16) (op_key x @ op_value x)"
  have "length ?f1 < length (op_key x) \<or> length (drop (length (op_key x)) ?f1) < length (op_value x) \<and> op_value x \<noteq> []"
    using assms(2) False by (cases "op_value x = []") (auto simp: length_op_bytes)
  moreover have "\<not> length (take n (op_bytes x)) < 16" using False assms(2) by (simp add: length_op_bytes)
  ultimately show ?thesis using assms(3)
    by (subst aof_replay_loop.simps) (auto simp only: Let_def t op_header_len(1,2) [OF assms(1)] aof_entry_roundtrip if_False length_greater_0_conv simp_thms if_True split: if_splits)
qed

fun complete_ops :: "nat \<Rightarrow> aof_op list \<Rightarrow> nat" where
  "complete_ops n [] = 0"
| "complete_ops n (x # xs) = (if length (op_bytes x) \<le> n then Suc (complete_ops (n - length (op_bytes x)) xs) else 0)"

lemma aof_replay_prefix:
  assumes "\<forall>x \<in> set xs. op_ok x" "\<And>i. ka i" "\<And>i. va i"
  shows "aof_replay_loop ka va ap i (take n (concat (map op_bytes xs))) st =
    (fold (op_apply ap) (take (complete_ops n xs) xs) st, i + complete_ops n xs)"
  using assms(1)
proof (induction xs arbitrary: n i st)
  case Nil
  then show ?case by (subst aof_replay_loop.simps) simp
next
  case (Cons x xs)
  show ?case
  proof (cases "length (op_bytes x) \<le> n")
    case True
    then show ?thesis using Cons assms(2,3) by (simp add: aof_replay_step)
  next
    case False
    then show ?thesis using Cons.prems assms(3) by (simp add: aof_replay_torn)
  qed
qed

lemma complete_ops_le: "complete_ops n xs \<le> length xs"
  by (induction n xs rule: complete_ops.induct) auto

lemma complete_ops_max: "j \<le> length xs \<Longrightarrow> length (concat (map op_bytes (take j xs))) \<le> n \<Longrightarrow> j \<le> complete_ops n xs"
proof (induction n xs arbitrary: j rule: complete_ops.induct)
  case (2 n x xs)
  then show ?case by (cases j) auto
qed simp

subsection \<open>Runs of the log\<close>

text \<open>
  The states of a log whose writes are complete, with the operations written and the number of them
  that an \<open>fsync\<close> has brought to disk.
\<close>

inductive aof_run :: "g_persist \<Rightarrow> aof_op list \<Rightarrow> nat \<Rightarrow> bool" where
  run_init: "aof_init True thread_ok r now [] cfg = (g, True) \<Longrightarrow> 7 \<le> r \<Longrightarrow>
     pc_aof_mode cfg \<noteq> AOF_DISABLED \<Longrightarrow> pc_aof_path cfg \<noteq> [] \<Longrightarrow> aof_run g [] 0"
| run_write: "aof_run g xs d \<Longrightarrow> op_ok x \<Longrightarrow> 16 \<le> w1 \<Longrightarrow> int (length (op_key x)) \<le> w2 \<Longrightarrow> int (length (op_value x)) \<le> w3 \<Longrightarrow>
     aof_run (fst (aof_write w1 w2 w3 ok g (op_type x) (Some (op_key x)) (Some (op_value x)) (length (op_value x)) (op_expire x)))
       (xs @ [x]) (if pc_aof_mode (gp_cfg g) = AOF_ALWAYS \<and> ok then length xs + 1 else d)"
| run_fsync: "aof_run g xs d \<Longrightarrow> aof_run (fst (aof_fsync_now ok g)) xs (if ok then length xs else d)"
| run_round: "aof_run g xs d \<Longrightarrow>
     aof_run (persist_bg_round ok now g) xs (if pc_aof_mode (gp_cfg g) = AOF_EVERYSEC \<and> ok then length xs else d)"
| run_save: "aof_run g xs d \<Longrightarrow> aof_run (fst (rdb_save oo rr wr ts now items g file)) xs d"

definition aof_log :: "aof_op list \<Rightarrow> bytes" where
  "aof_log xs = AOF_MAGIC @ concat (map op_bytes xs)"

definition aof_ok :: "g_persist \<Rightarrow> aof_op list \<Rightarrow> nat \<Rightarrow> bool" where
  "aof_ok g xs d \<longleftrightarrow> gp_open g \<and> gp_file g = aof_log xs \<and> (\<forall>x \<in> set xs. op_ok x) \<and> d \<le> length xs \<and>
     (0 < d \<longrightarrow> length (aof_log (take d xs)) \<le> gp_synced g)"

lemma aof_write_full:
  assumes "gp_open g" "op_ok x" "16 \<le> w1" "int (length (op_key x)) \<le> w2" "int (length (op_value x)) \<le> w3"
    and "r = aof_write w1 w2 w3 ok g (op_type x) (Some (op_key x)) (Some (op_value x)) (length (op_value x)) (op_expire x)"
  shows "snd r = 0" "gp_file (fst r) = gp_file g @ op_bytes x" "gp_open (fst r)" "gp_cfg (fst r) = gp_cfg g"
    "gp_synced (fst r) = (if pc_aof_mode (gp_cfg g) = AOF_ALWAYS \<and> ok then length (gp_file g @ op_bytes x) else gp_synced g)"
proof -
  have h: "aof_header (op_type x) (length (op_key x)) (length (op_value x)) (op_expire x) = op_header x"
    by (simp add: op_header_def)
  have k: "op_key x \<noteq> []" using assms(2) by (simp add: op_ok_def)
  have w: "os_write w1 (aof_entry_image (op_header x)) f = (f @ aof_entry_image (op_header x), 16)"
    "os_write w2 (op_key x) f = (f @ op_key x, int (length (op_key x)))"
    "os_write w3 (op_value x) f = (f @ op_value x, int (length (op_value x)))" for f
    using assms(3-5) by (simp_all add: os_write_full)
  note d = aof_write_def Let_def h w op_header_len(1,2) [OF assms(2)] op_bytes_def os_fsync_def
  show "snd r = 0" "gp_file (fst r) = gp_file g @ op_bytes x" "gp_open (fst r)" "gp_cfg (fst r) = gp_cfg g"
    "gp_synced (fst r) = (if pc_aof_mode (gp_cfg g) = AOF_ALWAYS \<and> ok then length (gp_file g @ op_bytes x) else gp_synced g)"
    unfolding assms(6) using assms(1) k by (simp_all add: d)
qed

lemma aof_ok_write:
  assumes "aof_ok g xs d" "op_ok x" "16 \<le> w1" "int (length (op_key x)) \<le> w2" "int (length (op_value x)) \<le> w3"
  shows "aof_ok (fst (aof_write w1 w2 w3 ok g (op_type x) (Some (op_key x)) (Some (op_value x)) (length (op_value x)) (op_expire x)))
    (xs @ [x]) (if pc_aof_mode (gp_cfg g) = AOF_ALWAYS \<and> ok then length xs + 1 else d)"
proof -
  have "gp_open g" using assms(1) by (simp add: aof_ok_def)
  note w = aof_write_full [OF this assms(2-5) refl, of ok]
  show ?thesis using assms(1,2) by (auto simp: w aof_ok_def aof_log_def)
qed

lemma aof_ok_fsync:
  assumes "aof_ok g xs d"
  shows "aof_ok (fst (aof_fsync_now ok g)) xs (if ok then length xs else d)"
  using assms by (auto simp: aof_ok_def aof_fsync_now_def os_fsync_def)

lemma aof_ok_round:
  assumes "aof_ok g xs d"
  shows "aof_ok (persist_bg_round ok now g) xs (if pc_aof_mode (gp_cfg g) = AOF_EVERYSEC \<and> ok then length xs else d)"
  using assms aof_ok_fsync [OF assms, of ok]
  by (auto simp: persist_bg_round_def Let_def aof_rewrite_def aof_ok_def)

lemma aof_run_ok: "aof_run g xs d \<Longrightarrow> aof_ok g xs d"
proof (induction rule: aof_run.induct)
  case (run_init thread_ok r now cfg g)
  have "length AOF_MAGIC = 7" by (simp add: AOF_MAGIC_def)
  then have "os_write r AOF_MAGIC [] = (AOF_MAGIC, 7)" using run_init(2) os_write_full [of AOF_MAGIC r "[]"] by simp
  with run_init show ?case by (auto simp: aof_init_def Let_def aof_ok_def aof_log_def split: if_splits)
next
  case (run_write g xs d x w1 w2 w3 ok)
  then show ?case by (intro aof_ok_write)
next
  case (run_fsync g xs d ok)
  then show ?case by (intro aof_ok_fsync)
next
  case (run_round g xs d ok now)
  then show ?case by (intro aof_ok_round)
next
  case (run_save g xs d oo rr wr ts now items old)
  then show ?case by (auto simp: rdb_save_def aof_ok_def Let_def)
qed


text \<open>A log in the mode \<open>AOF_ALWAYS\<close> with one operation, and its recovery.\<close>

definition sample_cfg :: PersistConfig where
  "sample_cfg = \<lparr>pc_aof_mode = AOF_ALWAYS, pc_aof_path = ''a'', pc_rdb_path = [], pc_rdb_auto_save = False,
     pc_rdb_save_interval_s = 0, pc_rdb_max_dirty_keys = 0, pc_aof_rewrite_enabled = False, pc_aof_rewrite_size_mb = 0\<rparr>"

definition sample_op :: aof_op where
  "sample_op = \<lparr>op_type = AOF_OP_SET, op_key = [107], op_value = [1, 2], op_expire = 0\<rparr>"

lemma sample_run:
  obtains g where "aof_run g [sample_op] 1" "gp_synced g = 26"
proof -
  obtain g where i: "aof_init True True 7 0 [] sample_cfg = (g, True)"
    by (simp add: aof_init_def sample_cfg_def Let_def)
  then have r0: "aof_run g [] 0" by (rule run_init) (simp_all add: sample_cfg_def)
  have g: "gp_cfg g = sample_cfg" "gp_open g" "length (gp_file g) = 7"
    using i by (auto simp: aof_init_def sample_cfg_def Let_def os_write_def AOF_MAGIC_def)
  have ok: "op_ok sample_op" by (simp add: op_ok_def sample_op_def)
  let ?r = "aof_write 16 1 2 True g (op_type sample_op) (Some (op_key sample_op)) (Some (op_value sample_op))
    (length (op_value sample_op)) (op_expire sample_op)"
  have "aof_run (fst ?r) [sample_op] 1"
    using run_write [OF r0 ok, of 16 1 2 True] g(1) by (simp add: sample_op_def sample_cfg_def)
  moreover have "gp_synced (fst ?r) = 26"
    using aof_write_full(5) [OF g(2) ok _ _ _ refl, of 16 1 2 True] g(1,3)
    by (simp add: sample_op_def sample_cfg_def length_op_bytes)
  ultimately show thesis using that by blast
qed


text \<open>A short write of the header is reported as success: the key is left out, and later entries are lost with it.\<close>

lemma aof_short_header:
  assumes "gp_open g" "k \<noteq> []" "length k \<le> 65535" "0 < w" "w < 16" "length v \<le> 4294967295" "v \<noteq> []" "int (length v) \<le> w3"
  shows "\<exists>g'. aof_write w w2 w3 ok g type (Some k) (Some v) (length v) e = (g', 0) \<and>
    gp_file g' = gp_file g @ take (nat w) (aof_entry_image (aof_header type (length k) (length v) e)) @ v"
proof -
  have vl: "unat (ae_value_len (aof_header type (length k) (length v) e)) = length v"
    using assms by (simp add: aof_header_def unat_of_nat_eq)
  have w: "os_write w (aof_entry_image h) f = (f @ take (nat w) (aof_entry_image h), w)" for h f
    using assms by (simp add: os_write_def Let_def min_def)
  show ?thesis using assms
    by (auto simp: aof_write_def Let_def w vl os_write_full os_fsync_def)
qed

subsection \<open>Snapshots are read back\<close>

text \<open>What the iterator may deliver: a key with its terminating zero in the buffer, and a value of its length.\<close>

definition item_ok :: "rdb_item \<Rightarrow> bool" where
  "item_ok it \<longleftrightarrow> length (ri_key_buf it) \<le> 512 \<and> 0 \<in> set (ri_key_buf it) \<and> ri_value_len it \<le> 4294967295 \<and>
     length (case ri_value it of None \<Rightarrow> [] | Some v \<Rightarrow> v) = ri_value_len it"

definition item_name :: "rdb_item \<Rightarrow> bytes" where
  "item_name it = takeWhile (\<lambda>b. b \<noteq> 0) (ri_key_buf it)"

definition item_apply :: "(bytes \<Rightarrow> bytes option \<Rightarrow> u32 \<Rightarrow> u64 \<Rightarrow> 'st \<Rightarrow> 'st) \<Rightarrow> rdb_item \<Rightarrow> 'st \<Rightarrow> 'st" where
  "item_apply apply_fn it = apply_fn (item_name it) (if ri_value_len it = 0 then None else ri_value it)
     (of_nat (ri_value_len it)) (ri_expire_us it)"

definition item_head :: "rdb_item \<Rightarrow> bytes" where
  "item_head it = le_enc 2 (rdb_klen it) @ item_name it @ le_enc 4 (rdb_vlen it) @
     (case ri_value it of None \<Rightarrow> [] | Some v \<Rightarrow> v)"

lemma item_lengths:
  assumes "item_ok it"
  shows "unat (rdb_klen it) = length (item_name it)" "unat (rdb_vlen it) = ri_value_len it" "length (item_name it) < 512"
    "rdb_klen it \<noteq> 0xFFFF"
proof -
  obtain xs ys where "ri_key_buf it = xs @ 0 # ys" using assms split_list unfolding item_ok_def by metis
  then have "length (takeWhile (\<lambda>b. b \<noteq> 0) (ri_key_buf it)) < length (ri_key_buf it)"
    using length_takeWhile_le [of "\<lambda>b. b \<noteq> 0" xs] by (auto simp: takeWhile_append)
  then show l: "length (item_name it) < 512" using assms by (simp add: item_ok_def item_name_def)
  then show k: "unat (rdb_klen it) = length (item_name it)"
    by (simp add: rdb_klen_def c_strlen_def item_name_def unat_of_nat_eq)
  show "unat (rdb_vlen it) = ri_value_len it" using assms by (simp add: rdb_vlen_def unat_of_nat_eq item_ok_def)
  have "unat (rdb_klen it) < 65535" using k l by simp
  moreover have "unat (0xFFFF :: u16) = 65535" by simp
  ultimately show "rdb_klen it \<noteq> 0xFFFF" by (metis less_irrefl)
qed

lemma item_bytes:
  assumes "item_ok it"
  shows "concat (rdb_item_writes it) = item_head it @ le_enc 8 (ri_expire_us it)"
proof -
  have "take (length (item_name it)) (ri_key_buf it) = item_name it"
    unfolding item_name_def by (rule takeWhile_eq_take [symmetric])
  moreover have "take (ri_value_len it) v = v" "ri_value_len it = 0 \<longrightarrow> v = []" if "ri_value it = Some v" for v
    using assms that by (auto simp: item_ok_def)
  ultimately show ?thesis
    by (cases "ri_value it") (auto simp: rdb_item_writes_def item_head_def item_lengths(1,2) [OF assms])
qed

lemma rdb_vlen_0: "item_ok it \<Longrightarrow> rdb_vlen it = 0 \<longleftrightarrow> ri_value_len it = 0"
  using item_lengths(2) [of it] by (metis unat_eq_0)

text \<open>One item, with its expiry or with whatever is left of the file instead.\<close>

lemma rdb_load_item:
  assumes "item_ok it" "ka i" "va i"
  shows "rdb_load_loop ka va junk ap i (item_head it @ rest) st =
    rdb_load_loop ka va junk ap (i + 1) (drop 8 rest)
      (ap (item_name it) (if ri_value_len it = 0 then None else ri_value it) (of_nat (ri_value_len it))
         (if length rest < 8 then junk i else le_dec (take 8 rest)) st)"
proof -
  define vs where "vs = (case ri_value it of None \<Rightarrow> [] | Some v \<Rightarrow> v)"
  have l: "length vs = unat (rdb_vlen it)" using assms(1) item_lengths(2) [OF assms(1)] by (simp add: item_ok_def vs_def)
  have v: "0 < rdb_vlen it \<longleftrightarrow> ri_value_len it \<noteq> 0" "ri_value_len it \<noteq> 0 \<Longrightarrow> ri_value it = Some vs"
    using rdb_vlen_0 [OF assms(1)] assms(1)
    by (auto simp: vs_def item_ok_def word_neq_0_conv [symmetric] split: option.splits)
  have n: "of_nat (ri_value_len it) = rdb_vlen it" by (simp add: rdb_vlen_def)
  show ?thesis using assms(2,3) item_lengths(1,4) [OF assms(1)] l
    by (subst rdb_load_loop.simps; cases "ri_value_len it = 0") (simp_all add: Let_def item_head_def vs_def [symmetric] v n rdb_vlen_0 [OF assms(1), THEN iffD2])
qed

lemma rdb_load_items:
  assumes "\<forall>it \<in> set items. item_ok it" "\<And>i. ka i" "\<And>i. va i"
  shows "rdb_load_loop ka va junk ap i (concat (map (\<lambda>it. concat (rdb_item_writes it)) items) @ le_enc 2 (0xFFFF :: u16)) st =
    (fold (item_apply ap) items st, i + length items)"
  using assms(1)
proof (induction items arbitrary: i st)
  case Nil
  show ?case by (subst rdb_load_loop.simps) simp
next
  case (Cons it items)
  then show ?case using assms(2,3) by (simp add: item_bytes rdb_load_item item_apply_def)
qed

lemma concat_concat_map: "concat (concat (map f xs)) = concat (map (\<lambda>x. concat (f x)) xs)"
  by (induction xs) auto

lemma write_each_full: "\<forall>j < length bs. length (bs ! j) \<le> wr (i + j) \<Longrightarrow> write_each wr i bs = concat bs"
proof (induction bs arbitrary: i)
  case (Cons b bs)
  have "\<forall>j < length bs. length (bs ! j) \<le> wr (i + 1 + j)" using Cons.prems by (auto dest: spec [of _ "Suc _"])
  moreover have "length b \<le> wr i" using Cons.prems by (auto dest: spec [of _ 0])
  ultimately show ?case using Cons.IH [of "i + 1"] by simp
qed simp

text \<open>
  C33. A snapshot is saved atomically and read back.  When all its writes are complete and the rename
  succeeds, \<open>rdb_save\<close> leaves a file from which \<open>rdb_load\<close> applies exactly the items of the
  iterator, in order, with their values and expiry times; when the file cannot be created or
  renamed, the call fails and the previous snapshot and the state stay as they were.
\<close>

theorem rdb_save_load:
  assumes "\<forall>it \<in> set items. item_ok it"
    and "\<forall>j < length (rdb_writes ts items). length (rdb_writes ts items ! j) \<le> wr j"
    and "\<And>i. ka i" and "\<And>i. va i"
  shows "\<exists>g' file' res. rdb_save open_ok rename_ok wr ts now items g file = (g', file', res) \<and>
    (if open_ok \<and> rename_ok
     then res = 0 \<and> snd (rdb_load ka va junk apply_fn file' g'' st) = (fold (item_apply apply_fn) items st, 0)
     else res = -1 \<and> file' = file \<and> g' = g)"
proof -
  have m: "length RDB_MAGIC = 7" by (simp add: RDB_MAGIC_def)
  let ?items = "concat (map (\<lambda>it. concat (rdb_item_writes it)) items) @ le_enc 2 (0xFFFF :: u16)"
  have "write_each wr 0 (rdb_writes ts items) = concat (rdb_writes ts items)"
    using assms(2) by (intro write_each_full) simp
  also have "\<dots> = RDB_MAGIC @ le_enc 4 (1 :: u32) @ le_enc 8 ts @ ?items"
    by (simp add: rdb_writes_def concat_concat_map)
  finally have f: "write_each wr 0 (rdb_writes ts items) = RDB_MAGIC @ le_enc 4 (1 :: u32) @ le_enc 8 ts @ ?items" .
  have "snd (rdb_load ka va junk apply_fn (Some (write_each wr 0 (rdb_writes ts items))) g'' st) =
      (fold (item_apply apply_fn) items st, 0)"
    using m rdb_load_items [OF assms(1,3,4), where junk = junk and ap = apply_fn and i = 0 and st = st]
    by (simp add: rdb_load_def f)
  then show ?thesis by (auto simp: rdb_save_def Let_def)
qed

definition sample_item :: rdb_item where
  "sample_item = \<lparr>ri_key_buf = [107, 0, 9], ri_value = Some [1, 2], ri_value_len = 2, ri_expire_us = 5\<rparr>"

theorem rdb_save_load_witness:
  "\<exists>g0 g' file'. rdb_save True True (\<lambda>_. 600) 0 0 [sample_item] g0 None = (g', file', 0) \<and>
     snd (rdb_load (\<lambda>_. True) (\<lambda>_. True) (\<lambda>_. 0) (\<lambda>k v n e st. st @ [(k, v, e)]) file' g0 []) = ([([107], Some [1, 2], 5)], 0)"
proof -
  have i: "\<forall>it \<in> set [sample_item]. item_ok it" by (simp add: item_ok_def sample_item_def)
  have w: "\<forall>j < length (rdb_writes 0 [sample_item]). length (rdb_writes 0 [sample_item] ! j) \<le> 600"
    by (simp add: rdb_writes_def rdb_item_writes_def sample_item_def All_less_Suc RDB_MAGIC_def min_le_iff_disj)
  from rdb_save_load [OF i w, of "\<lambda>_. True" "\<lambda>_. True" True True 0 g0 None "\<lambda>_. 0" "\<lambda>k v n e st. st @ [(k, v, e)]" g0 "[]"]
  show ?thesis by (auto simp: item_apply_def item_name_def sample_item_def)
qed

text \<open>A file cut inside the expiry of its last item loads that item with an expiry that was never read.\<close>

lemma rdb_load_torn_expiry:
  assumes "item_ok it" "ka i" "va i" "length rest < 8"
  shows "rdb_load_loop ka va junk ap i (item_head it @ rest) st =
    (ap (item_name it) (if ri_value_len it = 0 then None else ri_value it) (of_nat (ri_value_len it)) (junk i) st, i + 1)"
proof -
  have "rdb_load_loop ka va junk ap (i + 1) [] st' = (st', i + 1)" for st'
    by (subst rdb_load_loop.simps) simp
  then show ?thesis using assms(4) by (subst rdb_load_item) (simp_all add: assms(1,2,3))
qed

end
