(* ===== verification/Nex_Base64.thy ===== *)
theory Nex_Base64
  imports Nex_Prelude
begin

text \<open>
  The Base64 encoder of \<open>network/websocket.c\<close>, and a decoder that inverts it.
\<close>

definition b64chars :: bytes where
  "b64chars = str ''ABCDEFGHIJKLMNOPQRSTUVWXYZabcdefghijklmnopqrstuvwxyz0123456789+/''"

definition b64_triple :: "u8 \<Rightarrow> u8 \<Rightarrow> u8 \<Rightarrow> u32" where
  "b64_triple a b c = push_bit 16 (ucast a) OR push_bit 8 (ucast b) OR ucast c"

definition b64_quad :: "u32 \<Rightarrow> bytes" where
  "b64_quad t = [b64chars ! unat (drop_bit 18 t AND 0x3F), b64chars ! unat (drop_bit 12 t AND 0x3F),
     b64chars ! unat (drop_bit 6 t AND 0x3F), b64chars ! unat (t AND 0x3F)]"

text \<open>The encoding loop; \<open>None\<close> when a group and the terminating zero do not fit.\<close>

fun b64_loop :: "nat \<Rightarrow> nat \<Rightarrow> bytes \<Rightarrow> bytes option" where
  "b64_loop cap j [] = Some []"
| "b64_loop cap j [a] = (if j + 5 > cap then None else Some (b64_quad (b64_triple a 0 0)))"
| "b64_loop cap j [a, b] = (if j + 5 > cap then None else Some (b64_quad (b64_triple a b 0)))"
| "b64_loop cap j (a # b # c # xs) =
     (if j + 5 > cap then None else map_option ((@) (b64_quad (b64_triple a b c))) (b64_loop cap (j + 4) xs))"

definition base64_encode :: "bytes \<Rightarrow> nat \<Rightarrow> bytes option" where
  "base64_encode xs cap =
     map_option (\<lambda>out. let j = length out in
         if length xs mod 3 = 1 then out[j - 2 := 0x3D, j - 1 := 0x3D]
         else if length xs mod 3 = 2 then out[j - 1 := 0x3D]
         else out)
       (b64_loop cap 0 xs)"

subsection \<open>Decoding\<close>

definition b64_value :: "u8 \<Rightarrow> u32 option" where
  "b64_value ch = map_option of_nat (find_index (\<lambda>x. x = ch) b64chars)"

fun b64_decode :: "bytes \<Rightarrow> bytes option" where
  "b64_decode [] = Some []"
| "b64_decode (w # x # y # z # rest) =
     (if y = 0x3D then
        (case (b64_value w, b64_value x) of
           (Some i, Some j) \<Rightarrow> Some [ucast (drop_bit 16 (push_bit 18 i OR push_bit 12 j))]
         | _ \<Rightarrow> None)
      else if z = 0x3D then
        (case (b64_value w, b64_value x, b64_value y) of
           (Some i, Some j, Some k) \<Rightarrow>
             (let t = push_bit 18 i OR push_bit 12 j OR push_bit 6 k in Some [ucast (drop_bit 16 t), ucast (drop_bit 8 t)])
         | _ \<Rightarrow> None)
      else
        (case (b64_value w, b64_value x, b64_value y, b64_value z) of
           (Some i, Some j, Some k, Some l) \<Rightarrow>
             (let t = push_bit 18 i OR push_bit 12 j OR push_bit 6 k OR l
              in map_option ((@) [ucast (drop_bit 16 t), ucast (drop_bit 8 t), ucast t]) (b64_decode rest))
         | _ \<Rightarrow> None))"
| "b64_decode _ = None"

lemma find_index_nth: "distinct xs \<Longrightarrow> k < length xs \<Longrightarrow> find_index (\<lambda>x. x = xs ! k) xs = Some k"
  by (auto simp: find_index_Some_iff nth_eq_iff_index_eq)

lemma length_b64chars: "length b64chars = 64"
  by (simp add: b64chars_def str_def)

lemma distinct_b64chars: "distinct b64chars"
  unfolding b64chars_def str_def by code_simp

lemma pad_notin_b64chars: "0x3D \<notin> set b64chars"
  unfolding b64chars_def str_def by code_simp

lemma b64_index: "unat (x AND 0x3F :: u32) < 64"
proof -
  have "x AND 0x3F = take_bit 6 x" by (simp add: take_bit_eq_mask mask_eq_exp_minus_1)
  then show ?thesis using take_bit_nat_less_exp [of 6 "unat x"] by (simp add: unsigned_take_bit_eq)
qed

lemma b64_value_char: "b64_value (b64chars ! unat (x AND 0x3F :: u32)) = Some (x AND 0x3F)"
  using find_index_nth [OF distinct_b64chars, of "unat (x AND 0x3F)"] b64_index [of x]
  by (simp add: b64_value_def length_b64chars)

lemma b64_char_not_pad: "b64chars ! unat (x AND 0x3F :: u32) \<noteq> 0x3D"
  using pad_notin_b64chars b64_index [of x] nth_mem [of "unat (x AND 0x3F)" b64chars] by (metis length_b64chars)

lemma and_3F: "(x :: u32) AND 0x3F = take_bit 6 x"
  by (simp add: take_bit_eq_mask mask_eq_exp_minus_1)

lemma bit_u8_high: "\<not> bit (b :: u8) (8 + n)" "\<not> bit (b :: u8) (16 + n)"
  by (auto dest: bit_imp_le_length)

lemma b64_triple_bytes:
  "ucast (drop_bit 16 (b64_triple a b c)) = a" "ucast (drop_bit 8 (b64_triple a b c)) = b" "ucast (b64_triple a b c) = c"
  by (auto simp: b64_triple_def bit_simps bit_u8_high intro!: bit_word_eqI)

lemma b64_high:
  "ucast (drop_bit 16 (push_bit 18 (take_bit 6 (drop_bit 18 t)) OR push_bit 12 (take_bit 6 (drop_bit 12 t)))) =
     (ucast (drop_bit 16 t) :: u8)"
  "ucast (drop_bit 16 (push_bit 18 (take_bit 6 (drop_bit 18 t)) OR push_bit 12 (take_bit 6 (drop_bit 12 t)) OR
     push_bit 6 (take_bit 6 (drop_bit 6 t)))) = (ucast (drop_bit 16 t) :: u8)"
  "ucast (drop_bit 16 (push_bit 18 (take_bit 6 (drop_bit 18 t)) OR push_bit 12 (take_bit 6 (drop_bit 12 t)) OR
     push_bit 6 (take_bit 6 (drop_bit 6 t)) OR take_bit 6 t)) = (ucast (drop_bit 16 t) :: u8)" for t :: u32
  by (rule bit_word_eqI; auto simp: bit_simps)+

lemma b64_mid:
  "ucast (drop_bit 8 (push_bit 18 (take_bit 6 (drop_bit 18 t)) OR push_bit 12 (take_bit 6 (drop_bit 12 t)) OR
     push_bit 6 (take_bit 6 (drop_bit 6 t)))) = (ucast (drop_bit 8 t) :: u8)"
  "ucast (drop_bit 8 (push_bit 18 (take_bit 6 (drop_bit 18 t)) OR push_bit 12 (take_bit 6 (drop_bit 12 t)) OR
     push_bit 6 (take_bit 6 (drop_bit 6 t)) OR take_bit 6 t)) = (ucast (drop_bit 8 t) :: u8)" for t :: u32
  by (rule bit_word_eqI; auto simp: bit_simps)+

lemma b64_low:
  "ucast (push_bit 18 (take_bit 6 (drop_bit 18 t)) OR push_bit 12 (take_bit 6 (drop_bit 12 t)) OR
     push_bit 6 (take_bit 6 (drop_bit 6 t)) OR take_bit 6 t) = (ucast t :: u8)" for t :: u32
  by (rule bit_word_eqI; auto simp: bit_simps)

lemmas b64_bits = b64_high b64_mid b64_low

text \<open>Padding replaces characters of the last group only.\<close>

fun b64_text :: "bytes \<Rightarrow> bytes" where
  "b64_text [] = []"
| "b64_text [a] = take 2 (b64_quad (b64_triple a 0 0)) @ [0x3D, 0x3D]"
| "b64_text [a, b] = take 3 (b64_quad (b64_triple a b 0)) @ [0x3D]"
| "b64_text (a # b # c # xs) = b64_quad (b64_triple a b c) @ b64_text xs"

lemma length_b64_quad: "length (b64_quad t) = 4"
  by (simp add: b64_quad_def)

lemma length_b64_text: "length (b64_text xs) = 4 * ((length xs + 2) div 3)"
proof (induction xs rule: b64_text.induct)
  case (4 a b c xs)
  have "(length (a # b # c # xs) + 2) div 3 = Suc ((length xs + 2) div 3)" by simp
  then show ?case using 4 by (simp only: b64_text.simps length_append) (simp add: b64_quad_def)
qed (simp_all add: b64_quad_def)

lemma b64_decode_text: "b64_decode (b64_text xs) = Some xs"
  by (induction xs rule: b64_text.induct)
    (simp_all add: b64_quad_def and_3F b64_char_not_pad [unfolded and_3F] b64_value_char [unfolded and_3F] Let_def
      b64_bits b64_triple_bytes del: push_bit_take_bit drop_bit_or)

lemma b64_loop_fits: "j + length (b64_text xs) < cap \<Longrightarrow> \<exists>out. b64_loop cap j xs = Some out \<and>
   length out = length (b64_text xs) \<and> b64_text xs = (if length xs mod 3 = 1 then out[length out - 2 := 0x3D, length out - 1 := 0x3D]
     else if length xs mod 3 = 2 then out[length out - 1 := 0x3D] else out)"
proof (induction cap j xs rule: b64_loop.induct)
  case (4 cap j a b c xs)
  then obtain out where out: "b64_loop cap (j + 4) xs = Some out" "length out = length (b64_text xs)"
    "b64_text xs = (if length xs mod 3 = 1 then out[length out - 2 := 0x3D, length out - 1 := 0x3D]
     else if length xs mod 3 = 2 then out[length out - 1 := 0x3D] else out)"
    by (auto simp: b64_quad_def)
  have m: "Suc (Suc (Suc (length xs))) mod 3 = length xs mod 3" by presburger
  have l: "length xs mod 3 \<noteq> 0 \<longrightarrow> length out \<ge> 4" using out(2) unfolding length_b64_text by (cases xs) auto
  show ?case using 4(2) out(1,2) m l
    by (auto simp: length_b64_quad out(3) list_update_append)
qed (auto simp: b64_quad_def)

text \<open>Encoding succeeds exactly when the text and its terminating zero fit, and decoding gives the input back.\<close>

lemma base64_encode_text: "length (b64_text xs) < cap \<Longrightarrow> base64_encode xs cap = Some (b64_text xs)"
  using b64_loop_fits [of 0 xs cap] by (auto simp: base64_encode_def Let_def)

end
