(* ===== verification/Nex_Websocket.thy ===== *)
theory Nex_Websocket
  imports Nex_Sha1 Nex_Base64
begin

text \<open>
  The WebSocket endpoint of \<open>network/websocket.c\<close>: the upgrade handshake, sending and reading frames,
  and the JSON text of responses.  What the socket accepts is collected in \<open>wc_out\<close>; the outcomes of
  \<open>send\<close>, \<open>recv\<close>, \<open>realloc\<close> and \<open>malloc\<close> and the clock are arguments.  The write buffer and the list
  of channels of a connection are never used by the code and are left out.
\<close>

subsection \<open>Handshake\<close>

definition c_str :: "bytes \<Rightarrow> bytes" where
  "c_str buf = takeWhile (\<lambda>b. b \<noteq> 0) buf"

definition WS_GUID :: bytes where
  "WS_GUID = str ''258EAFA5-E914-47DA-95CA-C5AB0DC85B11''"

text \<open>\<open>ctx\<close> is the uninitialised hash context on the stack; \<open>snprintf\<close> cuts the text to its buffer of 256 bytes.\<close>

definition ws_compute_accept_key :: "SHA1Ctx \<Rightarrow> bytes \<Rightarrow> bytes option" where
  "ws_compute_accept_key ctx client_key =
     (let combined = take 255 (c_str client_key @ WS_GUID)
      in base64_encode (sha1_final (sha1_update (sha1_init ctx) combined)) 64)"

fun memmem :: "bytes \<Rightarrow> bytes \<Rightarrow> nat option" where
  "memmem [] needle = (if needle = [] then Some 0 else None)"
| "memmem (h # hs) needle =
     (if take (length needle) (h # hs) = needle then Some 0 else map_option Suc (memmem hs needle))"

definition ws_detect_upgrade :: "bytes option \<Rightarrow> bool" where
  "ws_detect_upgrade data = (case data of
     None \<Rightarrow> False
   | Some d \<Rightarrow>
       if length d < 4 then False
       else memmem d (str ''Upgrade: websocket'') \<noteq> None \<or> memmem d (str ''upgrade: websocket'') \<noteq> None \<or>
            memmem d (str ''Upgrade:websocket'') \<noteq> None)"

datatype WsState = WS_STATE_CONNECTING | WS_STATE_HANDSHAKE | WS_STATE_OPEN | WS_STATE_CLOSING | WS_STATE_CLOSED

record WsFrame =
  wf_fin :: u8
  wf_opcode :: u8
  wf_masked :: u8
  wf_masking_key :: bytes
  wf_payload_len :: u64
  wf_payload :: bytes
  wf_payload_cap :: nat

text \<open>\<open>wc_read_buf\<close> holds the first \<open>read_len\<close> bytes of the read buffer.\<close>

record WsConn =
  wc_state :: WsState
  wc_client_id :: u64
  wc_read_buf :: bytes
  wc_read_cap :: nat
  wc_out :: bytes
  wc_frames_received :: u64
  wc_frames_sent :: u64
  wc_bytes_received :: u64
  wc_bytes_sent :: u64
  wc_connected_at_us :: u64

definition crlf :: bytes where
  "crlf = [13, 10]"

definition ws_response :: "bytes \<Rightarrow> bytes" where
  "ws_response accept_key =
     str ''HTTP/1.1 101 Switching Protocols'' @ crlf @ str ''Upgrade: websocket'' @ crlf @
     str ''Connection: Upgrade'' @ crlf @ str ''Sec-WebSocket-Accept: '' @ accept_key @ crlf @
     str ''Sec-WebSocket-Version: 13'' @ crlf @ crlf"

text \<open>The key is read up to the end of the line or of the request, and at most 63 bytes of it.\<close>

definition ws_client_key :: "bytes \<Rightarrow> bytes option" where
  "ws_client_key request =
     (let upper = str ''Sec-WebSocket-Key: '';
          key_str = (if memmem request upper = None then str ''sec-websocket-key: '' else upper)
      in map_option (\<lambda>i. take 63 (takeWhile (\<lambda>ch. ch \<noteq> 13 \<and> ch \<noteq> 10) (drop (i + length key_str) request)))
           (memmem request key_str))"

definition ws_handshake :: "SHA1Ctx \<Rightarrow> int \<Rightarrow> WsConn \<Rightarrow> bytes \<Rightarrow> WsConn \<times> int" where
  "ws_handshake ctx r conn request =
     (case ws_client_key request of
        None \<Rightarrow> (conn, -1)
      | Some client_key \<Rightarrow>
          (case ws_compute_accept_key ctx client_key of
             None \<Rightarrow> (conn, -1)
           | Some accept_key \<Rightarrow>
               let response = ws_response accept_key;
                   (out, sent) = os_write r response (wc_out conn);
                   conn1 = conn\<lparr>wc_out := out\<rparr>
               in if sent \<noteq> int (length response) then (conn1, -1)
                  else (conn1\<lparr>wc_state := WS_STATE_OPEN\<rparr>, 0)))"

definition ws_conn_create :: "bool \<Rightarrow> u64 \<Rightarrow> u64 \<Rightarrow> WsConn option" where
  "ws_conn_create alloc_ok now client_id =
     (if alloc_ok
      then Some \<lparr>wc_state = WS_STATE_CONNECTING, wc_client_id = client_id, wc_read_buf = [], wc_read_cap = 65536,
             wc_out = [], wc_frames_received = 0, wc_frames_sent = 0, wc_bytes_received = 0, wc_bytes_sent = 0,
             wc_connected_at_us = now\<rparr>
      else None)"

subsection \<open>Sending\<close>

definition ws_mask_payload :: "bytes \<Rightarrow> bytes \<Rightarrow> bytes" where
  "ws_mask_payload data key = map (\<lambda>i. data ! i XOR key ! (i mod 4)) [0..<length data]"

definition ws_header :: "u8 \<Rightarrow> u64 \<Rightarrow> bytes" where
  "ws_header opcode data_len =
     (0x80 OR opcode) #
     (if data_len \<le> 125 then [ucast data_len]
      else if data_len \<le> 65535 then [126, ucast (drop_bit 8 data_len), ucast (data_len AND 0xFF)]
      else 127 # map (\<lambda>i. ucast (drop_bit (i * 8) data_len AND 0xFF)) (rev [0..<8]))"

definition ws_send_frame :: "int \<Rightarrow> int \<Rightarrow> WsConn \<Rightarrow> u8 \<Rightarrow> bytes \<Rightarrow> WsConn \<times> int" where
  "ws_send_frame r1 r2 conn opcode data =
     (if wc_state conn \<noteq> WS_STATE_OPEN then (conn, -1)
      else
        let header = ws_header opcode (of_nat (length data));
            (out1, a) = os_write r1 header (wc_out conn)
        in if a < 0 then (conn\<lparr>wc_out := out1\<rparr>, -1)
           else
             let (out2, b) = (if data \<noteq> [] then os_write r2 data out1 else (out1, 0))
             in if b < 0 then (conn\<lparr>wc_out := out2\<rparr>, -1)
                else (conn\<lparr>wc_out := out2, wc_frames_sent := wc_frames_sent conn + 1,
                        wc_bytes_sent := wc_bytes_sent conn + of_nat (length header + length data)\<rparr>, 0))"

definition ws_send_text :: "int \<Rightarrow> int \<Rightarrow> WsConn \<Rightarrow> bytes \<Rightarrow> WsConn \<times> int" where
  "ws_send_text r1 r2 conn text = ws_send_frame r1 r2 conn 0x1 text"

definition ws_send_binary :: "int \<Rightarrow> int \<Rightarrow> WsConn \<Rightarrow> bytes \<Rightarrow> WsConn \<times> int" where
  "ws_send_binary r1 r2 conn data = ws_send_frame r1 r2 conn 0x2 data"

definition ws_send_ping :: "int \<Rightarrow> int \<Rightarrow> WsConn \<Rightarrow> WsConn \<times> int" where
  "ws_send_ping r1 r2 conn = ws_send_frame r1 r2 conn 0x9 []"

definition ws_send_close :: "int \<Rightarrow> int \<Rightarrow> WsConn \<Rightarrow> u16 \<Rightarrow> bytes option \<Rightarrow> WsConn \<times> int" where
  "ws_send_close r1 r2 conn code reason =
     (let payload = [ucast (drop_bit 8 code), ucast (code AND 0xFF)] @
            (case reason of None \<Rightarrow> [] | Some text \<Rightarrow> take 120 (c_str text))
      in ws_send_frame r1 r2 (conn\<lparr>wc_state := WS_STATE_CLOSING\<rparr>) 0x8 payload)"

subsection \<open>Reading\<close>

definition WS_MAX_PAYLOAD :: nat where
  "WS_MAX_PAYLOAD = 16 * 1024 * 1024"

text \<open>What \<open>recv\<close> gives: bytes (none when the peer has closed), nothing for now, or an error.\<close>

datatype recv_result = Recv bytes | RecvAgain | RecvError

text \<open>The length field: its value and the offset of what follows it, or \<open>None\<close> when it is not complete.\<close>

definition ws_payload_length :: "bytes \<Rightarrow> (u64 \<times> nat) option" where
  "ws_payload_length buf =
     (let len7 = buf ! 1 AND 0x7F in
      if len7 = 126 then
        if length buf < 4 then None else Some (push_bit 8 (ucast (buf ! 2)) OR ucast (buf ! 3), 4)
      else if len7 = 127 then
        if length buf < 10 then None else Some (foldl (\<lambda>n b. push_bit 8 n OR ucast b) 0 (buf_read buf 2 8), 10)
      else Some (ucast len7, 2))"

text \<open>
  Parsing the bytes in the buffer.  \<open>None\<close> is the write through the null pointer that the code makes when
  \<open>malloc\<close> fails; the frame is filled in as far as the code gets.
\<close>

definition ws_parse_frame :: "bool \<Rightarrow> WsConn \<Rightarrow> WsFrame \<Rightarrow> (WsConn \<times> WsFrame \<times> int) option" where
  "ws_parse_frame malloc_ok conn frame =
     (let buf = wc_read_buf conn; avail = length buf in
      if avail < 2 then Some (conn, frame, 0)
      else
        let frame1 = frame\<lparr>wf_fin := drop_bit 7 (buf ! 0) AND 1, wf_opcode := buf ! 0 AND 0x0F,
                           wf_masked := drop_bit 7 (buf ! 1) AND 1\<rparr>;
            masked = (wf_masked frame1 \<noteq> 0)
        in case ws_payload_length buf of
          None \<Rightarrow> Some (conn, frame1, 0)
        | Some (payload_len, offset) \<Rightarrow>
            let n = unat payload_len
            in if n > WS_MAX_PAYLOAD then Some (conn, frame1, -1)
               else if masked \<and> avail < offset + 4 then Some (conn, frame1, 0)
               else
                 let frame2 = (if masked then frame1\<lparr>wf_masking_key := buf_read buf offset 4\<rparr> else frame1);
                     offset2 = (if masked then offset + 4 else offset)
                 in if avail < offset2 + n then Some (conn, frame2, 0)
                    else if wf_payload_cap frame2 < n \<and> \<not> malloc_ok then None
                    else
                      let data = buf_read buf offset2 n;
                          frame3 = frame2\<lparr>wf_payload_len := payload_len,
                            wf_payload_cap := (if wf_payload_cap frame2 < n then n else wf_payload_cap frame2),
                            wf_payload := (if masked then ws_mask_payload data (wf_masking_key frame2) else data)\<rparr>;
                          frame_size = offset2 + n
                      in Some (conn\<lparr>wc_read_buf := drop frame_size buf,
                                    wc_frames_received := wc_frames_received conn + 1,
                                    wc_bytes_received := wc_bytes_received conn + of_nat frame_size\<rparr>, frame3, 1))"

definition ws_grow :: "bool \<Rightarrow> WsConn \<Rightarrow> WsConn" where
  "ws_grow realloc_ok conn =
     (if wc_read_cap conn - length (wc_read_buf conn) < 4096 \<and> wc_read_cap conn < WS_MAX_PAYLOAD \<and> realloc_ok
      then conn\<lparr>wc_read_cap := min (wc_read_cap conn * 2) (WS_MAX_PAYLOAD + 16)\<rparr> else conn)"

definition ws_read_frame :: "bool \<Rightarrow> bool \<Rightarrow> recv_result \<Rightarrow> WsConn \<Rightarrow> WsFrame \<Rightarrow> (WsConn \<times> WsFrame \<times> int) option" where
  "ws_read_frame realloc_ok malloc_ok recv conn frame =
     (if wc_state conn \<noteq> WS_STATE_OPEN then Some (conn, frame, -1)
      else
        let conn1 = ws_grow realloc_ok conn; space = wc_read_cap conn1 - length (wc_read_buf conn1)
        in if space = 0 then ws_parse_frame malloc_ok conn1 frame
           else case recv of
             Recv d \<Rightarrow>
               if d = [] then Some (conn1, frame, -1)
               else ws_parse_frame malloc_ok (conn1\<lparr>wc_read_buf := wc_read_buf conn1 @ take space d\<rparr>) frame
           | RecvAgain \<Rightarrow> ws_parse_frame malloc_ok conn1 frame
           | RecvError \<Rightarrow> Some (conn1, frame, -1))"

subsection \<open>Responses\<close>

definition hex_digit :: "u8 \<Rightarrow> u8" where
  "hex_digit d = (if d < 10 then 0x30 + d else 0x57 + d)"

definition json_char :: "u8 \<Rightarrow> bytes" where
  "json_char p =
     (if p = 0x22 then [0x5C, 0x22]
      else if p = 0x5C then [0x5C, 0x5C]
      else if p = 0x0A then [0x5C, 0x6E]
      else if p = 0x0D then [0x5C, 0x72]
      else if p = 0x09 then [0x5C, 0x74]
      else if p < 0x20 then [0x5C, 0x75, 0x30, 0x30, hex_digit (drop_bit 4 p), hex_digit (p AND 0x0F)]
      else [p])"

fun json_loop :: "nat \<Rightarrow> nat \<Rightarrow> bytes \<Rightarrow> bytes" where
  "json_loop cap k [] = []"
| "json_loop cap k (p # ps) =
     (if p \<noteq> 0 \<and> k + 6 < cap then json_char p @ json_loop cap (k + length (json_char p)) ps else [])"

definition ws_json_escape :: "bytes option \<Rightarrow> nat \<Rightarrow> bytes" where
  "ws_json_escape src cap = (case src of None \<Rightarrow> [] | Some s \<Rightarrow> json_loop cap 0 s)"

definition ws_error_text :: "bytes option \<Rightarrow> bytes \<Rightarrow> bytes" where
  "ws_error_text req_id error =
     str ''{\"ok\":false,\"error\":\"'' @ ws_json_escape (Some error) 2048 @ str ''\",\"id\":\"'' @
     ws_json_escape req_id 2048 @ str ''\"}''"

definition ws_result_text :: "bytes option \<Rightarrow> bytes option \<Rightarrow> bytes" where
  "ws_result_text req_id result =
     (let literal = (case result of Some (ch # _) \<Rightarrow> ch = 0x22 | _ \<Rightarrow> False)
      in str ''{\"ok\":true,\"result\":'' @ (if literal then [] else [0x22]) @
         (case result of
            None \<Rightarrow> str ''null''
          | Some text \<Rightarrow> if literal then c_str text else ws_json_escape (Some text) 2048) @
         (if literal then [] else [0x22]) @ str '',\"id\":\"'' @ ws_json_escape req_id 2048 @ str ''\"}'')"

text \<open>
  The text is cut to the buffer of 8192 bytes, but its full length is sent; \<open>beyond\<close> are the bytes after the buffer.
\<close>

definition ws_send_response :: "int \<Rightarrow> int \<Rightarrow> bytes \<Rightarrow> WsConn \<Rightarrow> bytes option \<Rightarrow> bytes option \<Rightarrow> bytes option \<Rightarrow> WsConn \<times> int" where
  "ws_send_response r1 r2 beyond conn req_id result error =
     (let text = (case error of Some e \<Rightarrow> ws_error_text req_id e | None \<Rightarrow> ws_result_text req_id result);
          sent = (if length text < 8192 then text else take (length text) (take 8191 text @ [0] @ beyond))
      in ws_send_text r1 r2 conn sent)"

definition ws_conn_destroy :: "int \<Rightarrow> int \<Rightarrow> WsConn \<Rightarrow> WsConn" where
  "ws_conn_destroy r1 r2 conn =
     (if wc_state conn = WS_STATE_OPEN then fst (ws_send_close r1 r2 conn 1000 (Some (str ''Server shutdown''))) else conn)"

end
