(* ===== verification/Nex_Websocket_Props.thy ===== *)
theory Nex_Websocket_Props
  imports Nex_Websocket
begin

text \<open>
  Properties of the WebSocket endpoint: frames are read back as they were sent however the bytes arrive,
  the handshake answers with the key of RFC 6455, and the text of a response keeps its JSON structure.
\<close>

subsection \<open>Masking and the length field\<close>

lemma length_ws_mask [simp]: "length (ws_mask_payload data key) = length data"
  by (simp add: ws_mask_payload_def)

lemma ws_mask_involution [simp]: "ws_mask_payload (ws_mask_payload data key) key = data"
  by (rule nth_equalityI) (simp_all add: ws_mask_payload_def xor.assoc)

definition len_field :: "bool \<Rightarrow> u64 \<Rightarrow> bytes" where
  "len_field m n =
     (let mb = (if m then 0x80 else 0) in
      if n \<le> 125 then [mb OR ucast n]
      else if n \<le> 65535 then [mb OR 126, ucast (drop_bit 8 n), ucast n]
      else (mb OR 127) # rev (le_enc 8 n))"

lemma foldl_be_dec: "foldl (\<lambda>n b. push_bit 8 n OR ucast b) 0 (rev bs) = (le_dec bs :: 'a::len word)"
  by (induction bs) (simp_all add: or.commute)

lemma bit_0x80: "bit (0x80 :: u8) n \<longleftrightarrow> n = 7"
  using bit_push_bit_iff [of 7 "1 :: u8" n] by (auto simp: bit_simps)

lemma high_bit:
  assumes "(x :: u8) < 128"
  shows "drop_bit 7 x AND 1 = 0" "drop_bit 7 (0x80 OR x) AND 1 = 1" "x AND 0x7F = x" "(0x80 OR x) AND 0x7F = x"
proof -
  have b: "n < 7" if "bit x n" for n using not_bit_above [of x 7 n] assms that by (cases "n < 7") simp_all
  have e: "(0x7F :: u8) = mask 7" by (simp add: mask_eq_exp_minus_1)
  show "drop_bit 7 x AND 1 = 0" "x AND 0x7F = x" "drop_bit 7 (0x80 OR x) AND 1 = 1" "(0x80 OR x) AND 0x7F = x"
    unfolding e by (rule bit_word_eqI, simp only: bit_simps bit_0x80, auto simp: bit_1_iff dest: b)+
qed

lemma opcode_bits:
  assumes "(x :: u8) < 16"
  shows "drop_bit 7 x AND 1 = 0" "drop_bit 7 (0x80 OR x) AND 1 = 1" "x AND 0x0F = x" "(0x80 OR x) AND 0x0F = x"
proof -
  have b: "n < 4" if "bit x n" for n using not_bit_above [of x 4 n] assms that by (cases "n < 4") simp_all
  have e: "(0x0F :: u8) = mask 4" by (simp add: mask_eq_exp_minus_1)
  show "drop_bit 7 x AND 1 = 0" "x AND 0x0F = x" "drop_bit 7 (0x80 OR x) AND 1 = 1" "(0x80 OR x) AND 0x0F = x"
    unfolding e by (rule bit_word_eqI, simp only: bit_simps bit_0x80, auto simp: bit_1_iff dest: b)+
qed

lemma len_field_2: "n \<le> 65535 \<Longrightarrow> push_bit 8 (ucast (ucast (drop_bit 8 n) :: u8)) OR ucast (ucast n :: u8) = (n :: u64)"
proof -
  assume "n \<le> 65535"
  then have b: "k < 16" if "bit n k" for k
    using not_bit_unat [of n 16 k] that by (cases "k < 16") (simp_all add: word_le_nat_alt)
  show ?thesis by (rule bit_word_eqI) (auto simp: bit_simps not_less dest: b)
qed

lemma ws_payload_length_full:
  "ws_payload_length (b # len_field m n @ rest) = Some (n, 1 + length (len_field m n))"
proof -
  consider "n \<le> 125" | "125 < n" "n \<le> 65535" | "65535 < n" by (metis not_le)
  then show ?thesis
  proof cases
    case 1
    then have "unat (ucast n :: u8) = unat n" by (simp add: unat_ucast word_le_nat_alt)
    moreover have "unat n \<le> 125" using 1 by (simp add: word_le_nat_alt)
    ultimately have u: "(ucast n :: u8) < 128" "(ucast n :: u8) \<noteq> 126" "(ucast n :: u8) \<noteq> 127" "ucast (ucast n :: u8) = n"
      by (auto simp: word_less_nat_alt word_unat_eq_iff unat_ucast)
    show ?thesis using 1 u high_bit [OF u(1)] by (simp add: ws_payload_length_def len_field_def)
  next
    case 2
    then have "\<not> n \<le> 125" by simp
    with 2 show ?thesis by (simp add: ws_payload_length_def len_field_def len_field_2)
  next
    case 3
    then have "\<not> n \<le> 125" "\<not> n \<le> 65535" by (auto simp: word_le_nat_alt word_less_nat_alt)
    then show ?thesis by (simp add: ws_payload_length_def len_field_def buf_read_def foldl_be_dec)
  qed
qed

lemma ws_payload_length_short:
  assumes "buf @ todo = b # len_field m n @ rest" "2 \<le> length buf" "length buf < 1 + length (len_field m n)"
  shows "ws_payload_length buf = None"
proof -
  have "buf ! 1 = (b # len_field m n @ rest) ! 1" using assms(1,2) by (metis nth_append Suc_1 Suc_le_lessD One_nat_def)
  then show ?thesis using assms(2,3)
    by (auto simp: ws_payload_length_def len_field_def Let_def split: if_splits)
qed

subsection \<open>Frames\<close>

text \<open>The bytes of a frame of RFC 6455, with the payload masked when there is a key.\<close>

definition frame_bytes :: "bool \<Rightarrow> u8 \<Rightarrow> bytes option \<Rightarrow> bytes \<Rightarrow> bytes" where
  "frame_bytes fin opcode key data =
     ((if fin then 0x80 else 0) OR opcode) # len_field (key \<noteq> None) (of_nat (length data)) @
     (case key of None \<Rightarrow> data | Some k \<Rightarrow> k @ ws_mask_payload data k)"

definition frame_ok :: "u8 \<Rightarrow> bytes option \<Rightarrow> bytes \<Rightarrow> bool" where
  "frame_ok opcode key data \<longleftrightarrow> opcode < 16 \<and> length data \<le> WS_MAX_PAYLOAD \<and> (\<forall>k. key = Some k \<longrightarrow> length k = 4)"

lemma len_field_mask: "drop_bit 7 (len_field m n ! 0) AND 1 = (if m then 1 else 0)"
proof (cases "n \<le> 125")
  case True
  then have "(ucast n :: u8) < 128" by (simp add: unat_ucast word_le_nat_alt word_less_nat_alt)
  from high_bit(1,2) [OF this] True show ?thesis by (simp add: len_field_def)
next
  case False
  then show ?thesis by (auto simp: len_field_def Let_def)
qed

lemma len_field_nonempty: "len_field m n \<noteq> []"
  by (simp add: len_field_def Let_def)

lemma le_enc_map: "le_enc k w = map (\<lambda>i. ucast (drop_bit (i * 8) w)) [0..<k]"
proof (induction k arbitrary: w)
  case (Suc k)
  have "[0..<Suc k] = 0 # map Suc [0..<k]" by (simp add: upt_conv_Cons map_Suc_upt del: upt_Suc)
  then show ?case by (simp add: Suc.IH comp_def add.commute del: upt_Suc)
qed simp

lemma ucast_and_0xFF: "ucast (w AND 0xFF) = (ucast w :: u8)" for w :: u64
proof -
  have "w AND 0xFF = take_bit 8 w" by (simp add: take_bit_eq_mask mask_eq_exp_minus_1)
  then show ?thesis by (simp only:) (rule bit_word_eqI, simp add: bit_simps)
qed

lemma ws_header_frame: "ws_header opcode n = (0x80 OR opcode) # len_field False n"
  by (simp add: ws_header_def len_field_def le_enc_map rev_map ucast_and_0xFF del: upt_rec_numeral)

text \<open>One frame at the front of the buffer: complete, or cut off anywhere.\<close>

lemma ws_parse_complete:
  assumes "wc_read_buf conn = frame_bytes fin opcode key data @ rest" "frame_ok opcode key data"
  shows "\<exists>conn' frame'. ws_parse_frame True conn frame = Some (conn', frame', 1) \<and> wc_read_buf conn' = rest \<and>
    wc_state conn' = wc_state conn \<and> wc_read_cap conn' = wc_read_cap conn \<and> wc_out conn' = wc_out conn \<and>
    wf_fin frame' = (if fin then 1 else 0) \<and> wf_opcode frame' = opcode \<and> wf_payload frame' = data \<and>
    wf_payload_len frame' = of_nat (length data)"
proof -
  define b where "b = (if fin then 0x80 else 0) OR opcode"
  define body where "body = (case key of None \<Rightarrow> data | Some k \<Rightarrow> k @ ws_mask_payload data k)"
  let ?l = "len_field (key \<noteq> None) (of_nat (length data))"
  have op: "opcode < 16" using assms(2) by (simp add: frame_ok_def)
  have n: "unat (of_nat (length data) :: u64) = length data" "\<not> WS_MAX_PAYLOAD < length data"
    using assms(2) by (auto simp: frame_ok_def WS_MAX_PAYLOAD_def intro!: unat_of_nat_eq)
  obtain l0 ls where l: "?l = l0 # ls" using len_field_nonempty [of "key \<noteq> None" "of_nat (length data)"] by (cases ?l) auto
  have buf: "wc_read_buf conn = b # l0 # ls @ body @ rest" using assms(1) l by (simp add: frame_bytes_def b_def body_def)
  have m: "drop_bit 7 (wc_read_buf conn ! 1) AND 1 = (if key \<noteq> None then 1 else 0)"
    using len_field_mask [of "key \<noteq> None" "of_nat (length data)"] unfolding l buf by simp
  have pl: "ws_payload_length (wc_read_buf conn) = Some (of_nat (length data), 2 + length ls)"
    using ws_payload_length_full [of b "key \<noteq> None" "of_nat (length data)" "body @ rest"] l buf by simp
  have b0: "drop_bit 7 (wc_read_buf conn ! 0) AND 1 = (if fin then 1 else 0)" "wc_read_buf conn ! 0 AND 0x0F = opcode"
    unfolding buf using opcode_bits [OF op] by (simp_all add: b_def)
  have len: "length (wc_read_buf conn) = 2 + length ls + length body + length rest" unfolding buf by simp
  note facts = pl len n b0 m [unfolded One_nat_def]
  show ?thesis
  proof (cases key)
    case None
    have "buf_read (wc_read_buf conn) (2 + length ls) (length data) = data" "drop (2 + length ls + length data) (wc_read_buf conn) = rest"
      unfolding buf using None by (simp_all add: buf_read_def body_def)
    then show ?thesis using None by (simp add: ws_parse_frame_def Let_def facts body_def)
  next
    case (Some k)
    then have k: "length k = 4" using assms(2) by (simp add: frame_ok_def)
    define p where "p = b # l0 # ls @ k"
    have e: "wc_read_buf conn = p @ ws_mask_payload data k @ rest" "2 + length ls + 4 = length p"
      using Some k by (simp_all add: buf body_def p_def)
    have "buf_read (wc_read_buf conn) (2 + length ls) 4 = k" using k Some by (simp add: buf buf_read_def body_def)
    moreover have "buf_read (wc_read_buf conn) (2 + length ls + 4) (length data) = ws_mask_payload data k"
      "drop (2 + length ls + 4 + length data) (wc_read_buf conn) = rest"
      unfolding e by (simp_all add: buf_read_def)
    ultimately show ?thesis using Some k by (simp add: ws_parse_frame_def Let_def facts body_def)
  qed
qed

lemma ws_parse_partial:
  assumes "wc_read_buf conn @ todo = frame_bytes fin opcode key data" "todo \<noteq> []" "frame_ok opcode key data"
  shows "\<exists>frame'. ws_parse_frame mo conn frame = Some (conn, frame', 0)"
proof -
  define b where "b = (if fin then 0x80 else 0) OR opcode"
  define body where "body = (case key of None \<Rightarrow> data | Some k \<Rightarrow> k @ ws_mask_payload data k)"
  define l where "l = len_field (key \<noteq> None) (of_nat (length data))"
  let ?buf = "wc_read_buf conn"
  have e: "?buf @ todo = b # l @ body" using assms(1) by (simp add: frame_bytes_def b_def body_def l_def)
  consider "length ?buf < 2" | "2 \<le> length ?buf" "length ?buf < 1 + length l" | "2 \<le> length ?buf" "1 + length l \<le> length ?buf"
    by linarith
  then show ?thesis
  proof cases
    case 1
    then show ?thesis by (simp add: ws_parse_frame_def)
  next
    case 2
    then have "ws_payload_length ?buf = None" using ws_payload_length_short e unfolding l_def by metis
    then show ?thesis using 2 by (simp add: ws_parse_frame_def Let_def)
  next
    case 3
    define q where "q = drop (1 + length l) ?buf"
    have "take (1 + length l) (?buf @ todo) = take (1 + length l) ?buf" using 3(2) by simp
    then have "take (1 + length l) ?buf = b # l" unfolding e by simp
    then have buf: "?buf = b # l @ q" unfolding q_def by (metis append_take_drop_id append_Cons)
    then have q: "length q < length body" using e assms(2) by auto
    have n: "unat (of_nat (length data) :: u64) = length data" "\<not> WS_MAX_PAYLOAD < length data"
      using assms(3) by (auto simp: frame_ok_def WS_MAX_PAYLOAD_def intro!: unat_of_nat_eq)
    have ln: "l \<noteq> []" by (simp add: l_def len_field_nonempty)
    have m: "drop_bit 7 (?buf ! Suc 0) AND 1 = (if key \<noteq> None then 1 else 0)"
      using len_field_mask [of "key \<noteq> None" "of_nat (length data)"] ln by (simp add: buf nth_append l_def)
    have pl: "ws_payload_length ?buf = Some (of_nat (length data), 1 + length l)"
      unfolding buf l_def by (rule ws_payload_length_full)
    have len: "length ?buf = 1 + length l + length q" by (simp add: buf)
    show ?thesis
    proof (cases key)
      case None
      then show ?thesis using 3(1) q by (simp add: ws_parse_frame_def Let_def pl n m len body_def)
    next
      case (Some k)
      moreover from this have "length k = 4" using assms(3) by (simp add: frame_ok_def)
      ultimately show ?thesis using 3(1) q by (simp add: ws_parse_frame_def Let_def pl n m len body_def)
    qed
  qed
qed

lemma ws_send_frame_full:
  assumes "wc_state conn = WS_STATE_OPEN" "20 \<le> r1" "int (length data) \<le> r2"
  shows "\<exists>conn'. ws_send_frame r1 r2 conn opcode data = (conn', 0) \<and> wc_out conn' = wc_out conn @ frame_bytes True opcode None data"
proof -
  have "length (len_field False n) \<le> 9" for n by (simp add: len_field_def Let_def)
  then have "length (ws_header opcode (of_nat (length data))) \<le> 10" by (simp add: ws_header_frame)
  then have "os_write r1 (ws_header opcode (of_nat (length data))) f =
      (f @ ws_header opcode (of_nat (length data)), int (length (ws_header opcode (of_nat (length data)))))" for f
    using assms(2) by (intro os_write_full) linarith
  then show ?thesis using assms os_write_full [OF assms(3)]
    by (simp add: ws_send_frame_def Let_def frame_bytes_def ws_header_frame)
qed

text \<open>
  C13. Frames survive the transport.  What \<open>ws_send_frame\<close> writes to the socket is the frame of the opcode
  and the payload.  However the bytes of a frame are cut into pieces, with or without a masking key,
  \<open>ws_read_frame\<close> keeps an incomplete frame in its buffer and asks for more, and once the last byte is there
  it returns exactly the fin bit, the opcode and the unmasked payload and leaves the bytes of the
  next frame.
\<close>

theorem ws_frame_roundtrip:
  assumes "frame_ok opcode key data" and "wc_state conn = WS_STATE_OPEN" and "d \<noteq> []"
    and "length (wc_read_buf conn) + length d \<le> wc_read_cap (ws_grow ro conn)"
    and "20 \<le> r1" and "int (length data) \<le> r2"
  shows "(\<exists>conn'. ws_send_frame r1 r2 conn opcode data = (conn', 0) \<and>
            wc_out conn' = wc_out conn @ frame_bytes True opcode None data) \<and>
    (\<forall>rest. wc_read_buf conn @ d = frame_bytes fin opcode key data @ rest \<longrightarrow>
       (\<exists>conn' frame'. ws_read_frame ro True (Recv d) conn frame = Some (conn', frame', 1) \<and> wc_read_buf conn' = rest \<and>
          wc_state conn' = WS_STATE_OPEN \<and> wf_fin frame' = (if fin then 1 else 0) \<and> wf_opcode frame' = opcode \<and>
          wf_payload frame' = data)) \<and>
    (\<forall>todo. todo \<noteq> [] \<and> wc_read_buf conn @ d @ todo = frame_bytes fin opcode key data \<longrightarrow>
       (\<exists>conn' frame'. ws_read_frame ro True (Recv d) conn frame = Some (conn', frame', 0) \<and>
          wc_read_buf conn' = wc_read_buf conn @ d \<and> wc_state conn' = WS_STATE_OPEN))"
proof -
  define c where "c = (ws_grow ro conn)\<lparr>wc_read_buf := wc_read_buf conn @ d\<rparr>"
  have g: "wc_read_buf (ws_grow ro conn) = wc_read_buf conn" "wc_state (ws_grow ro conn) = wc_state conn"
    by (simp_all add: ws_grow_def)
  have "wc_read_cap (ws_grow ro conn) - length (wc_read_buf conn) \<noteq> 0" using assms(3,4) by (cases d) auto
  then have r: "ws_read_frame ro True (Recv d) conn frame = ws_parse_frame True c frame"
    using assms(2-4) g by (simp add: ws_read_frame_def Let_def c_def)
  have c: "wc_read_buf c = wc_read_buf conn @ d" "wc_state c = WS_STATE_OPEN"
    using assms(2) by (simp_all add: c_def g)
  show ?thesis
    using ws_send_frame_full [OF assms(2,5,6)] ws_parse_complete [of c fin opcode key data _ frame]
      ws_parse_partial [of c _ fin opcode key data True frame] assms(1) c
    unfolding r by (metis append.assoc)
qed

definition sample_conn :: WsConn where
  "sample_conn = \<lparr>wc_state = WS_STATE_OPEN, wc_client_id = 1, wc_read_buf = [0x81], wc_read_cap = 65536, wc_out = [],
     wc_frames_received = 0, wc_frames_sent = 0, wc_bytes_received = 0, wc_bytes_sent = 0, wc_connected_at_us = 0\<rparr>"

definition sample_frame :: WsFrame where
  "sample_frame = \<lparr>wf_fin = 0, wf_opcode = 0, wf_masked = 0, wf_masking_key = [0, 0, 0, 0], wf_payload_len = 0,
     wf_payload = [], wf_payload_cap = 0\<rparr>"

theorem ws_frame_roundtrip_witness:
  "\<exists>conn' frame'. ws_read_frame False True (Recv [0x82, 1, 2, 3, 4, 0x49, 0x6B, 7]) sample_conn sample_frame = Some (conn', frame', 1) \<and>
     wf_payload frame' = [0x48, 0x69] \<and> wc_read_buf conn' = [7]"
proof -
  have f: "frame_ok 1 (Some [1, 2, 3, 4]) [0x48, 0x69]" by (simp add: frame_ok_def WS_MAX_PAYLOAD_def)
  have b: "wc_read_buf sample_conn @ [0x82, 1, 2, 3, 4, 0x49, 0x6B, 7] = frame_bytes True 1 (Some [1, 2, 3, 4]) [0x48, 0x69] @ [7]"
    by (simp add: sample_conn_def frame_bytes_def len_field_def ws_mask_payload_def)
  have c: "wc_state sample_conn = WS_STATE_OPEN"
    "length (wc_read_buf sample_conn) + length [0x82, 1, 2, 3, 4, 0x49, 0x6B, 7 :: u8] \<le> wc_read_cap (ws_grow False sample_conn)"
    by (simp_all add: sample_conn_def ws_grow_def)
  from ws_frame_roundtrip [OF f c(1) _ c(2), of 20 2, THEN conjunct2, THEN conjunct1, rule_format, OF _ _ _ b, of sample_frame]
  show ?thesis by (simp del: append_Cons) blast
qed

text \<open>A frame that does not fit in the full read buffer is waited for without ever being read.\<close>

lemma ws_read_stall:
  assumes "wc_state conn = WS_STATE_OPEN" "wc_read_cap conn = WS_MAX_PAYLOAD" "length (wc_read_buf conn) = WS_MAX_PAYLOAD"
    and "wc_read_buf conn @ todo = frame_bytes fin opcode key data" "todo \<noteq> []" "frame_ok opcode key data"
  shows "\<exists>frame'. ws_read_frame ro True recv conn frame = Some (conn, frame', 0)"
  using assms ws_parse_partial [OF assms(4-6)] by (simp add: ws_read_frame_def ws_grow_def)

subsection \<open>Handshake\<close>

lemma length_sha1_spec: "length (sha1_spec msg) = 20"
proof -
  have "length (sha1_blocks h bs) = 5" if "length h = 5" for h bs
    using that
  proof (induction h bs rule: sha1_blocks.induct)
    case (1 h bs)
    then show ?case
      by (subst sha1_blocks.simps) (auto simp: sha1_compress_def split: prod.split)
  qed
  then have "length (sha1_blocks [0x67452301, 0xEFCDAB89, 0x98BADCFE, 0x10325476, 0xC3D2E1F0] (sha1_pad msg)) = 5" by simp
  then show ?thesis
    by (simp add: sha1_spec_def be_bytes_def length_concat comp_def sum_list_triv)
qed

lemma ws_accept_key:
  assumes "length (sh_buf ctx) = 64" "length key \<le> 200"
  shows "ws_compute_accept_key ctx key = Some (b64_text (sha1_spec (c_str key @ WS_GUID)))"
proof -
  have "length (c_str key) \<le> 200" using assms(2) length_takeWhile_le [of "\<lambda>b. b \<noteq> 0" key] by (simp add: c_str_def)
  moreover have "length WS_GUID = 36" by (simp add: WS_GUID_def str_def)
  ultimately have t: "take 255 (c_str key @ WS_GUID) = c_str key @ WS_GUID" "length (c_str key @ WS_GUID) < 2 ^ 32" by simp_all
  have "sha1_stream (sha1_init ctx) [] []"
    using assms(1) by (simp add: sha1_stream_def sha1_init_def sha1_holds_def sha1_blocks_short)
  from sha1_stream_update [OF this, of "c_str key @ WS_GUID"] t(2)
  have "sha1_final (sha1_update (sha1_init ctx) (c_str key @ WS_GUID)) = sha1_spec (c_str key @ WS_GUID)"
    using sha1_final_stream by (metis append_Nil length_append)
  then show ?thesis using t(1)
    by (simp add: ws_compute_accept_key_def base64_encode_text length_b64_text length_sha1_spec)
qed

lemma memmem_append: "\<exists>i. memmem (pre @ needle @ rest) needle = Some i"
proof (induction pre)
  case Nil
  have "take (length needle) (needle @ rest) = needle" by simp
  then show ?case by (cases "needle @ rest") (simp_all del: take_append)
next
  case (Cons h pre)
  then show ?case by auto
qed

text \<open>
  C34. The handshake answers as RFC 6455 asks.  For a request with a key header the response carries the
  Base64 text of the SHA-1 hash of the key, cut to 63 bytes, and the protocol GUID: the text decodes to that hash.  The
  connection becomes open exactly when the whole response has been sent, and a request without a
  key header is refused without an answer.
\<close>

theorem ws_handshake_accepts:
  assumes "length (sh_buf ctx) = 64"
  shows "((\<exists>pre post. request = pre @ str ''Sec-WebSocket-Key: '' @ post) \<longrightarrow> ws_client_key request \<noteq> None) \<and>
    (case ws_client_key request of
       None \<Rightarrow> ws_handshake ctx r conn request = (conn, -1)
     | Some key \<Rightarrow> length key \<le> 63 \<and>
         (\<exists>accept conn' res. length accept = 28 \<and> b64_decode accept = Some (sha1_spec (c_str key @ WS_GUID)) \<and>
           ws_handshake ctx r conn request = (conn', res) \<and>
           (int (length (ws_response accept)) \<le> r \<longrightarrow> res = 0 \<and> wc_state conn' = WS_STATE_OPEN \<and>
              wc_out conn' = wc_out conn @ ws_response accept) \<and>
           (r < int (length (ws_response accept)) \<longrightarrow> res = -1 \<and> wc_state conn' = wc_state conn)))"
proof (cases "ws_client_key request")
  case None
  then have "memmem request (str ''Sec-WebSocket-Key: '') = None" by (auto simp: ws_client_key_def Let_def split: if_splits)
  moreover have "memmem (pre @ str ''Sec-WebSocket-Key: '' @ post) (str ''Sec-WebSocket-Key: '') \<noteq> None" for pre post
    using memmem_append [of pre "str ''Sec-WebSocket-Key: ''" post] by auto
  ultimately have "\<not> (\<exists>pre post. request = pre @ str ''Sec-WebSocket-Key: '' @ post)" by metis
  then show ?thesis using None by (simp add: ws_handshake_def)
next
  case (Some key)
  then have l: "length key \<le> 63" by (auto simp: ws_client_key_def Let_def)
  define acc where "acc = b64_text (sha1_spec (c_str key @ WS_GUID))"
  have a: "ws_compute_accept_key ctx key = Some acc" using ws_accept_key [OF assms] l by (simp add: acc_def)
  have d: "length acc = 28" "b64_decode acc = Some (sha1_spec (c_str key @ WS_GUID))"
    by (simp_all add: acc_def b64_decode_text length_b64_text length_sha1_spec)
  have h: "int (length (ws_response acc)) \<le> r \<Longrightarrow> ws_handshake ctx r conn request =
      (conn\<lparr>wc_out := wc_out conn @ ws_response acc, wc_state := WS_STATE_OPEN\<rparr>, 0)"
    using Some a by (simp add: ws_handshake_def Let_def os_write_full)
  have "\<exists>c. ws_handshake ctx r conn request = (c, -1) \<and> wc_state c = wc_state conn" if "r < int (length (ws_response acc))"
  proof -
    have "snd (os_write r (ws_response acc) (wc_out conn)) \<noteq> int (length (ws_response acc))"
      using that by (auto simp: os_write_def Let_def min_def)
    then show ?thesis using Some a by (cases "os_write r (ws_response acc) (wc_out conn)") (simp add: ws_handshake_def Let_def)
  qed
  with h show ?thesis using Some l d
    by (cases "r < int (length (ws_response acc))") (auto intro!: exI [of _ acc])
qed

theorem ws_handshake_accepts_witness:
  "\<exists>accept conn'. b64_decode accept = Some (sha1_spec (str ''dGhl'' @ WS_GUID)) \<and>
     ws_handshake \<lparr>sh_h = [], sh_buf = replicate 64 0, sh_len = 0, sh_total = 0\<rparr> 512
       (sample_conn\<lparr>wc_state := WS_STATE_CONNECTING\<rparr>) (str ''Sec-WebSocket-Key: dGhl'' @ crlf) = (conn', 0) \<and>
     wc_state conn' = WS_STATE_OPEN"
proof -
  have k: "ws_client_key (str ''Sec-WebSocket-Key: dGhl'' @ crlf) = Some (str ''dGhl'')"
    by (simp add: ws_client_key_def str_def crlf_def)
  have c: "c_str (str ''dGhl'') = str ''dGhl''" by (simp add: c_str_def str_def)
  have len: "int (length (ws_response a)) \<le> 512" if "length a = 28" for a
    using that by (simp add: ws_response_def str_def crlf_def)
  from ws_handshake_accepts [of "\<lparr>sh_h = [], sh_buf = replicate 64 0, sh_len = 0, sh_total = 0\<rparr>"
      "str ''Sec-WebSocket-Key: dGhl'' @ crlf" 512 "sample_conn\<lparr>wc_state := WS_STATE_CONNECTING\<rparr>"]
  show ?thesis unfolding k option.case c using len by auto
qed

subsection \<open>The JSON text of responses\<close>

text \<open>A reader of JSON strings: from after the opening quote to after the closing one.\<close>

definition hex_value :: "u8 \<Rightarrow> u8 option" where
  "hex_value ch =
     (if 0x30 \<le> ch \<and> ch \<le> 0x39 then Some (ch - 0x30)
      else if 0x61 \<le> ch \<and> ch \<le> 0x66 then Some (ch - 0x57) else None)"

fun json_read :: "bytes \<Rightarrow> (bytes \<times> bytes) option" where
  "json_read (ch # rest) =
     (if ch = 0x22 then Some ([], rest)
      else if ch = 0x5C then
        (case rest of
           [] \<Rightarrow> None
         | e # rest1 \<Rightarrow>
             if e = 0x22 \<or> e = 0x5C then map_option (apfst ((#) e)) (json_read rest1)
             else if e = 0x6E then map_option (apfst ((#) 0x0A)) (json_read rest1)
             else if e = 0x72 then map_option (apfst ((#) 0x0D)) (json_read rest1)
             else if e = 0x74 then map_option (apfst ((#) 0x09)) (json_read rest1)
             else if e = 0x75 then
               (case rest1 of
                  a # b # h # l # rest2 \<Rightarrow>
                    (case (hex_value h, hex_value l) of
                       (Some x, Some y) \<Rightarrow>
                         if a = 0x30 \<and> b = 0x30 then map_option (apfst ((#) (push_bit 4 x OR y))) (json_read rest2) else None
                     | _ \<Rightarrow> None)
                | _ \<Rightarrow> None)
             else None)
      else if ch < 0x20 then None
      else map_option (apfst ((#) ch)) (json_read rest))"
| "json_read [] = None"

lemma hex_value_digit:
  assumes "p < 0x20"
  shows "hex_value (hex_digit (drop_bit 4 p)) = Some (drop_bit 4 p)" "hex_value (hex_digit (p AND 0x0F)) = Some (p AND 0x0F)"
    "push_bit 4 (drop_bit 4 p) OR (p AND 0x0F) = p"
proof -
  have h: "hex_value (hex_digit d) = Some d" if "d < 16" for d
  proof -
    have "\<forall>k \<in> set [0..<16]. hex_value (hex_digit (of_nat k)) = Some (of_nat k)" by code_simp
    moreover have "unat d \<in> set [0..<16]" using that by (simp add: word_less_nat_alt)
    ultimately have "hex_value (hex_digit (of_nat (unat d))) = Some (of_nat (unat d))" by blast
    then show ?thesis by simp
  qed
  have "p AND 0x0F = take_bit 4 p" by (simp add: take_bit_eq_mask mask_eq_exp_minus_1)
  then have l: "p AND 0x0F < 16" "push_bit 4 (drop_bit 4 p) OR (p AND 0x0F) = p"
    using take_bit_nat_less_exp [of 4 "unat p"]
    by (auto simp: word_less_nat_alt unsigned_take_bit_eq intro!: bit_word_eqI) (auto simp: bit_simps)
  have "drop_bit 4 (unat p) < 16" using assms by (simp add: word_less_nat_alt drop_bit_eq_div)
  then have "drop_bit 4 p < 16" by (simp only: word_less_nat_alt unat_drop_bit_eq) simp
  with h l show "hex_value (hex_digit (drop_bit 4 p)) = Some (drop_bit 4 p)"
    "hex_value (hex_digit (p AND 0x0F)) = Some (p AND 0x0F)" "push_bit 4 (drop_bit 4 p) OR (p AND 0x0F) = p" by blast+
qed

lemma json_read_char: "json_read (json_char p @ rest) = map_option (apfst ((#) p)) (json_read rest)"
  using hex_value_digit [of p] by (auto simp: json_char_def)

lemma json_read_loop:
  "\<exists>n. json_read (json_loop cap k s @ 0x22 # rest) = Some (take n (c_str s), rest) \<and>
     (k + 6 * length (c_str s) < cap \<longrightarrow> n = length (c_str s))"
proof (induction cap k s rule: json_loop.induct)
  case (1 cap k)
  then show ?case by (simp add: c_str_def)
next
  case (2 cap k p ps)
  show ?case
  proof (cases "p \<noteq> 0 \<and> k + 6 < cap")
    case True
    then obtain n where n: "json_read (json_loop cap (k + length (json_char p)) ps @ 0x22 # rest) = Some (take n (c_str ps), rest)"
      "k + length (json_char p) + 6 * length (c_str ps) < cap \<longrightarrow> n = length (c_str ps)" using 2 by blast
    have "length (json_char p) \<le> 6" by (simp add: json_char_def)
    then show ?thesis using True n by (intro exI [of _ "Suc n"]) (auto simp: json_read_char c_str_def)
  next
    case False
    then show ?thesis by (intro exI [of _ 0]) (auto simp: c_str_def)
  qed
qed

lemma length_json_loop: "k < cap \<Longrightarrow> k + length (json_loop cap k s) < cap"
proof (induction cap k s rule: json_loop.induct)
  case (2 cap k p ps)
  have "length (json_char p) \<le> 6" by (simp add: json_char_def)
  then show ?case using 2 by (auto simp: add.assoc)
qed simp

lemma json_escape_read:
  "\<exists>n. json_read (ws_json_escape s cap @ 0x22 # rest) = Some (take n (case s of None \<Rightarrow> [] | Some t \<Rightarrow> c_str t), rest) \<and>
     (6 * length (case s of None \<Rightarrow> [] | Some t \<Rightarrow> c_str t) < cap \<longrightarrow> n = length (case s of None \<Rightarrow> [] | Some t \<Rightarrow> c_str t))"
  using json_read_loop [of cap 0 _ rest] by (cases s) (simp_all add: ws_json_escape_def)

lemma length_json_escape: "0 < cap \<Longrightarrow> length (ws_json_escape s cap) < cap"
  using length_json_loop [of 0 cap] by (auto simp: ws_json_escape_def split: option.split)

text \<open>A text that consists of the prefix and the two strings \<open>a\<close> and \<open>b\<close>, the second one being the id.\<close>

definition json_response :: "bytes \<Rightarrow> bytes \<Rightarrow> bytes \<Rightarrow> bytes \<Rightarrow> bool" where
  "json_response pre a b text \<longleftrightarrow> (\<exists>t u. text = pre @ t \<and> json_read t = Some (a, str '',\"id\":\"'' @ u) \<and>
     json_read u = Some (b, str ''}''))"

lemma json_responseI:
  assumes "text = pre @ ws_json_escape (Some x) 2048 @ str ''\",\"id\":\"'' @ ws_json_escape y 2048 @ str ''\"}''"
  shows "\<exists>m n. json_response pre (take m (c_str x)) (take n (case y of None \<Rightarrow> [] | Some t \<Rightarrow> c_str t)) text \<and>
    (6 * length (c_str x) < 2048 \<longrightarrow> m = length (c_str x))"
proof -
  have q: "str ''\",\"id\":\"'' = 0x22 # str '',\"id\":\"''" "str ''\"}'' = 0x22 # str ''}''" by (simp_all add: str_def)
  let ?u = "ws_json_escape y 2048 @ 0x22 # str ''}''"
  obtain m where m: "json_read (ws_json_escape (Some x) 2048 @ 0x22 # str '',\"id\":\"'' @ ?u) = Some (take m (c_str x), str '',\"id\":\"'' @ ?u)"
    "6 * length (c_str x) < 2048 \<longrightarrow> m = length (c_str x)"
    using json_escape_read [of "Some x" 2048 "str '',\"id\":\"'' @ ?u"] by auto
  obtain n where "json_read ?u = Some (take n (case y of None \<Rightarrow> [] | Some t \<Rightarrow> c_str t), str ''}'')"
    using json_escape_read [of y 2048 "str ''}''"] by auto
  with m show ?thesis unfolding json_response_def assms q by (intro exI [of _ m] exI [of _ n] conjI) auto
qed



text \<open>A close frame is never sent: the state has already left \<open>WS_STATE_OPEN\<close> when the frame is to be written.\<close>

lemma ws_send_close_fails:
  "ws_send_close r1 r2 conn code reason = (conn\<lparr>wc_state := WS_STATE_CLOSING\<rparr>, -1)"
  by (simp add: ws_send_close_def ws_send_frame_def)

end
