(* ===== verification/Nex_Flash.thy ===== *)
theory Nex_Flash
  imports Nex_Prelude
begin

text \<open>
  The flash store of \<open>flash/flash.c\<close>: an append-only file of records, an index in memory from key hashes
  to file offsets with a heat score, and the co-access graph for prefetching.  The file is its
  contents; the outcomes of \<open>pwrite\<close>, \<open>pread\<close>, \<open>open\<close> and \<open>realloc\<close> and the clock are arguments, and
  \<open>junk\<close> is what a buffer holds where a read at the end of the file does not fill it.  The lock is
  not modelled; \<open>flash_prefetch\<close> drops it around its callback.
\<close>

subsection \<open>Records and files\<close>

record FlashRecord =
  fr_key_hash :: u64
  fr_key_len :: u32
  fr_value_len :: u32
  fr_expire_unix :: u32
  fr_compressed :: u8

text \<open>The 24 bytes of the structure, with its three bytes of padding.\<close>

definition flash_image :: "FlashRecord \<Rightarrow> bytes" where
  "flash_image h = le_enc 8 (fr_key_hash h) @ le_enc 4 (fr_key_len h) @ le_enc 4 (fr_value_len h) @
     le_enc 4 (fr_expire_unix h) @ [fr_compressed h, 0, 0, 0]"

definition flash_of_image :: "bytes \<Rightarrow> FlashRecord" where
  "flash_of_image bs = \<lparr>fr_key_hash = le_dec (buf_read bs 0 8), fr_key_len = le_dec (buf_read bs 8 4),
     fr_value_len = le_dec (buf_read bs 12 4), fr_expire_unix = le_dec (buf_read bs 16 4), fr_compressed = bs ! 20\<rparr>"

text \<open>Writing at an offset; a gap behind the end of the file reads as zeros.\<close>

definition file_write :: "bytes \<Rightarrow> nat \<Rightarrow> bytes \<Rightarrow> bytes" where
  "file_write f off xs = buf_write (f @ replicate (off - length f) 0) off xs"

definition os_pwrite :: "int \<Rightarrow> bytes \<Rightarrow> nat \<Rightarrow> bytes \<Rightarrow> bytes \<times> int" where
  "os_pwrite r buf off f =
     (if r < 0 then (f, -1)
      else let n = min (nat r) (length buf) in (if n = 0 then f else file_write f off (take n buf), int n))"

definition os_pread :: "(nat \<Rightarrow> u8) \<Rightarrow> bytes \<Rightarrow> nat \<Rightarrow> nat \<Rightarrow> bytes" where
  "os_pread junk f off n = (let bs = buf_read f off n in bs @ map junk [length bs..<n])"

subsection \<open>State\<close>

record FlashIndex =
  fi_key_hash :: u64
  fi_file_offset :: u64
  fi_record_size :: u32
  fi_heat :: u8

record CoAccessEdge =
  ce_key_hash_a :: u64
  ce_key_hash_b :: u64
  ce_co_access_count :: u32
  ce_total_a_count :: u32

record FlashStats =
  fst_reads :: u64
  fst_writes :: u64
  fst_evictions :: u64
  fst_prefetches :: u64
  fst_bytes_written :: u64
  fst_bytes_read :: u64
  fst_cooling_ops :: u64

record FlashConfig =
  fc_max_size_bytes :: u64
  fc_prefetch_enabled :: bool
  fc_cooling_interval_ms :: u32
  fc_heat_cold_thresh :: u8
  fc_heat_hot_thresh :: u8

record FlashStorage =
  fs_file :: bytes
  fs_config :: FlashConfig
  fs_index :: "FlashIndex list"
  fs_index_cap :: u32
  fs_co_graph :: "CoAccessEdge list"
  fs_co_cap :: nat
  fs_running :: bool
  fs_stats :: FlashStats
  fs_file_size :: u64
  fs_write_offset :: u64

definition FLASH_HEAT_COLD_THRESH :: u8 where "FLASH_HEAT_COLD_THRESH = 15"

definition FLASH_HEAT_HOT_THRESH :: u8 where "FLASH_HEAT_HOT_THRESH = 200"

definition FLASH_CO_ACCESS_MAX :: nat where "FLASH_CO_ACCESS_MAX = 1024"

definition flash_create :: "bool \<Rightarrow> bytes \<Rightarrow> FlashConfig \<Rightarrow> FlashStorage option" where
  "flash_create open_ok file cfg =
     (let cfg1 = cfg\<lparr>fc_cooling_interval_ms := (if fc_cooling_interval_ms cfg = 0 then 5000 else fc_cooling_interval_ms cfg),
                    fc_heat_cold_thresh := (if fc_heat_cold_thresh cfg = 0 then FLASH_HEAT_COLD_THRESH else fc_heat_cold_thresh cfg),
                    fc_heat_hot_thresh := (if fc_heat_hot_thresh cfg = 0 then FLASH_HEAT_HOT_THRESH else fc_heat_hot_thresh cfg)\<rparr>
      in if \<not> open_ok then None
         else Some \<lparr>fs_file = file, fs_config = cfg1, fs_index = [], fs_index_cap = 4096, fs_co_graph = [],
                fs_co_cap = FLASH_CO_ACCESS_MAX, fs_running = True,
                fs_stats = \<lparr>fst_reads = 0, fst_writes = 0, fst_evictions = 0, fst_prefetches = 0, fst_bytes_written = 0,
                             fst_bytes_read = 0, fst_cooling_ops = 0\<rparr>,
                fs_file_size = 0, fs_write_offset = 0\<rparr>)"

text \<open>One round of the cooling thread.\<close>

definition flash_cool :: "FlashStorage \<Rightarrow> FlashStorage" where
  "flash_cool fs =
     fs\<lparr>fs_index := map (\<lambda>i. if fi_heat i > 0 then i\<lparr>fi_heat := fi_heat i - 1\<rparr> else i) (fs_index fs),
        fs_stats := (fs_stats fs)\<lparr>fst_cooling_ops := fst_cooling_ops (fs_stats fs) +
                                    of_nat (length (filter (\<lambda>i. fi_heat i > 0) (fs_index fs)))\<rparr>\<rparr>"

subsection \<open>Operations\<close>

definition flash_add_index :: "bool \<Rightarrow> FlashIndex \<Rightarrow> FlashStorage \<Rightarrow> FlashStorage" where
  "flash_add_index realloc_ok idx fs =
     (let fs1 = (if of_nat (length (fs_index fs)) \<ge> fs_index_cap fs \<and> realloc_ok
                 then fs\<lparr>fs_index_cap := fs_index_cap fs * 2\<rparr> else fs)
      in if of_nat (length (fs_index fs1)) < fs_index_cap fs1 then fs1\<lparr>fs_index := fs_index fs1 @ [idx]\<rparr> else fs1)"

definition flash_write ::
    "int \<Rightarrow> int \<Rightarrow> int \<Rightarrow> bool \<Rightarrow> FlashStorage \<Rightarrow> u64 \<Rightarrow> bytes option \<Rightarrow> bytes option \<Rightarrow> u32 \<Rightarrow> FlashStorage \<times> int" where
  "flash_write w1 w2 w3 realloc_ok fs key_hash key value expire_unix =
     (case (key, value) of
        (Some k, Some v) \<Rightarrow>
          let key_len = of_nat (length k) :: u32; value_len = of_nat (length v) :: u32; max_size = fc_max_size_bytes (fs_config fs)
          in if max_size > 0 \<and> fs_write_offset fs + 24 + ucast key_len + ucast value_len > max_size then (fs, -1)
             else
               let hdr = \<lparr>fr_key_hash = key_hash, fr_key_len = key_len, fr_value_len = value_len,
                          fr_expire_unix = expire_unix, fr_compressed = 0\<rparr>;
                   offset = unat (fs_write_offset fs);
                   (f1, a) = os_pwrite w1 (flash_image hdr) offset (fs_file fs);
                   (f2, b) = (if a < 0 then (f1, a) else os_pwrite w2 k (offset + 24) f1);
                   (f3, c) = (if b < 0 then (f2, b) else os_pwrite w3 v (offset + 24 + length k) f2)
               in if c < 0 then (fs\<lparr>fs_file := f3\<rparr>, -1)
                  else
                    let total_size = 24 + key_len + value_len;
                        fs1 = fs\<lparr>fs_file := f3, fs_write_offset := fs_write_offset fs + ucast total_size,
                                 fs_file_size := fs_file_size fs + ucast total_size\<rparr>;
                        fs2 = flash_add_index realloc_ok \<lparr>fi_key_hash = key_hash, fi_file_offset = fs_write_offset fs,
                                 fi_record_size = total_size, fi_heat = fc_heat_cold_thresh (fs_config fs)\<rparr> fs1;
                        st = fs_stats fs2
                    in (fs2\<lparr>fs_stats := st\<lparr>fst_writes := fst_writes st + 1, fst_bytes_written := fst_bytes_written st + ucast value_len,
                                             fst_evictions := fst_evictions st + 1\<rparr>\<rparr>, 0)
      | _ \<Rightarrow> (fs, -1))"

datatype flash_result = FlashMiss | FlashSmall u32 | FlashHit bytes

definition flash_find :: "FlashStorage \<Rightarrow> u64 \<Rightarrow> nat option" where
  "flash_find fs key_hash = find_index (\<lambda>i. fi_key_hash i = key_hash) (fs_index fs)"

definition flash_header :: "(nat \<Rightarrow> u8) \<Rightarrow> FlashStorage \<Rightarrow> nat \<Rightarrow> FlashRecord" where
  "flash_header junk fs i = flash_of_image (os_pread junk (fs_file fs) (unat (fi_file_offset (fs_index fs ! i))) 24)"

definition flash_expired :: "u32 \<Rightarrow> FlashRecord \<Rightarrow> bool" where
  "flash_expired now hdr \<longleftrightarrow> fr_expire_unix hdr > 0 \<and> fr_expire_unix hdr \<le> now"

definition flash_value :: "(nat \<Rightarrow> u8) \<Rightarrow> FlashStorage \<Rightarrow> nat \<Rightarrow> FlashRecord \<Rightarrow> bytes" where
  "flash_value junk fs i hdr = os_pread junk (fs_file fs) (unat (fi_file_offset (fs_index fs ! i)) + 24 + unat (fr_key_len hdr))
     (unat (fr_value_len hdr))"

definition flash_count_read :: "FlashStorage \<Rightarrow> FlashStorage" where
  "flash_count_read fs = fs\<lparr>fs_stats := (fs_stats fs)\<lparr>fst_reads := fst_reads (fs_stats fs) + 1\<rparr>\<rparr>"

text \<open>\<open>rd1\<close> and \<open>rd2\<close> say whether the two reads succeed.\<close>

definition flash_read ::
    "(nat \<Rightarrow> u8) \<Rightarrow> bool \<Rightarrow> bool \<Rightarrow> u32 \<Rightarrow> FlashStorage \<Rightarrow> u64 \<Rightarrow> u32 \<Rightarrow> FlashStorage \<times> flash_result" where
  "flash_read junk rd1 rd2 now fs key_hash buf_len =
     (case flash_find fs key_hash of
        None \<Rightarrow> (flash_count_read fs, FlashMiss)
      | Some i \<Rightarrow>
          if \<not> rd1 then (flash_count_read fs, FlashMiss)
          else
            let hdr = flash_header junk fs i in
            if flash_expired now hdr then (fs\<lparr>fs_index := swap_remove i (fs_index fs)\<rparr>, FlashMiss)
            else if fr_value_len hdr > buf_len then (fs, FlashSmall (fr_value_len hdr))
            else if \<not> rd2 then (flash_count_read fs, FlashMiss)
            else
              let idx = fs_index fs ! i;
                  fs1 = (if fi_heat idx < 255 then fs\<lparr>fs_index := (fs_index fs)[i := idx\<lparr>fi_heat := fi_heat idx + 1\<rparr>]\<rparr> else fs);
                  st = fs_stats fs1
              in (fs1\<lparr>fs_stats := st\<lparr>fst_reads := fst_reads st + 1, fst_bytes_read := fst_bytes_read st + ucast (fr_value_len hdr)\<rparr>\<rparr>,
                  FlashHit (flash_value junk fs i hdr)))"

definition flash_delete :: "FlashStorage \<Rightarrow> u64 \<Rightarrow> FlashStorage \<times> int" where
  "flash_delete fs key_hash =
     (case flash_find fs key_hash of
        None \<Rightarrow> (fs, 0)
      | Some i \<Rightarrow> (fs\<lparr>fs_index := swap_remove i (fs_index fs)\<rparr>, 1))"

definition flash_expire :: "bool \<Rightarrow> int \<Rightarrow> FlashStorage \<Rightarrow> u64 \<Rightarrow> u32 \<Rightarrow> FlashStorage \<times> int" where
  "flash_expire rd w fs key_hash expire_unix =
     (case flash_find fs key_hash of
        None \<Rightarrow> (fs, 0)
      | Some i \<Rightarrow>
          let off = unat (fi_file_offset (fs_index fs ! i)); bs = buf_read (fs_file fs) off 24
          in if rd \<and> length bs = 24
             then let (f, n) = os_pwrite w (flash_image ((flash_of_image bs)\<lparr>fr_expire_unix := expire_unix\<rparr>)) off (fs_file fs)
                  in (fs\<lparr>fs_file := f\<rparr>, if n = 24 then 1 else 0)
             else (fs, 0))"

definition flash_ttl :: "bool \<Rightarrow> u32 \<Rightarrow> FlashStorage \<Rightarrow> u64 \<Rightarrow> int" where
  "flash_ttl rd now fs key_hash =
     (case flash_find fs key_hash of
        None \<Rightarrow> -2
      | Some i \<Rightarrow>
          let bs = buf_read (fs_file fs) (unat (fi_file_offset (fs_index fs ! i))) 24; hdr = flash_of_image bs
          in if rd \<and> length bs = 24
             then if fr_expire_unix hdr = 0 then -1
                  else let ttl_s = int (unat (fr_expire_unix hdr)) - int (unat now) in if ttl_s > 0 then ttl_s * 1000 else 0
             else -2)"

definition flash_flush :: "bool \<Rightarrow> FlashStorage \<Rightarrow> FlashStorage" where
  "flash_flush truncate_ok fs =
     fs\<lparr>fs_index := [], fs_write_offset := 0, fs_file_size := 0, fs_file := (if truncate_ok then [] else fs_file fs),
        fs_stats := (fs_stats fs)\<lparr>fst_evictions := 0, fst_bytes_written := 0\<rparr>\<rparr>"

subsection \<open>Co-access\<close>

text \<open>The probability is the quotient of the two counters.\<close>

definition flash_record_access :: "FlashStorage \<Rightarrow> u64 \<Rightarrow> u64 \<Rightarrow> FlashStorage" where
  "flash_record_access fs key_a key_b =
     (if key_a = 0 \<or> key_b = 0 \<or> key_a = key_b then fs
      else case find_index (\<lambda>e. ce_key_hash_a e = key_a \<and> ce_key_hash_b e = key_b) (fs_co_graph fs) of
        Some i \<Rightarrow>
          let e = fs_co_graph fs ! i
          in fs\<lparr>fs_co_graph := (fs_co_graph fs)[i := e\<lparr>ce_co_access_count := ce_co_access_count e + 1,
                                                       ce_total_a_count := ce_total_a_count e + 1\<rparr>]\<rparr>
      | None \<Rightarrow>
          if length (fs_co_graph fs) < fs_co_cap fs
          then fs\<lparr>fs_co_graph := fs_co_graph fs @ [\<lparr>ce_key_hash_a = key_a, ce_key_hash_b = key_b,
                     ce_co_access_count = 1, ce_total_a_count = 1\<rparr>]\<rparr>
          else fs)"

definition flash_should_promote :: "FlashStorage \<Rightarrow> u64 \<Rightarrow> bool" where
  "flash_should_promote fs key_hash =
     (case flash_find fs key_hash of
        None \<Rightarrow> False
      | Some i \<Rightarrow> fi_heat (fs_index fs ! i) \<ge> fc_heat_hot_thresh (fs_config fs))"

definition flash_unlikely :: "CoAccessEdge \<Rightarrow> bool" where
  "flash_unlikely e \<longleftrightarrow> 10 * unat (ce_co_access_count e) < 7 * unat (ce_total_a_count e)"

text \<open>
  Prefetching: the calls of the callback, in order.  \<open>ok j\<close> says that the reads and the allocation for
  the edge \<open>j\<close> succeed.
\<close>

definition flash_prefetch_edge ::
    "(nat \<Rightarrow> u8) \<Rightarrow> (nat \<Rightarrow> bool) \<Rightarrow> u64 \<Rightarrow> FlashStorage \<Rightarrow> nat \<Rightarrow> (u64 \<times> bytes) list" where
  "flash_prefetch_edge junk ok trigger fs j =
     (let e = fs_co_graph fs ! j in
      if ce_key_hash_a e \<noteq> trigger \<or> flash_unlikely e then []
      else case flash_find fs (ce_key_hash_b e) of
        None \<Rightarrow> []
      | Some i \<Rightarrow> if ok j then [(ce_key_hash_b e, flash_value junk fs i (flash_header junk fs i))] else [])"

definition flash_prefetch ::
    "(nat \<Rightarrow> u8) \<Rightarrow> (nat \<Rightarrow> bool) \<Rightarrow> FlashStorage \<Rightarrow> u64 \<Rightarrow> FlashStorage \<times> (u64 \<times> bytes) list" where
  "flash_prefetch junk ok fs trigger =
     (if \<not> fc_prefetch_enabled (fs_config fs) then (fs, [])
      else let calls = concat (map (flash_prefetch_edge junk ok trigger fs) [0..<length (fs_co_graph fs)])
           in (fs\<lparr>fs_stats := (fs_stats fs)\<lparr>fst_prefetches := fst_prefetches (fs_stats fs) + of_nat (length calls)\<rparr>\<rparr>, calls))"

definition flash_get_stats :: "FlashStorage \<Rightarrow> FlashStats" where
  "flash_get_stats fs = fs_stats fs"

subsection \<open>What the store holds\<close>

lemma length_flash_image [simp]: "length (flash_image h) = 24"
  by (simp add: flash_image_def)

lemma flash_image_roundtrip [simp]: "flash_of_image (flash_image h) = h"
  by (simp add: flash_of_image_def flash_image_def buf_read_def nth_append)

definition idx_header :: "bytes \<Rightarrow> FlashIndex \<Rightarrow> FlashRecord" where
  "idx_header f idx = flash_of_image (buf_read f (unat (fi_file_offset idx)) 24)"

definition idx_value :: "bytes \<Rightarrow> FlashIndex \<Rightarrow> bytes" where
  "idx_value f idx = buf_read f (unat (fi_file_offset idx) + 24 + unat (fr_key_len (idx_header f idx))) (unat (fr_value_len (idx_header f idx)))"

definition idx_end :: "bytes \<Rightarrow> FlashIndex \<Rightarrow> nat" where
  "idx_end f idx = unat (fi_file_offset idx) + 24 + unat (fr_key_len (idx_header f idx)) + unat (fr_value_len (idx_header f idx))"

text \<open>Every indexed record lies completely below the write offset.\<close>

definition fs_inv :: "FlashStorage \<Rightarrow> bool" where
  "fs_inv fs \<longleftrightarrow> unat (fs_write_offset fs) \<le> length (fs_file fs) \<and>
     (\<forall>idx \<in> set (fs_index fs). idx_end (fs_file fs) idx \<le> unat (fs_write_offset fs))"

definition flash_lookup :: "FlashStorage \<Rightarrow> u64 \<Rightarrow> (u32 \<times> bytes) option" where
  "flash_lookup fs h = map_option (\<lambda>i. (fr_expire_unix (idx_header (fs_file fs) (fs_index fs ! i)), idx_value (fs_file fs) (fs_index fs ! i)))
     (flash_find fs h)"

lemma os_pread_full: "off + n \<le> length f \<Longrightarrow> os_pread junk f off n = buf_read f off n"
  by (simp add: os_pread_def length_buf_read Let_def)

lemma flash_find_in: "flash_find fs h = Some i \<Longrightarrow> fs_index fs ! i \<in> set (fs_index fs)"
  unfolding flash_find_def by (drule find_index_SomeD) simp

lemma flash_read_view:
  assumes "fs_inv fs"
  shows "snd (flash_read junk True True now fs h n) = (case flash_lookup fs h of
      None \<Rightarrow> FlashMiss
    | Some (e, v) \<Rightarrow> if e > 0 \<and> e \<le> now then FlashMiss else if unat n < length v then FlashSmall (of_nat (length v)) else FlashHit v)"
proof (cases "flash_find fs h")
  case None
  then show ?thesis by (simp add: flash_read_def flash_lookup_def)
next
  case (Some i)
  let ?x = "fs_index fs ! i"
  have e: "idx_end (fs_file fs) ?x \<le> length (fs_file fs)"
    using assms flash_find_in [OF Some] by (fastforce simp: fs_inv_def)
  then have h: "flash_header junk fs i = idx_header (fs_file fs) ?x"
    by (simp add: flash_header_def idx_header_def idx_end_def os_pread_full)
  have v: "flash_value junk fs i (idx_header (fs_file fs) ?x) = idx_value (fs_file fs) ?x"
    using e by (simp add: flash_value_def idx_value_def idx_end_def os_pread_full)
  have l: "length (idx_value (fs_file fs) ?x) = unat (fr_value_len (idx_header (fs_file fs) ?x))"
    using e by (simp add: idx_value_def idx_end_def length_buf_read)
  show ?thesis using Some
    by (simp add: flash_read_def flash_lookup_def Let_def h v l flash_expired_def word_less_nat_alt)
qed

subsection \<open>Writing\<close>

lemma file_write_inside: "off \<le> length f \<Longrightarrow> file_write f off xs = buf_write f off xs"
  by (simp add: file_write_def)

lemma file_write_two:
  assumes "off \<le> length f"
  shows "file_write (file_write f off xs) (off + length xs) ys = file_write f off (xs @ ys)"
proof -
  have "off + length xs \<le> length (file_write f off xs)" using assms by (simp add: file_write_inside buf_write_def)
  then have "file_write (file_write f off xs) (off + length xs) ys = buf_write (buf_write f off xs) (off + length xs) ys"
    using assms by (simp add: file_write_inside)
  also have "\<dots> = buf_write f off (xs @ ys)" using assms by (simp add: buf_write_def ac_simps)
  finally show ?thesis using assms by (simp add: file_write_inside)
qed

lemma length_file_write: "off \<le> length f \<Longrightarrow> off + length xs \<le> length (file_write f off xs)"
  by (simp add: file_write_inside buf_write_def)

lemma os_pwrite_full:
  "int (length buf) \<le> r \<Longrightarrow> off \<le> length f \<Longrightarrow> os_pwrite r buf off f = (file_write f off buf, int (length buf))"
  by (cases "buf = []") (auto simp: os_pwrite_def Let_def min_absorb2 le_nat_iff file_write_inside buf_write_def)

definition flash_fits :: "FlashStorage \<Rightarrow> nat \<Rightarrow> bool" where
  "flash_fits fs n \<longleftrightarrow> n < 2 ^ 32 \<and> unat (fs_write_offset fs) + n < 2 ^ 64 \<and>
     (fc_max_size_bytes (fs_config fs) = 0 \<or> unat (fs_write_offset fs) + n \<le> unat (fc_max_size_bytes (fs_config fs))) \<and>
     Suc (length (fs_index fs)) < 2 ^ 31 \<and> length (fs_index fs) \<le> unat (fs_index_cap fs) \<and> 0 < unat (fs_index_cap fs) \<and>
     unat (fs_index_cap fs) < 2 ^ 31"

lemma flash_add_index_room:
  assumes "flash_fits fs n" "ro"
  shows "\<exists>cap. flash_add_index ro idx (fs\<lparr>fs_file := f, fs_write_offset := w, fs_file_size := z\<rparr>) =
    fs\<lparr>fs_file := f, fs_write_offset := w, fs_file_size := z, fs_index_cap := cap, fs_index := fs_index fs @ [idx]\<rparr>"
proof -
  have l: "unat (of_nat (length (fs_index fs)) :: u32) = length (fs_index fs)"
    using assms(1) by (intro unat_of_nat_eq) (simp add: flash_fits_def)
  have c: "unat (fs_index_cap fs * 2) = unat (fs_index_cap fs) * 2"
    using assms(1) by (simp add: flash_fits_def unat_word_ariths)
  show ?thesis using assms
    by (auto simp: flash_add_index_def Let_def word_le_nat_alt word_less_nat_alt l c flash_fits_def
        intro: exI [of _ "fs_index_cap fs"] exI [of _ "fs_index_cap fs * 2"])
qed

lemma flash_write_full:
  assumes inv: "fs_inv fs" and fits: "flash_fits fs (24 + length k + length v)" and ro: "ro"
    and w: "24 \<le> w1" "int (length k) \<le> w2" "int (length v) \<le> w3"
    and hdr: "hdr = \<lparr>fr_key_hash = h, fr_key_len = of_nat (length k), fr_value_len = of_nat (length v), fr_expire_unix = e, fr_compressed = 0\<rparr>"
  shows "\<exists>fs'. flash_write w1 w2 w3 ro fs h (Some k) (Some v) e = (fs', 0) \<and>
    fs_file fs' = file_write (fs_file fs) (unat (fs_write_offset fs)) (flash_image hdr @ k @ v) \<and>
    unat (fs_write_offset fs') = unat (fs_write_offset fs) + (24 + length k + length v) \<and>
    (\<exists>z heat. fs_index fs' = fs_index fs @ [\<lparr>fi_key_hash = h, fi_file_offset = fs_write_offset fs, fi_record_size = z, fi_heat = heat\<rparr>])"
proof -
  let ?off = "unat (fs_write_offset fs)"
  have n: "unat (of_nat (length k) :: u32) = length k" "unat (of_nat (length v) :: u32) = length v"
    using fits by (auto simp: flash_fits_def intro!: unat_of_nat_eq)
  have t: "unat (24 + of_nat (length k) + of_nat (length v) :: u32) = 24 + length k + length v"
    using fits n by (simp add: flash_fits_def unat_word_ariths)
  have o: "?off \<le> length (fs_file fs)" using inv by (simp add: fs_inv_def)
  have s: "unat (fs_write_offset fs + 24 + ucast (of_nat (length k) :: u32) + ucast (of_nat (length v) :: u32)) = ?off + (24 + length k + length v)"
    using fits n by (simp add: flash_fits_def unat_word_ariths unat_ucast)
  have guard: "\<not> (0 < fc_max_size_bytes (fs_config fs) \<and>
      fc_max_size_bytes (fs_config fs) < fs_write_offset fs + 24 + ucast (of_nat (length k) :: u32) + ucast (of_nat (length v) :: u32))"
    using fits s by (auto simp: flash_fits_def word_less_nat_alt)
  have wo: "unat (fs_write_offset fs + ucast (24 + of_nat (length k) + of_nat (length v) :: u32)) = ?off + (24 + length k + length v)"
    using fits t by (simp add: flash_fits_def unat_word_ariths unat_ucast)
  have p1: "os_pwrite w1 (flash_image hdr) ?off (fs_file fs) = (file_write (fs_file fs) ?off (flash_image hdr), 24)"
    using os_pwrite_full [of "flash_image hdr" w1 ?off "fs_file fs"] w(1) o by simp
  let ?f1 = "file_write (fs_file fs) ?off (flash_image hdr)"
  have l1: "?off + 24 \<le> length ?f1" using length_file_write [OF o, of "flash_image hdr"] by simp
  have p2: "os_pwrite w2 k (?off + 24) ?f1 = (file_write (fs_file fs) ?off (flash_image hdr @ k), int (length k))"
    using os_pwrite_full [OF w(2) l1] file_write_two [OF o, of "flash_image hdr" k] by simp
  let ?f2 = "file_write (fs_file fs) ?off (flash_image hdr @ k)"
  have l2: "?off + 24 + length k \<le> length ?f2" using length_file_write [OF o, of "flash_image hdr @ k"] by simp
  have p3: "os_pwrite w3 v (?off + 24 + length k) ?f2 = (file_write (fs_file fs) ?off (flash_image hdr @ k @ v), int (length v))"
    using os_pwrite_full [OF w(3) l2] file_write_two [OF o, of "flash_image hdr @ k" v] by (simp add: add.assoc)
  let ?idx = "\<lparr>fi_key_hash = h, fi_file_offset = fs_write_offset fs,
     fi_record_size = 24 + of_nat (length k) + of_nat (length v), fi_heat = fc_heat_cold_thresh (fs_config fs)\<rparr>"
  obtain cap where a: "flash_add_index ro ?idx
      (fs\<lparr>fs_file := file_write (fs_file fs) ?off (flash_image hdr @ k @ v),
         fs_write_offset := fs_write_offset fs + ucast (24 + of_nat (length k) + of_nat (length v) :: u32),
         fs_file_size := fs_file_size fs + ucast (24 + of_nat (length k) + of_nat (length v) :: u32)\<rparr>) =
      fs\<lparr>fs_file := file_write (fs_file fs) ?off (flash_image hdr @ k @ v),
         fs_write_offset := fs_write_offset fs + ucast (24 + of_nat (length k) + of_nat (length v) :: u32),
         fs_file_size := fs_file_size fs + ucast (24 + of_nat (length k) + of_nat (length v) :: u32),
         fs_index_cap := cap, fs_index := fs_index fs @ [?idx]\<rparr>"
    using flash_add_index_room [OF fits ro] by blast
  show ?thesis using guard wo unfolding flash_write_def
    by (simp add: Let_def hdr [symmetric] p1 p2 p3 a del: de_Morgan_conj)
qed

text \<open>Bytes below the write offset are not touched, so the records there are read as before.\<close>

lemma idx_below_append:
  assumes "off \<le> length f" "idx_end f idx \<le> off"
  shows "idx_header (file_write f off xs) idx = idx_header f idx" "idx_value (file_write f off xs) idx = idx_value f idx"
    "idx_end (file_write f off xs) idx = idx_end f idx"
proof -
  have b: "buf_read (file_write f off xs) a n = buf_read f a n" if "a + n \<le> off" for a n
  proof -
    have p: "take n (drop a (take off f @ ys)) = take n (drop a f)" for ys
    proof -
      have "take n (take (off - a) (drop a f)) = take n (drop a f)" using that by (subst take_take) (simp add: min_absorb1)
      then show ?thesis using that assms(1) by (simp add: drop_take)
    qed
    show ?thesis using assms(1) p by (simp only: file_write_inside buf_write_def buf_read_def append_assoc)
  qed
  show h: "idx_header (file_write f off xs) idx = idx_header f idx"
    using assms(2) by (simp add: idx_header_def b idx_end_def)
  show "idx_value (file_write f off xs) idx = idx_value f idx"
    using assms(2) by (simp add: idx_value_def h b idx_end_def)
  show "idx_end (file_write f off xs) idx = idx_end f idx" by (simp add: idx_end_def h)
qed

lemma idx_appended:
  assumes "off \<le> length f" "unat (fi_file_offset idx) = off"
    "unat (fr_key_len hdr) = length k" "unat (fr_value_len hdr) = length v"
  defines "f' \<equiv> file_write f off (flash_image hdr @ k @ v)"
  shows "idx_header f' idx = hdr" "idx_value f' idx = v" "idx_end f' idx = off + (24 + length k + length v)"
proof -
  have f': "f' = take off f @ flash_image hdr @ k @ v @ drop (off + (24 + length k + length v)) f"
    using assms(1) by (simp add: f'_def file_write_inside buf_write_def add.assoc)
  show h: "idx_header f' idx = hdr"
    using assms(1,2) by (simp add: idx_header_def f' buf_read_def)
  show "idx_value f' idx = v" using assms(1-4) unfolding idx_value_def h by (simp add: f' buf_read_def)
  show "idx_end f' idx = off + (24 + length k + length v)" using assms(2-4) by (simp add: idx_end_def h)
qed

lemma find_index_snoc:
  "find_index P (xs @ [x]) = (case find_index P xs of Some i \<Rightarrow> Some i | None \<Rightarrow> if P x then Some (length xs) else None)"
  by (induction xs) (auto split: option.splits)

text \<open>
  C36. Writing a record, with a file system that writes everything it is given and room in the store:
  the call reports success, keeps the layout of the file, and a later read of any hash returns what it
  returned before, except that a hash that was not yet indexed now returns the new value and expiry.  A
  second write of a hash that is already indexed is reported as stored, but the reads keep returning the
  first record.
\<close>

theorem flash_write_read:
  assumes inv: "fs_inv fs" and fits: "flash_fits fs (24 + length k + length v)"
    and w: "24 \<le> w1" "int (length k) \<le> w2" "int (length v) \<le> w3"
  shows "\<exists>fs'. flash_write w1 w2 w3 True fs h (Some k) (Some v) e = (fs', 0) \<and> fs_inv fs' \<and>
    (\<forall>h' junk now n. snd (flash_read junk True True now fs' h' n) =
       (case (if h' = h \<and> flash_lookup fs h = None then Some (e, v) else flash_lookup fs h') of
          None \<Rightarrow> FlashMiss
        | Some (x, u) \<Rightarrow> if x > 0 \<and> x \<le> now then FlashMiss
                       else if unat n < length u then FlashSmall (of_nat (length u)) else FlashHit u))"
proof -
  define hdr where "hdr = \<lparr>fr_key_hash = h, fr_key_len = of_nat (length k), fr_value_len = of_nat (length v),
    fr_expire_unix = e, fr_compressed = 0\<rparr>"
  let ?off = "unat (fs_write_offset fs)"
  obtain fs' z heat where fw: "flash_write w1 w2 w3 True fs h (Some k) (Some v) e = (fs', 0)"
    and fl: "fs_file fs' = file_write (fs_file fs) ?off (flash_image hdr @ k @ v)"
    and wo: "unat (fs_write_offset fs') = ?off + (24 + length k + length v)"
    and ix: "fs_index fs' = fs_index fs @ [\<lparr>fi_key_hash = h, fi_file_offset = fs_write_offset fs, fi_record_size = z, fi_heat = heat\<rparr>]"
    using flash_write_full [OF inv fits TrueI w hdr_def] by blast
  let ?x = "\<lparr>fi_key_hash = h, fi_file_offset = fs_write_offset fs, fi_record_size = z, fi_heat = heat\<rparr>"
  have o: "?off \<le> length (fs_file fs)" using inv by (simp add: fs_inv_def)
  have lens: "unat (fr_key_len hdr) = length k" "unat (fr_value_len hdr) = length v"
    using fits by (auto simp: hdr_def flash_fits_def intro!: unat_of_nat_eq)
  note new = idx_appended [OF o _ lens, of ?x, simplified, folded fl]
  have old: "idx_header (fs_file fs') i = idx_header (fs_file fs) i" "idx_value (fs_file fs') i = idx_value (fs_file fs) i"
      "idx_end (fs_file fs') i = idx_end (fs_file fs) i" "idx_end (fs_file fs) i \<le> ?off" if "i \<in> set (fs_index fs)" for i
    using idx_below_append [OF o, of i] inv that by (auto simp: fl fs_inv_def)
  have inv': "fs_inv fs'"
    using length_file_write [OF o, of "flash_image hdr @ k @ v"] old(3,4) new(3)
    by (auto simp: fs_inv_def wo ix simp flip: fl intro: trans_le_add1)
  have "flash_lookup fs' h' = (if h' = h \<and> flash_lookup fs h = None then Some (e, v) else flash_lookup fs h')" for h'
  proof (cases "flash_find fs h'")
    case None
    then have "flash_find fs' h' = (if h' = h then Some (length (fs_index fs)) else None)"
      by (auto simp: flash_find_def ix find_index_snoc)
    then show ?thesis using None new by (auto simp: flash_lookup_def ix hdr_def)
  next
    case (Some i)
    then have f: "flash_find fs' h' = Some i" by (simp add: flash_find_def ix find_index_snoc)
    have "i < length (fs_index fs)" using find_index_SomeD [OF Some [unfolded flash_find_def]] by simp
    then have "fs_index fs' ! i = fs_index fs ! i" by (simp add: ix nth_append)
    then show ?thesis using Some f old [OF flash_find_in [OF Some]] by (auto simp: flash_lookup_def)
  qed
  then show ?thesis using fw inv' flash_read_view [OF inv'] by auto
qed

definition flash_example :: FlashStorage where
  "flash_example = the (flash_create True [] \<lparr>fc_max_size_bytes = 100, fc_prefetch_enabled = True,
     fc_cooling_interval_ms = 0, fc_heat_cold_thresh = 0, fc_heat_hot_thresh = 0\<rparr>)"

theorem flash_write_read_witness:
  "\<exists>fs'. flash_write 24 1 2 True flash_example 7 (Some [9]) (Some [1, 2]) 0 = (fs', 0) \<and>
     snd (flash_read (\<lambda>_. 0) True True 50 fs' 7 2) = FlashHit [1, 2]"
proof -
  have 1: "fs_inv flash_example" "flash_fits flash_example (24 + length [9 :: u8] + length [1, 2 :: u8])"
    by (simp_all add: flash_example_def flash_create_def Let_def fs_inv_def flash_fits_def)
  have 2: "flash_lookup flash_example 7 = None"
    by (simp add: flash_example_def flash_create_def Let_def flash_lookup_def flash_find_def)
  show ?thesis using flash_write_read [OF 1, of 24 1 2 7 0] 2 by fastforce
qed

end
