(* ===== verification/Nex_Storage.thy ===== *)
theory Nex_Storage
  imports Nex_Dash_Reach Nex_Segcache_Props Nex_Flash
begin

text \<open>
  The narrow-waist storage interface, \<open>core/nexstorage.c\<close> and \<open>nexstorage.h\<close>: the adapters that put
  NexDash, Segcache and Flash behind one table of functions, the two stores of a \<open>NexStorage\<close> and the
  routing between them.

  The NexDash adapter keeps its values in blocks from \<open>malloc\<close>.  The heap of these blocks is a map
  from addresses, and an operation that would read or free a block that is not allocated has no
  result: the outer \<open>None\<close>.  The same \<open>None\<close> stands for a key pool that never stops doubling.  What the
  surroundings decide, as the readings of the clocks and the outcomes of allocations and file
  operations, is the record \<open>StorageEnv\<close>; the i-th call site of a clock in an operation reads
  \<open>ev_clock e i\<close>.
\<close>

subsection \<open>Results and entries\<close>

datatype NexStorageResult =
  NEXS_OK | NEXS_NOT_FOUND | NEXS_EXPIRED | NEXS_ERROR | NEXS_FULL | NEXS_TOO_LARGE | NEXS_PENDING

datatype NexDataType =
  NEXDT_STRING | NEXDT_HASH | NEXDT_LIST | NEXDT_SET | NEXDT_ZSET | NEXDT_STREAM | NEXDT_JSON | NEXDT_VECTOR
  | NEXDT_CRDT | NEXDT_UNKNOWN

fun nexdt_code :: "NexDataType \<Rightarrow> u8" where
  "nexdt_code NEXDT_STRING = 0"
| "nexdt_code NEXDT_HASH = 1"
| "nexdt_code NEXDT_LIST = 2"
| "nexdt_code NEXDT_SET = 3"
| "nexdt_code NEXDT_ZSET = 4"
| "nexdt_code NEXDT_STREAM = 5"
| "nexdt_code NEXDT_JSON = 6"
| "nexdt_code NEXDT_VECTOR = 7"
| "nexdt_code NEXDT_CRDT = 8"
| "nexdt_code NEXDT_UNKNOWN = 255"

text \<open>
  A \<open>NexEntry\<close>; its \<open>value_len\<close> is the length of the value, and a null value is \<open>None\<close>.  Callers zero
  the entry first, so a version that an adapter does not set is 0.
\<close>

record NexEntry =
  ne_value :: "bytes option"
  ne_type :: NexDataType
  ne_ttl_ms :: int
  ne_version :: u64

record NexStorageStats =
  nst_gets :: u64
  nst_sets :: u64
  nst_dels :: u64
  nst_hits :: u64
  nst_misses :: u64
  nst_evictions :: u64
  nst_item_count :: u32
  nst_backend_name :: string

record NDValue =
  nv_data :: bytes
  nv_type :: NexDataType
  nv_expire_us :: int
  nv_version :: u64

record StorageEnv =
  ev_clock :: "nat \<Rightarrow> u64"
  ev_time :: u64
  ev_malloc :: "(u64 \<Rightarrow> NDValue option) \<Rightarrow> u64 option"
  ev_arena_ok :: bool
  ev_realloc_ok :: bool
  ev_pwrite :: "nat \<Rightarrow> int"
  ev_pread :: "nat \<Rightarrow> bool"
  ev_junk :: "nat \<Rightarrow> u8"

text \<open>The number behind \<open>max_memory=\<close> in a configuration string.\<close>

definition cfg_max_memory :: "bytes option \<Rightarrow> u64" where
  "cfg_max_memory config_str =
     (case config_str of
        None \<Rightarrow> 256 * 1024 * 1024
      | Some s \<Rightarrow> (case c_strstr s (str ''max_memory='') of
                     None \<Rightarrow> 256 * 1024 * 1024
                   | Some p \<Rightarrow> word_of_int (c_atol (drop 11 p))))"

subsection \<open>The NexDash adapter\<close>

record NdStore =
  ns_table :: NexDashTable
  ns_heap :: "u64 \<Rightarrow> NDValue option"

text \<open>The blocks that the free callback was given, in order.\<close>

fun ndvalue_free_cb :: "u64 list \<Rightarrow> (u64 \<Rightarrow> NDValue option) \<Rightarrow> (u64 \<Rightarrow> NDValue option) option" where
  "ndvalue_free_cb [] h = Some h"
| "ndvalue_free_cb (a # as) h = (if h a = None then None else ndvalue_free_cb as (h(a := None)))"

text \<open>The store after a table operation, with the blocks it released returned to the heap.\<close>

definition nd_commit :: "NdStore \<Rightarrow> NexDashTable \<Rightarrow> NdStore option" where
  "nd_commit s t =
     map_option (\<lambda>h. \<lparr>ns_table = t, ns_heap = h\<rparr>)
       (ndvalue_free_cb (drop (length (nd_freed (ns_table s))) (nd_freed t)) (ns_heap s))"

definition ndapi_create :: "nat \<Rightarrow> bool \<Rightarrow> NexBloom option \<Rightarrow> bytes option \<Rightarrow> NdStore option option" where
  "ndapi_create fuel arena_ok bloom config_str =
     map_option (map_option (\<lambda>t. \<lparr>ns_table = nexdash_set_free_cb t True, ns_heap = Map.empty\<rparr>))
       (nexdash_create fuel arena_ok 4 (cfg_max_memory config_str) bloom)"

definition ND_MAX_KEY_LEN :: nat where
  "ND_MAX_KEY_LEN = 255"

definition nd_remaining :: "u64 \<Rightarrow> int \<Rightarrow> int" where
  "nd_remaining now expire_us =
     (if expire_us < 0 then - 1
      else let remaining = expire_us - sint now in if remaining > 0 then remaining div 1000 else - 2)"

definition nd_deadline :: "u64 \<Rightarrow> int \<Rightarrow> u64" where
  "nd_deadline now ttl_ms = now + word_of_int ttl_ms * 1000"

definition ndapi_get ::
    "StorageEnv \<Rightarrow> NdStore \<Rightarrow> bytes \<Rightarrow> (NdStore \<times> NexStorageResult \<times> NexEntry option) option" where
  "ndapi_get e s key =
     (if length key > ND_MAX_KEY_LEN then Some (s, NEXS_TOO_LARGE, None)
      else case nexdash_get_nolock (ev_clock e 0) (ns_table s) (Some key) of (t, r) \<Rightarrow>
        (case nd_commit s t of
           None \<Rightarrow> None
         | Some s1 \<Rightarrow>
             (case r of
                None \<Rightarrow> Some (s1, NEXS_NOT_FOUND, None)
              | Some (a, et) \<Rightarrow>
                  if a = 0 then Some (s1, NEXS_NOT_FOUND, None)
                  else (case ns_heap s1 a of
                          None \<Rightarrow> None
                        | Some val \<Rightarrow>
                            if length (nv_data val) > 1024 * 1024 then Some (s1, NEXS_TOO_LARGE, None)
                            else Some (s1, NEXS_OK,
                                   Some \<lparr>ne_value = Some (nv_data val), ne_type = nv_type val,
                                         ne_ttl_ms = nd_remaining (ev_clock e 1) (nv_expire_us val),
                                         ne_version = nv_version val\<rparr>)))))"

text \<open>Building a block and handing it to the table: the common end of \<open>ndapi_set\<close> and \<open>ndapi_rmw\<close>.\<close>

definition nd_new_value :: "StorageEnv \<Rightarrow> bytes \<Rightarrow> NexDataType \<Rightarrow> int \<Rightarrow> NDValue" where
  "nd_new_value e value type ttl_ms =
     \<lparr>nv_data = value, nv_type = type,
      nv_expire_us = (if ttl_ms \<ge> 0 then sint (nd_deadline (ev_clock e 3) ttl_ms) else - 1),
      nv_version = ev_clock e 2\<rparr>"

definition nd_store_value ::
    "StorageEnv \<Rightarrow> NdStore \<Rightarrow> bytes \<Rightarrow> bytes \<Rightarrow> NexDataType \<Rightarrow> int \<Rightarrow> (NdStore \<times> NexStorageResult) option" where
  "nd_store_value e s key value type ttl_ms =
     (case ev_malloc e (ns_heap s) of
        None \<Rightarrow> Some (s, NEXS_ERROR)
      | Some a \<Rightarrow>
          let val = nd_new_value e value type ttl_ms;
              expire_us_arg = (if ttl_ms \<ge> 0 then nd_deadline (ev_clock e 4) ttl_ms else 0);
              total_size = 32 + of_nat (length value)
          in (case nexdash_set_nolock (ev_arena_ok e) (ev_realloc_ok e) (ev_clock e 5) (ns_table s) (Some key) a total_size
                     (nexdt_code type) expire_us_arg of
                None \<Rightarrow> None
              | Some (t, rc) \<Rightarrow>
                  (case nd_commit (s\<lparr>ns_heap := (ns_heap s)(a \<mapsto> val)\<rparr>) t of
                     None \<Rightarrow> None
                   | Some s1 \<Rightarrow>
                       if rc then Some (s1, NEXS_OK)
                       else Some (s1\<lparr>ns_heap := (ns_heap s1)(a := None)\<rparr>, NEXS_ERROR))))"

definition ndapi_set ::
    "StorageEnv \<Rightarrow> NdStore \<Rightarrow> bytes \<Rightarrow> bytes \<Rightarrow> NexDataType \<Rightarrow> int \<Rightarrow> (NdStore \<times> NexStorageResult) option" where
  "ndapi_set e s key value type ttl_ms =
     (if length key > ND_MAX_KEY_LEN then Some (s, NEXS_TOO_LARGE) else nd_store_value e s key value type ttl_ms)"

definition ndapi_del :: "StorageEnv \<Rightarrow> NdStore \<Rightarrow> bytes \<Rightarrow> (NdStore \<times> NexStorageResult) option" where
  "ndapi_del e s key =
     (if length key > ND_MAX_KEY_LEN then Some (s, NEXS_NOT_FOUND)
      else case nexdash_del (ns_table s) (Some key) of (t, rc) \<Rightarrow>
        map_option (\<lambda>s1. (s1, if rc then NEXS_OK else NEXS_NOT_FOUND)) (nd_commit s t))"

definition ndapi_exists :: "StorageEnv \<Rightarrow> NdStore \<Rightarrow> bytes \<Rightarrow> (NdStore \<times> bool) option" where
  "ndapi_exists e s key =
     (if length key > ND_MAX_KEY_LEN then Some (s, False)
      else case nexdash_exists (ev_clock e 0) (ns_table s) (Some key) of (t, r) \<Rightarrow>
        map_option (\<lambda>s1. (s1, r)) (nd_commit s t))"

text \<open>
  Read, modify, write under the table lock.  The callback is a function from the entry it is given to
  the entry it leaves behind, its result and its output; a missing key gives it a zeroed entry.
\<close>

type_synonym 'o rmw_callback = "NexEntry \<Rightarrow> NexEntry \<times> NexStorageResult \<times> 'o"

definition nd_rmw_entry :: "u64 \<Rightarrow> NDValue option \<Rightarrow> NexEntry" where
  "nd_rmw_entry now v =
     (case v of
        None \<Rightarrow> \<lparr>ne_value = None, ne_type = NEXDT_STRING, ne_ttl_ms = - 1, ne_version = 0\<rparr>
      | Some val \<Rightarrow> \<lparr>ne_value = Some (nv_data val), ne_type = nv_type val,
                     ne_ttl_ms = nd_remaining now (nv_expire_us val), ne_version = nv_version val\<rparr>)"

definition nd_rmw_update ::
    "StorageEnv \<Rightarrow> NdStore \<Rightarrow> bytes \<Rightarrow> 'o rmw_callback \<Rightarrow> NDValue option \<Rightarrow> (NdStore \<times> NexStorageResult \<times> 'o) option" where
  "nd_rmw_update e s key cb old =
     (case cb (nd_rmw_entry (ev_clock e 1) old) of (en, res, out) \<Rightarrow>
        if res = NEXS_OK
        then map_option (\<lambda>(s1, r). (s1, r, out))
               (nd_store_value e s key (case ne_value en of None \<Rightarrow> [] | Some v \<Rightarrow> v) (ne_type en) (ne_ttl_ms en))
        else Some (s, res, out))"

definition ndapi_rmw ::
    "StorageEnv \<Rightarrow> NdStore \<Rightarrow> bytes \<Rightarrow> 'o rmw_callback \<Rightarrow> 'o \<Rightarrow> (NdStore \<times> NexStorageResult \<times> 'o) option" where
  "ndapi_rmw e s key cb out0 =
     (if length key > ND_MAX_KEY_LEN then Some (s, NEXS_TOO_LARGE, out0)
      else case nexdash_get_nolock (ev_clock e 0) (ns_table s) (Some key) of (t, r) \<Rightarrow>
        (case nd_commit s t of
           None \<Rightarrow> None
         | Some s1 \<Rightarrow>
             (case r of
                None \<Rightarrow> nd_rmw_update e s1 key cb None
              | Some (a, et) \<Rightarrow>
                  if a = 0 then nd_rmw_update e s1 key cb None
                  else (case ns_heap s1 a of None \<Rightarrow> None | Some val \<Rightarrow> nd_rmw_update e s1 key cb (Some val)))))"

definition ndapi_expire :: "StorageEnv \<Rightarrow> NdStore \<Rightarrow> bytes \<Rightarrow> int \<Rightarrow> (NdStore \<times> NexStorageResult) option" where
  "ndapi_expire e s key ttl_ms =
     (if length key > ND_MAX_KEY_LEN then Some (s, NEXS_NOT_FOUND)
      else let expire_us = (if ttl_ms \<ge> 0 then nd_deadline (ev_clock e 0) ttl_ms else 0)
           in case nexdash_expire (ev_clock e 1) (ns_table s) (Some key) expire_us of (t, rc) \<Rightarrow>
             map_option (\<lambda>s1. (s1, if rc > 0 then NEXS_OK else NEXS_NOT_FOUND)) (nd_commit s t))"

definition ndapi_subkey_expire :: "NdStore \<Rightarrow> bytes \<Rightarrow> bytes \<Rightarrow> int \<Rightarrow> NdStore \<times> NexStorageResult" where
  "ndapi_subkey_expire s key subkey ttl_ms = (s, NEXS_OK)"

definition ndapi_subkey_ttl :: "NdStore \<Rightarrow> bytes \<Rightarrow> bytes \<Rightarrow> int" where
  "ndapi_subkey_ttl s key subkey = - 1"

definition ndapi_ttl :: "StorageEnv \<Rightarrow> NdStore \<Rightarrow> bytes \<Rightarrow> (NdStore \<times> int) option" where
  "ndapi_ttl e s key =
     map_option (\<lambda>(s1, r, en). (s1, if r \<noteq> NEXS_OK then - 2 else case en of None \<Rightarrow> 0 | Some x \<Rightarrow> ne_ttl_ms x))
       (ndapi_get e s key)"

text \<open>The entries that a scan hands to its callback; a block that is not allocated has no result.\<close>

definition nd_scan_adapter :: "(u64 \<Rightarrow> NDValue option) \<Rightarrow> nd_call \<Rightarrow> (bytes \<times> NexEntry) list option" where
  "nd_scan_adapter h call =
     (case call of (key, key_len, a, ty) \<Rightarrow>
        if a = 0 then Some []
        else map_option (\<lambda>val. [(key, \<lparr>ne_value = Some (nv_data val), ne_type = nv_type val, ne_ttl_ms = - 1,
                                       ne_version = nv_version val\<rparr>)]) (h a))"

definition ndapi_scan :: "StorageEnv \<Rightarrow> NdStore \<Rightarrow> (bytes \<times> NexEntry) list option" where
  "ndapi_scan e s = map_option concat (those (map (nd_scan_adapter (ns_heap s)) (nexdash_scan (ev_clock e 0) (ns_table s))))"

definition ndapi_snapshot_start :: "NdStore \<Rightarrow> NdStore \<times> NexStorageResult" where
  "ndapi_snapshot_start s = (s\<lparr>ns_table := nexdash_snapshot_start (ns_table s)\<rparr>, NEXS_OK)"

definition ndapi_snapshot_delta :: "NdStore \<Rightarrow> NexStorageResult \<times> (bytes \<times> NexEntry) list option" where
  "ndapi_snapshot_delta s =
     (case nexdash_snapshot_iterate_delta (ns_table s) of (rc, calls) \<Rightarrow>
        (if rc = 0 then NEXS_OK else NEXS_ERROR, map_option concat (those (map (nd_scan_adapter (ns_heap s)) calls))))"

definition ndapi_snapshot_end :: "NdStore \<Rightarrow> NdStore \<times> NexStorageResult" where
  "ndapi_snapshot_end s = (s\<lparr>ns_table := nexdash_snapshot_end (ns_table s)\<rparr>, NEXS_OK)"

definition ndapi_stats :: "NdStore \<Rightarrow> NexStorageStats" where
  "ndapi_stats s =
     (let st = nd_stats (ns_table s)
      in \<lparr>nst_gets = nds_gets st, nst_sets = nds_sets st, nst_dels = nds_dels st, nst_hits = nds_hits st,
          nst_misses = nds_misses st, nst_evictions = nds_evictions_probatory st + nds_evictions_protected st,
          nst_item_count = nd_item_count (ns_table s), nst_backend_name = ''NexDashTable''\<rparr>)"

definition ndapi_flush :: "NdStore \<Rightarrow> NdStore" where
  "ndapi_flush s = s"

subsection \<open>The Segcache adapter\<close>

text \<open>Key and value lengths are cut to 16 bits, as by the casts in the calls.\<close>

definition cut16 :: "bytes \<Rightarrow> bytes" where
  "cut16 bs = take (unat (of_nat (length bs) :: u16)) bs"

definition scapi_create :: "bool \<Rightarrow> bytes option \<Rightarrow> NexSegcache option" where
  "scapi_create alloc_ok config_str = segcache_create alloc_ok (cfg_max_memory config_str) SEG_DEFAULT_SIZE"

definition scapi_get ::
    "StorageEnv \<Rightarrow> NexSegcache \<Rightarrow> bytes \<Rightarrow> (NexSegcache \<times> NexStorageResult \<times> NexEntry option) option" where
  "scapi_get e sc key =
     Some (case segcache_get (ucast (ev_time e)) sc (Some (cut16 key)) 65535 of
        (sc1, SegHit v) \<Rightarrow>
          (sc1, NEXS_OK, Some \<lparr>ne_value = Some v, ne_type = NEXDT_STRING, ne_ttl_ms = - 1, ne_version = 0\<rparr>)
      | (sc1, _) \<Rightarrow> (sc1, NEXS_NOT_FOUND, None))"

definition scapi_set ::
    "StorageEnv \<Rightarrow> NexSegcache \<Rightarrow> bytes \<Rightarrow> bytes option \<Rightarrow> NexDataType \<Rightarrow> int \<Rightarrow> (NexSegcache \<times> NexStorageResult) option" where
  "scapi_set e sc key value type ttl_ms =
     (let ttl_s = (if ttl_ms \<ge> 0 then word_of_int (ttl_ms div 1000) else 0)
      in case segcache_set (ucast (ev_time e)) sc (Some (cut16 key)) (map_option cut16 value) ttl_s of
           (sc1, rc) \<Rightarrow> Some (sc1, if rc then NEXS_OK else NEXS_ERROR))"

definition scapi_del :: "StorageEnv \<Rightarrow> NexSegcache \<Rightarrow> bytes \<Rightarrow> (NexSegcache \<times> NexStorageResult) option" where
  "scapi_del e sc key =
     (case segcache_del sc (Some (cut16 key)) of (sc1, rc) \<Rightarrow> Some (sc1, if rc > 0 then NEXS_OK else NEXS_NOT_FOUND))"

definition scapi_exists :: "StorageEnv \<Rightarrow> NexSegcache \<Rightarrow> bytes \<Rightarrow> (NexSegcache \<times> bool) option" where
  "scapi_exists e sc key = Some (segcache_exists (ucast (ev_time e)) sc (Some (cut16 key)))"

definition scapi_stats :: "NexSegcache \<Rightarrow> NexStorageStats" where
  "scapi_stats sc =
     (case segcache_get_stats sc of (st, used) \<Rightarrow>
        \<lparr>nst_gets = sst_gets st, nst_sets = sst_sets st, nst_dels = sst_dels st, nst_hits = sst_hits st,
         nst_misses = sst_misses st, nst_evictions = sst_evictions_segment st, nst_item_count = 0,
         nst_backend_name = ''NexSegcache''\<rparr>)"

definition scapi_flush :: "NexSegcache \<Rightarrow> NexSegcache" where
  "scapi_flush sc = sc"

text \<open>The result of the final set is not looked at.\<close>

definition scapi_rmw ::
    "StorageEnv \<Rightarrow> NexSegcache \<Rightarrow> bytes \<Rightarrow> 'o rmw_callback \<Rightarrow> 'o \<Rightarrow> (NexSegcache \<times> NexStorageResult \<times> 'o) option" where
  "scapi_rmw e sc key cb out0 =
     (case scapi_get e sc key of
        None \<Rightarrow> None
      | Some (sc1, r, got) \<Rightarrow>
          let entry = (case got of Some en \<Rightarrow> en
                       | None \<Rightarrow> \<lparr>ne_value = None, ne_type = NEXDT_STRING, ne_ttl_ms = - 1, ne_version = 0\<rparr>)
          in (case cb entry of (en, res, out) \<Rightarrow>
                if res = NEXS_OK
                then map_option (\<lambda>(sc2, rc). (sc2, res, out)) (scapi_set e sc1 key (ne_value en) (ne_type en) (ne_ttl_ms en))
                else Some (sc1, res, out)))"

definition scapi_expire :: "NexSegcache \<Rightarrow> bytes \<Rightarrow> int \<Rightarrow> NexSegcache \<times> NexStorageResult" where
  "scapi_expire sc key ttl_ms = (sc, NEXS_OK)"

definition scapi_ttl :: "NexSegcache \<Rightarrow> bytes \<Rightarrow> int" where
  "scapi_ttl sc key = - 1"

definition scapi_scan :: "NexSegcache \<Rightarrow> NexStorageResult \<times> (bytes \<times> NexEntry) list" where
  "scapi_scan sc = (NEXS_OK, [])"

definition scapi_snap_start :: "NexSegcache \<Rightarrow> NexSegcache \<times> NexStorageResult" where
  "scapi_snap_start sc = (sc, NEXS_OK)"

definition scapi_snap_delta :: "NexSegcache \<Rightarrow> NexStorageResult \<times> (bytes \<times> NexEntry) list" where
  "scapi_snap_delta sc = (NEXS_OK, [])"

definition scapi_snap_end :: "NexSegcache \<Rightarrow> NexSegcache \<times> NexStorageResult" where
  "scapi_snap_end sc = (sc, NEXS_OK)"

subsection \<open>The Flash adapter\<close>

text \<open>The hash widens a signed \<open>char\<close>, so bytes from 128 on are sign-extended.\<close>

definition flash_hash_fnv1a :: "bytes \<Rightarrow> u64" where
  "flash_hash_fnv1a key = foldl (\<lambda>hash c. (hash XOR scast c) * 0x100000001b3) 0xcbf29ce484222325 key"

text \<open>\<open>flash_create\<close> with the fixed configuration; the path only names the file.\<close>

definition flashapi_create :: "bool \<Rightarrow> bytes \<Rightarrow> FlashStorage option" where
  "flashapi_create open_ok content =
     flash_create open_ok content \<lparr>fc_max_size_bytes = 1024 * 1024 * 1024, fc_prefetch_enabled = True,
       fc_cooling_interval_ms = 5000, fc_heat_cold_thresh = 0, fc_heat_hot_thresh = 0\<rparr>"

definition flashapi_get ::
    "StorageEnv \<Rightarrow> FlashStorage \<Rightarrow> bytes \<Rightarrow> (FlashStorage \<times> NexStorageResult \<times> NexEntry option) option" where
  "flashapi_get e fs key =
     Some (case flash_read (ev_junk e) (ev_pread e 0) (ev_pread e 1) (ucast (ev_time e)) fs (flash_hash_fnv1a key) (1024 * 1024) of
        (fs1, FlashHit v) \<Rightarrow>
          (fs1, NEXS_OK, Some \<lparr>ne_value = Some v, ne_type = NEXDT_STRING, ne_ttl_ms = - 1, ne_version = 0\<rparr>)
      | (fs1, _) \<Rightarrow> (fs1, NEXS_NOT_FOUND, None))"

definition flash_deadline :: "StorageEnv \<Rightarrow> int \<Rightarrow> u32" where
  "flash_deadline e ttl_ms = (if ttl_ms \<ge> 0 then ucast (ev_time e + word_of_int (ttl_ms div 1000)) else 0)"

definition flashapi_set ::
    "StorageEnv \<Rightarrow> FlashStorage \<Rightarrow> bytes \<Rightarrow> bytes \<Rightarrow> NexDataType \<Rightarrow> int \<Rightarrow> (FlashStorage \<times> NexStorageResult) option" where
  "flashapi_set e fs key value type ttl_ms =
     (case flash_write (ev_pwrite e 0) (ev_pwrite e 1) (ev_pwrite e 2) (ev_realloc_ok e) fs (flash_hash_fnv1a key)
             (Some key) (Some value) (flash_deadline e ttl_ms) of
        (fs1, rc) \<Rightarrow> Some (fs1, if rc = 0 then NEXS_OK else NEXS_ERROR))"

definition flashapi_del :: "StorageEnv \<Rightarrow> FlashStorage \<Rightarrow> bytes \<Rightarrow> (FlashStorage \<times> NexStorageResult) option" where
  "flashapi_del e fs key =
     (case flash_delete fs (flash_hash_fnv1a key) of (fs1, rc) \<Rightarrow> Some (fs1, if rc > 0 then NEXS_OK else NEXS_NOT_FOUND))"

definition flashapi_exists :: "StorageEnv \<Rightarrow> FlashStorage \<Rightarrow> bytes \<Rightarrow> (FlashStorage \<times> bool) option" where
  "flashapi_exists e fs key =
     Some (case flash_read (ev_junk e) (ev_pread e 0) (ev_pread e 1) (ucast (ev_time e)) fs (flash_hash_fnv1a key) 0 of
        (fs1, FlashSmall n) \<Rightarrow> (fs1, True)
      | (fs1, FlashHit v) \<Rightarrow> (fs1, 0 < length v)
      | (fs1, FlashMiss) \<Rightarrow> (fs1, False))"

definition flashapi_expire :: "StorageEnv \<Rightarrow> FlashStorage \<Rightarrow> bytes \<Rightarrow> int \<Rightarrow> FlashStorage \<times> NexStorageResult" where
  "flashapi_expire e fs key ttl_ms =
     (case flash_expire (ev_pread e 0) (ev_pwrite e 0) fs (flash_hash_fnv1a key) (flash_deadline e ttl_ms) of
        (fs1, rc) \<Rightarrow> (fs1, if rc = 1 then NEXS_OK else NEXS_NOT_FOUND))"

definition flashapi_ttl :: "StorageEnv \<Rightarrow> FlashStorage \<Rightarrow> bytes \<Rightarrow> int" where
  "flashapi_ttl e fs key = flash_ttl (ev_pread e 0) (ucast (ev_time e)) fs (flash_hash_fnv1a key)"

text \<open>The counter \<open>prefetch_hits\<close> is never changed and stays 0.\<close>

definition flashapi_stats :: "FlashStorage \<Rightarrow> NexStorageStats" where
  "flashapi_stats fs =
     (let st = flash_get_stats fs
      in \<lparr>nst_gets = fst_reads st, nst_sets = fst_writes st, nst_dels = fst_evictions st, nst_hits = 0,
          nst_misses = fst_reads st, nst_evictions = fst_evictions st, nst_item_count = of_nat (length (fs_index fs)),
          nst_backend_name = ''NexFlash''\<rparr>)"

definition flashapi_flush :: "bool \<Rightarrow> FlashStorage \<Rightarrow> FlashStorage" where
  "flashapi_flush truncate_ok fs = flash_flush truncate_ok fs"

subsection \<open>The two stores\<close>

text \<open>
  The entries of a \<open>NexStorageAPI\<close> that the wrappers call, for a backend of type \<open>'b\<close>.  The wrapper
  for read-modify-write goes to the object store, which is always NexDash.
\<close>

record 'b NexStorageAPI =
  api_name :: string
  api_get :: "StorageEnv \<Rightarrow> 'b \<Rightarrow> bytes \<Rightarrow> ('b \<times> NexStorageResult \<times> NexEntry option) option"
  api_set :: "StorageEnv \<Rightarrow> 'b \<Rightarrow> bytes \<Rightarrow> bytes \<Rightarrow> NexDataType \<Rightarrow> int \<Rightarrow> ('b \<times> NexStorageResult) option"
  api_del :: "StorageEnv \<Rightarrow> 'b \<Rightarrow> bytes \<Rightarrow> ('b \<times> NexStorageResult) option"
  api_exists :: "StorageEnv \<Rightarrow> 'b \<Rightarrow> bytes \<Rightarrow> ('b \<times> bool) option"

definition NexDashTableAPI :: "NdStore NexStorageAPI" where
  "NexDashTableAPI = \<lparr>api_name = ''NexDashTable'', api_get = ndapi_get, api_set = ndapi_set, api_del = ndapi_del,
     api_exists = ndapi_exists\<rparr>"

definition NexSegcacheAPI :: "NexSegcache NexStorageAPI" where
  "NexSegcacheAPI = \<lparr>api_name = ''NexSegcache'', api_get = scapi_get,
     api_set = (\<lambda>e sc key value. scapi_set e sc key (Some value)), api_del = scapi_del, api_exists = scapi_exists\<rparr>"

definition NexFlashAPI :: "FlashStorage NexStorageAPI" where
  "NexFlashAPI = \<lparr>api_name = ''NexFlash'', api_get = flashapi_get, api_set = flashapi_set, api_del = flashapi_del,
     api_exists = flashapi_exists\<rparr>"

record 'b NexStorage =
  main_api :: "'b NexStorageAPI"
  main_backend :: 'b
  object_backend :: NdStore

definition nexstorage_get ::
    "StorageEnv \<Rightarrow> 'b NexStorage \<Rightarrow> bytes \<Rightarrow> ('b NexStorage \<times> NexStorageResult \<times> NexEntry option) option" where
  "nexstorage_get e ns key =
     (case api_get (main_api ns) e (main_backend ns) key of
        None \<Rightarrow> None
      | Some (m, res, out) \<Rightarrow>
          if res = NEXS_OK then Some (ns\<lparr>main_backend := m\<rparr>, NEXS_OK, out)
          else map_option (\<lambda>(ob, r, out'). (ns\<lparr>main_backend := m, object_backend := ob\<rparr>, r, out'))
                 (api_get NexDashTableAPI e (object_backend ns) key))"

definition nexstorage_set ::
    "StorageEnv \<Rightarrow> 'b NexStorage \<Rightarrow> bytes \<Rightarrow> bytes \<Rightarrow> NexDataType \<Rightarrow> int \<Rightarrow> ('b NexStorage \<times> NexStorageResult) option" where
  "nexstorage_set e ns key value type ttl_ms =
     (if type = NEXDT_STRING
      then map_option (\<lambda>(m, r). (ns\<lparr>main_backend := m\<rparr>, r)) (api_set (main_api ns) e (main_backend ns) key value type ttl_ms)
      else map_option (\<lambda>(ob, r). (ns\<lparr>object_backend := ob\<rparr>, r))
             (api_set NexDashTableAPI e (object_backend ns) key value type ttl_ms))"

definition nexstorage_del ::
    "StorageEnv \<Rightarrow> 'b NexStorage \<Rightarrow> bytes \<Rightarrow> ('b NexStorage \<times> NexStorageResult) option" where
  "nexstorage_del e ns key =
     (case api_del (main_api ns) e (main_backend ns) key of
        None \<Rightarrow> None
      | Some (m, r1) \<Rightarrow>
          if r1 = NEXS_OK then Some (ns\<lparr>main_backend := m\<rparr>, NEXS_OK)
          else map_option (\<lambda>(ob, r2). (ns\<lparr>main_backend := m, object_backend := ob\<rparr>, if r2 = NEXS_OK then NEXS_OK else NEXS_NOT_FOUND))
                 (api_del NexDashTableAPI e (object_backend ns) key))"

definition nexstorage_rmw ::
    "StorageEnv \<Rightarrow> 'b NexStorage \<Rightarrow> bytes \<Rightarrow> 'o rmw_callback \<Rightarrow> 'o \<Rightarrow> ('b NexStorage \<times> NexStorageResult \<times> 'o) option" where
  "nexstorage_rmw e ns key cb out0 =
     map_option (\<lambda>(ob, r, out). (ns\<lparr>object_backend := ob\<rparr>, r, out)) (ndapi_rmw e (object_backend ns) key cb out0)"

definition nexstorage_subkey_expire :: "'b NexStorage \<Rightarrow> bytes \<Rightarrow> bytes \<Rightarrow> int \<Rightarrow> 'b NexStorage \<times> NexStorageResult" where
  "nexstorage_subkey_expire ns key subkey ttl_ms =
     (case ndapi_subkey_expire (object_backend ns) key subkey ttl_ms of (ob, r) \<Rightarrow> (ns\<lparr>object_backend := ob\<rparr>, r))"

definition nexstorage_subkey_ttl :: "'b NexStorage \<Rightarrow> bytes \<Rightarrow> bytes \<Rightarrow> int" where
  "nexstorage_subkey_ttl ns key subkey = ndapi_subkey_ttl (object_backend ns) key subkey"

definition nexstorage_exists :: "StorageEnv \<Rightarrow> 'b NexStorage \<Rightarrow> bytes \<Rightarrow> ('b NexStorage \<times> bool) option" where
  "nexstorage_exists e ns key =
     (case api_exists (main_api ns) e (main_backend ns) key of
        None \<Rightarrow> None
      | Some (m, True) \<Rightarrow> Some (ns\<lparr>main_backend := m\<rparr>, True)
      | Some (m, False) \<Rightarrow>
          map_option (\<lambda>(ob, r). (ns\<lparr>main_backend := m, object_backend := ob\<rparr>, r))
            (api_exists NexDashTableAPI e (object_backend ns) key))"

text \<open>
  The factory: one constructor per main backend.  The cloud backend is a stub without functions, so
  the call of its \<open>create\<close> has no result.
\<close>

datatype any_storage = DashStorage "NdStore NexStorage" | SegStorage "NexSegcache NexStorage" | FlashBacked "FlashStorage NexStorage"

definition two_stores :: "'b NexStorageAPI \<Rightarrow> 'b option \<Rightarrow> NdStore option \<Rightarrow> 'b NexStorage option" where
  "two_stores api main object =
     (case (main, object) of
        (Some m, Some ob) \<Rightarrow> Some \<lparr>main_api = api, main_backend = m, object_backend = ob\<rparr>
      | _ \<Rightarrow> None)"

text \<open>
  The two NexDash tables a store may need are created apart: \<open>arena_ok\<close> and \<open>bloom\<close> give the outcomes
  for the main table at 0 and for the object table at 1.
\<close>

definition nexstorage_create ::
    "nat \<Rightarrow> bool \<Rightarrow> bool \<Rightarrow> (nat \<Rightarrow> bool) \<Rightarrow> (nat \<Rightarrow> NexBloom option) \<Rightarrow> bool \<Rightarrow> bytes \<Rightarrow> string option \<Rightarrow> bytes option \<Rightarrow>
     any_storage option option" where
  "nexstorage_create fuel calloc_ok segs_ok arena_ok bloom open_ok content backend_name config_str =
     (if \<not> calloc_ok then Some None
      else if backend_name = Some ''cloud'' then None
      else case ndapi_create fuel (arena_ok 1) (bloom 1) config_str of
        None \<Rightarrow> None
      | Some object \<Rightarrow>
          if backend_name = Some ''segcache''
          then Some (map_option SegStorage (two_stores NexSegcacheAPI (scapi_create segs_ok config_str) object))
          else if backend_name = Some ''flash''
          then Some (map_option FlashBacked (two_stores NexFlashAPI (flashapi_create open_ok content) object))
          else case ndapi_create fuel (arena_ok 0) (bloom 0) config_str of
            None \<Rightarrow> None
          | Some main \<Rightarrow> Some (map_option DashStorage (two_stores NexDashTableAPI main object)))"

text \<open>
  Destroying a NexDash store frees the table, its key pool and its filter, and none of the values: the
  blocks that stay allocated.
\<close>

definition ndapi_destroy :: "NdStore \<Rightarrow> u64 \<Rightarrow> NDValue option" where
  "ndapi_destroy s = ns_heap s"

text \<open>
  The field \<open>backend\<close> is never set, so the first branch of \<open>nexstorage_destroy\<close> is not taken; the result is
  what stays allocated of the object store.
\<close>

definition nexstorage_destroy :: "'b NexStorage \<Rightarrow> u64 \<Rightarrow> NDValue option" where
  "nexstorage_destroy ns = ndapi_destroy (object_backend ns)"

end
