(* ===== verification/Nex_Storage_Props.thy ===== *)
theory Nex_Storage_Props
  imports Nex_Storage
begin

text \<open>
  Properties of the storage interface: the NexDash adapter never touches a block that is not
  allocated and never loses one, and each of its operations acts on a map with expiry.
\<close>

subsection \<open>The released blocks\<close>

definition freed_more :: "NexDashTable \<Rightarrow> NexDashTable \<Rightarrow> bool" where
  "freed_more t t' \<longleftrightarrow> nd_freed t' = nd_freed t @ drop (length (nd_freed t)) (nd_freed t')"

lemma freed_moreI: "nd_freed t' = nd_freed t @ fs \<Longrightarrow> freed_more t t'"
  by (simp add: freed_more_def)

lemma freed_more_refl: "nd_freed t' = nd_freed t \<Longrightarrow> freed_more t t'"
  by (simp add: freed_more_def)

lemma freed_more_free: "nd_freed t' = nd_freed (nd_free t sl) \<Longrightarrow> freed_more t t'"
  by (auto simp: nd_free_def Let_def split: if_splits intro: freed_moreI freed_more_refl)

lemma freed_more_remove: "freed_more t (nd_remove t p)"
  by (rule freed_more_free) simp

lemma freed_more_get: "freed_more t (fst (nexdash_get_nolock now t key))"
proof -
  have "freed_more t t1" if "nd_find_slot True True now t k h False = Some (t1, r)" for k h t1 r
    using that freed_more_remove [of t] by (auto simp: nd_find_slot_def freed_more_refl split: option.splits if_splits)
  then show ?thesis
    by (fastforce simp: nexdash_get_nolock_def count_miss_def freed_more_def Let_def split: option.splits)
qed

lemma freed_more_del: "freed_more t (fst (nexdash_del t key))"
proof -
  have "freed_more t ((nd_remove t p)\<lparr>nd_current_version := v, nd_stats := st\<rparr>)" for p v st
    using freed_more_remove [of t p] by (simp add: freed_more_def)
  then show ?thesis by (auto simp: nexdash_del_def Let_def freed_more_refl split: option.splits)
qed

lemma freed_more_expire: "freed_more t (fst (nexdash_expire now t key x))"
proof -
  have "freed_more t t1" if "nd_find_slot True True now t k h False = Some (t1, r)" for k h t1 r
    using that freed_more_remove [of t] by (auto simp: nd_find_slot_def freed_more_refl split: option.splits if_splits)
  then show ?thesis by (fastforce simp: nexdash_expire_def freed_more_def split: option.splits)
qed

lemma freed_more_set:
  assumes inv: "nd_inv t" and k: "k \<noteq> []" "length k \<le> 255" and room: "nd_room t k" and val: "value < 2 ^ 48" "type < 2 ^ 4"
    and s: "nexdash_set_nolock ao ro now t (Some k) value vsz type x = Some (t', ok)"
  shows "freed_more t t'"
proof (cases "nd_view t k")
  case (Some sl)
  obtain p where p: "nd_find_slot ao ro now t k (fnv1a_64 k) True = Some (if slot_expired now sl then (nd_remove t p, None) else (t, Some p))"
    using nd_find_present [OF inv Some] by blast
  have "freed_more t (nd_write t p k value vsz type x)"
    by (rule freed_more_free [of _ _ "nd_slot t p"]) (simp add: nd_write_def Let_def)
  then show ?thesis using s p freed_more_remove [of t p] by (auto simp: nexdash_set_write [OF k(1)] split: if_splits)
next
  case None
  show ?thesis
  proof (rule nd_find_create [OF inv k room None, of ao ro now])
    fix t1 r
    assume f: "nd_find_slot ao ro now t k (fnv1a_64 k) True = Some (t1, r)" and fr: "nd_freed t1 = nd_freed t"
    have "freed_more t1 (nd_write t1 p k value vsz type x)" for p
      by (rule freed_more_free [of _ _ "nd_slot t1 p"]) (simp add: nd_write_def Let_def)
    then show ?thesis using s f fr by (auto simp: nexdash_set_write [OF k(1)] freed_more_def split: option.splits)
  qed
qed

subsection \<open>Blocks and entries\<close>

text \<open>The allocated blocks are exactly the values of the entries, each of one entry.\<close>

definition store_ok :: "NdStore \<Rightarrow> bool" where
  "store_ok s \<longleftrightarrow> nd_owned (mset (nd_freed (ns_table s)) + image_mset slot_addr (nd_entries (ns_table s))) (ns_table s) \<and>
     finite (dom (ns_heap s)) \<and> image_mset slot_addr (nd_entries (ns_table s)) = mset_set (dom (ns_heap s))"

lemma free_cb_ok:
  assumes "finite (dom h)" "mset fs \<subseteq># mset_set (dom h)"
  shows "ndvalue_free_cb fs h = Some (h |` (- set fs)) \<and> mset_set (dom (h |` (- set fs))) = mset_set (dom h) - mset fs"
  using assms
proof (induction fs arbitrary: h)
  case Nil
  show ?case by simp
next
  case (Cons a fs)
  have "a \<in># mset_set (dom h)" using Cons.prems(2) by (auto dest: mset_subset_eqD)
  then have a: "a \<in> dom h" using Cons.prems(1) by simp
  have d: "mset_set (dom (h(a := None))) = mset_set (dom h) - {#a#}"
    using Cons.prems(1) a by (simp add: mset_set_Diff)
  have s: "mset fs \<subseteq># mset_set (dom (h(a := None)))"
    using Cons.prems(2) unfolding d by (simp add: insert_subset_eq_iff)
  have r: "h(a := None) |` (- set fs) = h |` (- set (a # fs))" by (auto simp: restrict_map_def fun_eq_iff)
  have f: "finite (dom (h(a := None)))" using Cons.prems(1) by simp
  have i: "ndvalue_free_cb fs (h(a := None)) = Some (h |` (- set (a # fs)))"
    "mset_set (dom (h |` (- set (a # fs)))) = mset_set (dom h) - {#a#} - mset fs"
    using Cons.IH [OF f s, unfolded r d] by blast+
  have "h a \<noteq> None" using a by auto
  then have "ndvalue_free_cb (a # fs) h = ndvalue_free_cb fs (h(a := None))" by (simp only: ndvalue_free_cb.simps if_False)
  then show ?case unfolding i by simp
qed

lemma commit_ok:
  assumes "freed_more (ns_table s) t" "nd_owned H t" "finite (dom (ns_heap s))"
    and "mset (drop (length (nd_freed (ns_table s))) (nd_freed t)) \<subseteq># mset_set (dom (ns_heap s))"
  shows "\<exists>h. nd_commit s t = Some \<lparr>ns_table = t, ns_heap = h\<rparr> \<and> h \<subseteq>\<^sub>m ns_heap s \<and>
    mset_set (dom h) = mset_set (dom (ns_heap s)) - mset (drop (length (nd_freed (ns_table s))) (nd_freed t)) \<and> finite (dom h)"
  using free_cb_ok [OF assms(3,4)] assms(3)
  by (simp add: nd_commit_def map_le_def)

lemma owned_same:
  assumes o: "nd_owned (mset (nd_freed t) + E) t" and o': "nd_owned (mset (nd_freed t) + F) t'" and g: "freed_more t t'"
  shows "F = mset (drop (length (nd_freed t)) (nd_freed t')) + image_mset slot_addr (nd_entries t')"
proof -
  have "mset (nd_freed t') = mset (nd_freed t) + mset (drop (length (nd_freed t)) (nd_freed t'))"
    using g unfolding freed_more_def by (metis mset_append)
  then show ?thesis using o' by (simp add: nd_owned_def)
qed

lemma nd_value_addr:
  assumes "nd_inv t" "nd_value t now k = Some (a, ty)"
  shows "a \<in># image_mset slot_addr (nd_entries t)"
proof -
  obtain sl where "nd_view t k = Some sl" "slot_value sl = (a, ty)"
    using assms(2) by (auto simp: nd_value_def split: option.splits if_splits)
  then show ?thesis using nd_view_iff [OF assms(1)] by (auto simp: slot_value_def slot_addr_def)
qed

text \<open>What the adapter holds for a key at a time.\<close>

definition st_value :: "NdStore \<Rightarrow> u64 \<Rightarrow> bytes \<Rightarrow> NDValue option" where
  "st_value s now k = (case nd_value (ns_table s) now k of None \<Rightarrow> None | Some (a, ty) \<Rightarrow> ns_heap s a)"

lemma store_okD:
  assumes "store_ok s"
  shows "nd_inv (ns_table s)" "nd_owned (mset (nd_freed (ns_table s)) + image_mset slot_addr (nd_entries (ns_table s))) (ns_table s)"
    "finite (dom (ns_heap s))" "image_mset slot_addr (nd_entries (ns_table s)) = mset_set (dom (ns_heap s))"
  using assms by (auto simp: store_ok_def nd_owned_def)

lemma store_live:
  assumes "store_ok s" "nd_value (ns_table s) now k = Some (a, ty)"
  obtains v where "ns_heap s a = Some v" "a \<noteq> 0"
proof -
  have "a \<in># image_mset slot_addr (nd_entries (ns_table s))" using nd_value_addr [OF store_okD(1) assms(2)] assms(1) by simp
  then obtain sl where sl: "sl \<in># nd_entries (ns_table s)" "a = slot_addr sl" by auto
  then have "a \<noteq> 0" using store_okD(2) [OF assms(1)] by (auto simp: nd_owned_def slot_ready_def)
  moreover have "a \<in># mset_set (dom (ns_heap s))" unfolding store_okD(4) [OF assms(1), symmetric] using sl by auto
  then have "a \<in> dom (ns_heap s)" using store_okD(3) [OF assms(1)] by simp
  ultimately show thesis using that by blast
qed

text \<open>A table operation that hands over nothing new: it commits, keeps the blocks of the entries, and shows the same values.\<close>

lemma commit_same:
  assumes s: "store_ok s" and g: "freed_more (ns_table s) t"
    and o: "nd_owned (mset (nd_freed (ns_table s)) + image_mset slot_addr (nd_entries (ns_table s))) t"
  shows "\<exists>s'. nd_commit s t = Some s' \<and> ns_table s' = t \<and> store_ok s' \<and> ns_heap s' \<subseteq>\<^sub>m ns_heap s"
proof -
  let ?fs = "drop (length (nd_freed (ns_table s))) (nd_freed t)"
  note d = store_okD [OF s]
  have e: "mset_set (dom (ns_heap s)) = mset ?fs + image_mset slot_addr (nd_entries t)"
    using owned_same [OF d(2) o g] d(4) by simp
  obtain h where h: "nd_commit s t = Some \<lparr>ns_table = t, ns_heap = h\<rparr>" "h \<subseteq>\<^sub>m ns_heap s"
    "mset_set (dom h) = mset_set (dom (ns_heap s)) - mset ?fs" "finite (dom h)"
    using commit_ok [OF g o d(3)] e by auto
  have "nd_owned (mset (nd_freed t) + image_mset slot_addr (nd_entries t)) t" using o by (simp add: nd_owned_def)
  then show ?thesis using h e by (simp add: store_ok_def)
qed

lemma commit_same_value:
  assumes "store_ok s'" "ns_heap s' \<subseteq>\<^sub>m ns_heap s" "nd_value (ns_table s') now k = nd_value (ns_table s) now k"
  shows "st_value s' now k = st_value s now k"
proof (cases "nd_value (ns_table s') now k")
  case (Some r)
  obtain a ty where r: "r = (a, ty)" by (cases r)
  obtain v where "ns_heap s' a = Some v" using store_live [OF assms(1)] Some r by blast
  moreover then have "ns_heap s a = Some v" using assms(2) by (metis domI map_le_def)
  ultimately show ?thesis using Some r assms(3) by (simp add: st_value_def)
qed (use assms in \<open>simp add: st_value_def\<close>)

subsection \<open>The operations of the adapter\<close>

text \<open>
  The contract of \<open>malloc\<close>: a new block has a 48-bit address other than 0 that is not in use.  The store
  admits a key of at most 255 bytes with room in the 32-bit key pool; the type is one of those with a
  4-bit code.
\<close>

definition malloc_ok :: "StorageEnv \<Rightarrow> bool" where
  "malloc_ok e \<longleftrightarrow> (\<forall>h a. ev_malloc e h = Some a \<longrightarrow> a \<noteq> 0 \<and> a < 2 ^ 48 \<and> h a = None)"

definition nd_admits :: "NdStore \<Rightarrow> bytes \<Rightarrow> NexDataType \<Rightarrow> bool" where
  "nd_admits s k type \<longleftrightarrow> length k \<le> 255 \<and> nd_room (ns_table s) k \<and> type \<noteq> NEXDT_UNKNOWN \<and> nd_cost (ns_table s) + 2 ^ 33 < 2 ^ 64"

text \<open>Memory and a free slot for a key that is not in the table.\<close>

definition nd_space :: "StorageEnv \<Rightarrow> NdStore \<Rightarrow> bytes \<Rightarrow> bool" where
  "nd_space e s k \<longleftrightarrow> k \<noteq> [] \<and> ev_realloc_ok e \<and> ev_malloc e (ns_heap s) \<noteq> None \<and> nd_view (ns_table s) k = None \<and>
     length (segment_slots (nd_directory (ns_table s) ! segment_of (ns_table s) (fnv1a_64 k))) < 224"

lemma get_frame:
  assumes "nexdash_get_nolock now t (Some k) = (t', r)"
  shows "nd_key_pool t' = nd_key_pool t" "nd_key_pool_cap t' = nd_key_pool_cap t" "nd_used_memory t' \<le> nd_used_memory t"
proof -
  have rm: "nd_used_memory (nd_remove t p) \<le> nd_used_memory t" for p
    by (simp add: Let_def word_le_nat_alt word_less_nat_alt unat_sub_if')
  have f: "nd_key_pool t1 = nd_key_pool t \<and> nd_key_pool_cap t1 = nd_key_pool_cap t \<and> nd_used_memory t1 \<le> nd_used_memory t"
    if "nd_find_slot True True now t k h False = Some (t1, q)" for t1 q h
    using that rm by (auto simp: nd_find_slot_def split: option.splits if_splits)
  show "nd_key_pool t' = nd_key_pool t" "nd_key_pool_cap t' = nd_key_pool_cap t" "nd_used_memory t' \<le> nd_used_memory t"
    using assms f
    by (fastforce simp: nexdash_get_nolock_def count_miss_def Let_def split: option.splits if_splits)+
qed

text \<open>Looking a key up in the table and committing, as \<open>ndapi_get\<close> and \<open>ndapi_rmw\<close> begin.\<close>

lemma table_get:
  assumes s: "store_ok s"
  shows "\<exists>t s'. nexdash_get_nolock now (ns_table s) (Some k) = (t, nd_value (ns_table s) now k) \<and> nd_commit s t = Some s' \<and>
    store_ok s' \<and> (\<forall>now' \<ge> now. st_value s' now' = st_value s now') \<and>
    (\<forall>k type. nd_admits s k type \<longrightarrow> nd_admits s' k type) \<and> (\<forall>e. nd_space e s k \<longrightarrow> nd_space e s' k) \<and>
    (case nd_value (ns_table s) now k of None \<Rightarrow> st_value s now k = None
     | Some (a, ty) \<Rightarrow> a \<noteq> 0 \<and> (\<exists>x. ns_heap s' a = Some x \<and> st_value s now k = Some x))"
proof -
  note d = store_okD [OF s]
  obtain t where t: "nexdash_get_nolock now (ns_table s) (Some k) = (t, nd_value (ns_table s) now k)"
    "\<forall>now' \<ge> now. nd_value t now' = nd_value (ns_table s) now'"
    using get_effect [OF d(1)] by blast
  have g: "freed_more (ns_table s) t" using freed_more_get [of "ns_table s" now "Some k"] t(1) by simp
  have o: "nd_owned (mset (nd_freed (ns_table s)) + image_mset slot_addr (nd_entries (ns_table s))) t"
    using get_owned [OF d(2), of now "Some k"] t(1) by simp
  obtain s' where s': "nd_commit s t = Some s'" "ns_table s' = t" "store_ok s'" "ns_heap s' \<subseteq>\<^sub>m ns_heap s"
    using commit_same [OF s g o] by blast
  have v: "st_value s' now' = st_value s now'" if "now \<le> now'" for now'
    using commit_same_value [OF s'(3,4)] t(2) that s'(2) by (simp add: fun_eq_iff)
  note f = get_frame [OF t(1)]
  have "nd_cost t \<le> nd_cost (ns_table s)"
    using f(3) o d(2) by (simp add: nd_owned_def word_le_nat_alt)
  then have adm: "\<forall>k type. nd_admits s k type \<longrightarrow> nd_admits s' k type"
    using f(1,2) by (simp add: nd_admits_def nd_room_def s'(2))
  have "case nd_value (ns_table s) now k of None \<Rightarrow> st_value s now k = None
     | Some (a, ty) \<Rightarrow> a \<noteq> 0 \<and> (\<exists>x. ns_heap s' a = Some x \<and> st_value s now k = Some x)"
  proof (cases "nd_value (ns_table s) now k")
    case None
    then show ?thesis by (simp add: st_value_def)
  next
    case (Some r)
    obtain a ty where r: "r = (a, ty)" by (cases r)
    have n: "nd_value (ns_table s') now k = Some (a, ty)" using t(2) Some r s'(2) by simp
    obtain x where x: "ns_heap s' a = Some x" "a \<noteq> 0" using store_live [OF s'(3) n] .
    have "st_value s' now k = Some x" using n x by (simp add: st_value_def)
    then show ?thesis using v [of now] Some r x by simp
  qed
  moreover have "nd_space e s k \<longrightarrow> nd_space e s' k" for e
  proof
    assume sp: "nd_space e s k"
    then have "t = count_miss (ns_table s)" using t(1) nexdash_get_absent [of "ns_table s" k now] by (simp add: nd_space_def)
    moreover from this have "ns_heap s' = ns_heap s" using s'(1) by (auto simp: nd_commit_def)
    ultimately show "nd_space e s' k" using sp s'(2) by (simp add: nd_space_def segment_of_def) (simp add: count_miss_def)
  qed
  ultimately show ?thesis using t(1) s'(1,3) v adm by blast
qed

lemma ndapi_get_effect:
  assumes s: "store_ok s"
  shows "\<exists>s'. ndapi_get e s k = Some (s', case (if length k > 255 then None else st_value s (ev_clock e 0) k) of
        None \<Rightarrow> (if length k > 255 then NEXS_TOO_LARGE else NEXS_NOT_FOUND, None)
      | Some v \<Rightarrow> if length (nv_data v) > 1024 * 1024 then (NEXS_TOO_LARGE, None)
                  else (NEXS_OK, Some \<lparr>ne_value = Some (nv_data v), ne_type = nv_type v,
                          ne_ttl_ms = nd_remaining (ev_clock e 1) (nv_expire_us v), ne_version = nv_version v\<rparr>)) \<and>
    store_ok s' \<and> (\<forall>now \<ge> ev_clock e 0. st_value s' now = st_value s now)"
proof (cases "length k > 255")
  case True
  then show ?thesis using s by (simp add: ndapi_get_def ND_MAX_KEY_LEN_def)
next
  case False
  show ?thesis using table_get [OF s, of "ev_clock e 0" k] False
    by (auto simp: ndapi_get_def ND_MAX_KEY_LEN_def split: option.splits)
qed

lemma ndapi_del_effect:
  assumes s: "store_ok s"
  shows "\<exists>s' r. ndapi_del e s k = Some (s', r) \<and> store_ok s' \<and> r \<in> {NEXS_OK, NEXS_NOT_FOUND} \<and>
    (r \<noteq> NEXS_OK \<longrightarrow> length k > 255 \<or> (\<forall>now. st_value s now k = None)) \<and>
    (\<forall>now. st_value s' now = (if length k > 255 then st_value s now else (st_value s now)(k := None)))"
proof (cases "length k > 255")
  case True
  then show ?thesis using s by (simp add: ndapi_del_def ND_MAX_KEY_LEN_def)
next
  case False
  note d = store_okD [OF s]
  obtain t where t: "nexdash_del (ns_table s) (Some k) = (t, nd_view (ns_table s) k \<noteq> None)"
    "nd_view t = (nd_view (ns_table s))(k := None)"
    using del_effect [OF d(1)] by blast
  have g: "freed_more (ns_table s) t" using freed_more_del [of "ns_table s" "Some k"] t(1) by simp
  have o: "nd_owned (mset (nd_freed (ns_table s)) + image_mset slot_addr (nd_entries (ns_table s))) t"
    using del_owned [OF d(2), of "Some k"] t(1) by simp
  obtain s' where s': "nd_commit s t = Some s'" "ns_table s' = t" "store_ok s'" "ns_heap s' \<subseteq>\<^sub>m ns_heap s"
    using commit_same [OF s g o] by blast
  have "st_value s' now k' = ((st_value s now)(k := None)) k'" for now k'
  proof (cases "k' = k")
    case True
    then show ?thesis using t(2) s'(2) by (simp add: st_value_def nd_value_def)
  next
    case False
    then have "nd_value (ns_table s') now k' = nd_value (ns_table s) now k'" using t(2) s'(2) by (simp add: nd_value_def)
    then show ?thesis using commit_same_value [OF s'(3,4)] False by simp
  qed
  moreover have "nd_view (ns_table s) k = None \<Longrightarrow> st_value s now k = None" for now by (simp add: st_value_def nd_value_def)
  ultimately show ?thesis using False t(1) s' by (auto simp: ndapi_del_def ND_MAX_KEY_LEN_def)
qed

definition deadline_passed :: "u64 \<Rightarrow> u64 \<Rightarrow> bool" where
  "deadline_passed x now \<longleftrightarrow> encode_expire x \<noteq> 0 \<and> decode_expire (encode_expire x) \<le> now"

lemma nexdt_code_ok: "type \<noteq> NEXDT_UNKNOWN \<Longrightarrow> nexdt_code type < 2 ^ 4 \<and> nexdt_code type \<noteq> NTYPE_DELETED"
  by (cases type) (simp_all add: NTYPE_DELETED_def)

text \<open>The table operation behind a set, for an admitted key.\<close>

lemma set_outcome:
  assumes inv: "nd_inv (ns_table s)" and o: "nd_owned H (ns_table s)" and adm: "nd_admits s k type" and a: "a \<noteq> 0" "a < 2 ^ 48"
  shows "\<exists>t ok. nexdash_set_nolock ao ro now (ns_table s) (Some k) a vsz (nexdt_code type) x = Some (t, ok) \<and>
    freed_more (ns_table s) t \<and> nd_owned (if ok then add_mset a H else H) t \<and>
    (ok \<longrightarrow> (\<exists>sl. nd_view t = (nd_view (ns_table s))(k \<mapsto> sl) \<and> slot_value sl = (a, nexdt_code type) \<and> sl_expire_us32 sl = encode_expire x)) \<and>
    (\<not> ok \<longrightarrow> (\<forall>now' \<ge> now. nd_value t now' = nd_value (ns_table s) now')) \<and> (nd_value (ns_table s) now k \<noteq> None \<longrightarrow> ok) \<and>
    (k \<noteq> [] \<and> nd_view (ns_table s) k = None \<and> ro \<and> length (segment_slots (nd_directory (ns_table s) ! segment_of (ns_table s) (fnv1a_64 k))) < 224 \<longrightarrow> ok)"
proof (cases "k = []")
  case True
  have "nd_value (ns_table s) now [] = None"
  proof (cases "nd_view (ns_table s) []")
    case (Some sl)
    then have "sl \<in># nd_entries (ns_table s)" "nd_stored_key (ns_table s) sl = []" using nd_view_iff [OF inv] by auto
    then show ?thesis using inv by (auto simp: nd_inv_def entry_ok_def)
  qed (simp add: nd_value_def)
  then show ?thesis using o True
    by (intro exI [of _ "ns_table s"] exI [of _ False]) (simp add: nexdash_set_nolock_def freed_more_refl)
next
  case False
  have k: "length k \<le> 255" and room: "nd_room (ns_table s) k" and ty: "nexdt_code type < 2 ^ 4" "nexdt_code type \<noteq> NTYPE_DELETED"
    and mem: "nd_cost (ns_table s) + unat vsz + 32 < 2 ^ 64"
    using adm nexdt_code_ok unat_bound [of vsz] by (auto simp: nd_admits_def)
  obtain t ok where t: "nexdash_set_nolock ao ro now (ns_table s) (Some k) a vsz (nexdt_code type) x = Some (t, ok)"
    and r: "ok \<longrightarrow> (\<exists>sl. nd_view t = (nd_view (ns_table s))(k \<mapsto> sl) \<and> slot_value sl = (a, nexdt_code type) \<and> sl_expire_us32 sl = encode_expire x)"
      "\<not> ok \<longrightarrow> (\<forall>now' \<ge> now. nd_value t now' = nd_value (ns_table s) now')" "nd_value (ns_table s) now k \<noteq> None \<longrightarrow> ok"
      "nd_view (ns_table s) k = None \<and> ro \<and> length (segment_slots (nd_directory (ns_table s) ! segment_of (ns_table s) (fnv1a_64 k))) < 224 \<longrightarrow> ok"
    using set_effect [OF inv False k room a(2) ty(1), of ao ro now vsz x] by blast
  show ?thesis using t r freed_more_set [OF inv False k room a(2) ty(1) t] set_owned [OF o False k room a(2,1) ty mem t] by blast
qed

lemma value_transfer:
  assumes s: "store_ok s" and s': "store_ok s'" and h: "ns_heap s' \<subseteq>\<^sub>m (ns_heap s)(a \<mapsto> x)" and a: "ns_heap s a = None"
    and v: "nd_value (ns_table s') now k = nd_value (ns_table s) now k"
  shows "st_value s' now k = st_value s now k"
proof (cases "nd_value (ns_table s) now k")
  case (Some r)
  obtain b ty where r: "r = (b, ty)" by (cases r)
  obtain y where y: "ns_heap s b = Some y" using store_live [OF s] Some r by blast
  obtain z where z: "ns_heap s' b = Some z" using store_live [OF s'] v Some r by metis
  have "b \<noteq> a" using a y by auto
  then have "y = z" using h y z unfolding map_le_def by (metis domI fun_upd_other option.inject)
  then show ?thesis using Some r v y z by (simp add: st_value_def)
qed (use v in \<open>simp add: st_value_def\<close>)

text \<open>A commit after a block at a fresh address was handed over, kept or not.\<close>

lemma commit_new:
  assumes s: "store_ok s" and a: "ns_heap s a = None" and g: "freed_more (ns_table s) t"
    and o: "nd_owned (if ok then add_mset a (mset (nd_freed (ns_table s)) + image_mset slot_addr (nd_entries (ns_table s)))
              else mset (nd_freed (ns_table s)) + image_mset slot_addr (nd_entries (ns_table s))) t"
  shows "\<exists>s'. nd_commit (s\<lparr>ns_heap := (ns_heap s)(a \<mapsto> x)\<rparr>) t = Some s' \<and> ns_table s' = t \<and> ns_heap s' \<subseteq>\<^sub>m (ns_heap s)(a \<mapsto> x) \<and>
    store_ok (if ok then s' else s'\<lparr>ns_heap := (ns_heap s')(a := None)\<rparr>)"
proof -
  let ?fs = "drop (length (nd_freed (ns_table s))) (nd_freed t)" and ?E = "image_mset slot_addr (nd_entries (ns_table s))"
    and ?E' = "image_mset slot_addr (nd_entries t)" and ?s = "s\<lparr>ns_heap := (ns_heap s)(a \<mapsto> x)\<rparr>"
  note d = store_okD [OF s]
  have da: "a \<notin> dom (ns_heap s)" using a by auto
  then have m: "mset_set (dom (ns_heap ?s)) = add_mset a ?E" using d(3,4) by simp
  have "nd_owned (mset (nd_freed (ns_table s)) + (if ok then add_mset a ?E else ?E)) t" using o by (cases ok) simp_all
  note e = owned_same [OF d(2) this g]
  have sub: "mset ?fs \<subseteq># mset_set (dom (ns_heap ?s))"
  proof (cases ok)
    case False
    then have "mset ?fs \<subseteq># ?E" using e by simp
    then show ?thesis unfolding m by (metis subset_mset.order_trans mset_subset_eq_add_mset_cancel mset_subset_eq_add_right add_mset_add_single mset_subset_eq_add_left)
  qed (use e m in simp)
  obtain h where h: "nd_commit ?s t = Some \<lparr>ns_table = t, ns_heap = h\<rparr>" "h \<subseteq>\<^sub>m ns_heap ?s"
    "mset_set (dom h) = mset_set (dom (ns_heap ?s)) - mset ?fs" "finite (dom h)"
    using commit_ok [of ?s t, OF _ o] g d(3) sub by auto
  have ot: "nd_owned (mset (nd_freed t) + ?E') t" using o by (cases ok) (simp_all add: nd_owned_def)
  show ?thesis
  proof (cases ok)
    case True
    then have "mset_set (dom h) = ?E'" using e h(3) m by simp
    then show ?thesis using True h ot by (simp add: store_ok_def)
  next
    case False
    then have "mset_set (dom h) = add_mset a ?E'" using e h(3) m by simp
    moreover then have "a \<in> dom h" using h(4) by (metis finite_set_mset_mset_set union_single_eq_member)
    ultimately have "mset_set (dom h - {a}) = ?E'" using h(4) by (simp add: mset_set_Diff)
    then show ?thesis using False h ot by (simp add: store_ok_def)
  qed
qed

lemma store_value_effect:
  assumes s: "store_ok s" and m: "malloc_ok e" and adm: "nd_admits s k type"
  shows "\<exists>s' r. nd_store_value e s k v type ttl = Some (s', r) \<and> store_ok s' \<and> r \<in> {NEXS_OK, NEXS_ERROR} \<and>
    (r = NEXS_OK \<longrightarrow> (\<forall>now. st_value s' now = (st_value s now)(k :=
       if 0 \<le> ttl \<and> deadline_passed (nd_deadline (ev_clock e 4) ttl) now then None else Some (nd_new_value e v type ttl)))) \<and>
    (r \<noteq> NEXS_OK \<longrightarrow> (\<forall>now \<ge> ev_clock e 5. st_value s' now = st_value s now)) \<and>
    (st_value s (ev_clock e 5) k \<noteq> None \<and> ev_malloc e (ns_heap s) \<noteq> None \<or> nd_space e s k \<longrightarrow> r = NEXS_OK)"
proof (cases "ev_malloc e (ns_heap s)")
  case None
  then show ?thesis using s by (simp add: nd_store_value_def nd_space_def)
next
  case (Some a)
  have a: "a \<noteq> 0" "a < 2 ^ 48" "ns_heap s a = None" using m Some by (auto simp: malloc_ok_def)
  let ?x = "nd_new_value e v type ttl" and ?d = "if 0 \<le> ttl then nd_deadline (ev_clock e 4) ttl else 0"
    and ?sz = "32 + of_nat (length v) :: u32" and ?now = "ev_clock e 5"
  note d = store_okD [OF s]
  let ?H = "mset (nd_freed (ns_table s)) + image_mset slot_addr (nd_entries (ns_table s))"
  obtain t ok where t: "nexdash_set_nolock (ev_arena_ok e) (ev_realloc_ok e) ?now (ns_table s) (Some k) a ?sz (nexdt_code type) ?d = Some (t, ok)"
    and g: "freed_more (ns_table s) t" and o: "nd_owned (if ok then add_mset a ?H else ?H) t"
    and vw: "ok \<Longrightarrow> \<exists>sl. nd_view t = (nd_view (ns_table s))(k \<mapsto> sl) \<and> slot_value sl = (a, nexdt_code type) \<and> sl_expire_us32 sl = encode_expire ?d"
    and nv: "\<not> ok \<Longrightarrow> \<forall>now \<ge> ?now. nd_value t now = nd_value (ns_table s) now"
    and ex: "nd_value (ns_table s) ?now k \<noteq> None \<or> nd_space e s k \<Longrightarrow> ok"
    using set_outcome [OF d(1,2) adm a(1,2), of "ev_arena_ok e" "ev_realloc_ok e" ?now ?sz ?d] unfolding nd_space_def by blast
  obtain s' where s': "nd_commit (s\<lparr>ns_heap := (ns_heap s)(a \<mapsto> ?x)\<rparr>) t = Some s'" "ns_table s' = t"
    "ns_heap s' \<subseteq>\<^sub>m (ns_heap s)(a \<mapsto> ?x)" "store_ok (if ok then s' else s'\<lparr>ns_heap := (ns_heap s')(a := None)\<rparr>)"
    using commit_new [OF s a(3) g o] by blast
  have live: "nd_value (ns_table s) ?now k \<noteq> None" if "st_value s ?now k \<noteq> None"
    using that by (auto simp: st_value_def split: option.splits)
  show ?thesis
  proof (cases ok)
    case True
    then obtain sl where sl: "nd_view t = (nd_view (ns_table s))(k \<mapsto> sl)" "slot_value sl = (a, nexdt_code type)"
      "sl_expire_us32 sl = encode_expire ?d" using vw by blast
    have ok': "store_ok s'" using s'(4) True by simp
    have x: "nd_value t now k = (if 0 \<le> ttl \<and> deadline_passed ?d now then None else Some (a, nexdt_code type))" for now
      using sl by (auto simp: nd_value_def slot_expired_def deadline_passed_def encode_expire_def)
    have "st_value s' now k = (if 0 \<le> ttl \<and> deadline_passed ?d now then None else Some ?x)" for now
    proof (cases "0 \<le> ttl \<and> deadline_passed ?d now")
      case False
      then have n: "nd_value (ns_table s') now k = Some (a, nexdt_code type)" using x s'(2) by simp
      obtain y where y: "ns_heap s' a = Some y" using store_live [OF ok' n] .
      then have "y = ?x" using s'(3) unfolding map_le_def by (metis domI fun_upd_same option.inject)
      then show ?thesis using False n y by (simp add: st_value_def)
    next
      case True
      then have "nd_value (ns_table s') now k = None" unfolding s'(2) x by (rule if_P)
      then have "st_value s' now k = None" by (simp add: st_value_def)
      then show ?thesis using True by presburger
    qed
    moreover have "st_value s' now k' = st_value s now k'" if "k' \<noteq> k" for now k'
      by (rule value_transfer [OF s ok' s'(3) a(3)]) (use sl(1) s'(2) that in \<open>simp add: nd_value_def\<close>)
    ultimately have "st_value s' now = (st_value s now)(k :=
       if 0 \<le> ttl \<and> deadline_passed (nd_deadline (ev_clock e 4) ttl) now then None else Some ?x)" for now by (auto simp: fun_eq_iff)
    then show ?thesis using Some t s'(1) True ok' by (simp add: nd_store_value_def Let_def)
  next
    case False
    let ?s = "s'\<lparr>ns_heap := (ns_heap s')(a := None)\<rparr>"
    have ok': "store_ok ?s" using s'(4) False by simp
    have h: "ns_heap ?s \<subseteq>\<^sub>m (ns_heap s)(a \<mapsto> ?x)" using s'(3) by (auto simp: map_le_def dom_def)
    have "st_value ?s now k' = st_value s now k'" if "?now \<le> now" for now k'
      by (rule value_transfer [OF s ok' h a(3)]) (use nv [OF False] that s'(2) in simp)
    moreover have "st_value s ?now k = None" "\<not> nd_space e s k" using ex live False by blast+
    ultimately show ?thesis using Some t s'(1) False ok' by (simp add: nd_store_value_def Let_def fun_eq_iff)
  qed
qed

lemma commit_dom:
  assumes "nd_commit s t = Some s'"
  shows "dom (ns_heap s') \<subseteq> dom (ns_heap s)"
proof -
  have d: "ndvalue_free_cb as h = Some h' \<Longrightarrow> dom h' \<subseteq> dom h" for as h h'
    by (induction as h rule: ndvalue_free_cb.induct) (auto split: option.splits if_splits)
  obtain h' where "ndvalue_free_cb (drop (length (nd_freed (ns_table s))) (nd_freed t)) (ns_heap s) = Some h'" "ns_heap s' = h'"
    using assms by (auto simp: nd_commit_def)
  then show ?thesis using d by blast
qed

lemma ndapi_rmw_effect:
  assumes s: "store_ok s" and m: "malloc_ok e" and adm: "nd_admits s k (ne_type en)" and clk: "ev_clock e 0 \<le> ev_clock e 5"
    and cb: "cb (nd_rmw_entry (ev_clock e 1) (st_value s (ev_clock e 0) k)) = (en, res, out)"
  shows "\<exists>s' r. ndapi_rmw e s k cb out0 = Some (s', r, out) \<and> store_ok s' \<and>
    (res \<noteq> NEXS_OK \<longrightarrow> r = res) \<and> (res = NEXS_OK \<longrightarrow> r \<in> {NEXS_OK, NEXS_ERROR}) \<and>
    (res = NEXS_OK \<and> nd_space e s k \<longrightarrow> r = NEXS_OK) \<and>
    (res = NEXS_OK \<and> st_value s (ev_clock e 5) k \<noteq> None \<and> (\<forall>h. dom h \<subseteq> dom (ns_heap s) \<longrightarrow> ev_malloc e h \<noteq> None) \<longrightarrow> r = NEXS_OK) \<and>
    (\<forall>now \<ge> ev_clock e 5. st_value s' now =
       (if r = NEXS_OK then (st_value s now)(k :=
          if 0 \<le> ne_ttl_ms en \<and> deadline_passed (nd_deadline (ev_clock e 4) (ne_ttl_ms en)) now then None
          else Some (nd_new_value e (case ne_value en of None \<Rightarrow> [] | Some v \<Rightarrow> v) (ne_type en) (ne_ttl_ms en)))
        else st_value s now))"
proof -
  let ?old = "st_value s (ev_clock e 0) k"
  have k: "\<not> length k > 255" using adm by (simp add: nd_admits_def)
  obtain t s1 where t: "nexdash_get_nolock (ev_clock e 0) (ns_table s) (Some k) = (t, nd_value (ns_table s) (ev_clock e 0) k)"
      "nd_commit s t = Some s1" "store_ok s1" "\<forall>now' \<ge> ev_clock e 0. st_value s1 now' = st_value s now'" "nd_admits s1 k (ne_type en)"
      "nd_space e s k \<longrightarrow> nd_space e s1 k"
      "case nd_value (ns_table s) (ev_clock e 0) k of None \<Rightarrow> ?old = None
       | Some (a, ty) \<Rightarrow> a \<noteq> 0 \<and> (\<exists>x. ns_heap s1 a = Some x \<and> ?old = Some x)"
    using table_get [OF s, of "ev_clock e 0" k] adm by blast
  have "ndapi_rmw e s k cb out0 = nd_rmw_update e s1 k cb ?old"
    using t(1,2,7) k by (auto simp: ndapi_rmw_def ND_MAX_KEY_LEN_def split: option.splits)
  then have u: "ndapi_rmw e s k cb out0 = (if res = NEXS_OK
      then map_option (\<lambda>(s1, r). (s1, r, out)) (nd_store_value e s1 k (case ne_value en of None \<Rightarrow> [] | Some v \<Rightarrow> v) (ne_type en) (ne_ttl_ms en))
      else Some (s1, res, out))"
    by (simp only: nd_rmw_update_def cb prod.case)
  have v: "st_value s1 now = st_value s now" if "ev_clock e 5 \<le> now" for now using t(4) that clk by (meson order_trans)
  show ?thesis
  proof (cases "res = NEXS_OK")
    case False
    then show ?thesis using u t(3) v by simp
  next
    case True
    then show ?thesis
      using u v t(6) v [OF order_refl] commit_dom [OF t(2)] store_value_effect [OF t(3) m t(5), of "case ne_value en of None \<Rightarrow> [] | Some v \<Rightarrow> v" "ne_ttl_ms en"] by fastforce
  qed
qed

subsection \<open>Runs of the adapter\<close>

lemma those_map_some: "(\<And>x. x \<in> set xs \<Longrightarrow> f x \<noteq> None) \<Longrightarrow> those (map f xs) \<noteq> None"
proof (induction xs)
  case (Cons x xs)
  then have "f x \<noteq> None" "those (map f xs) \<noteq> None" by simp_all
  then show ?case by auto
qed simp

lemma ndapi_scan_safe:
  assumes s: "store_ok s"
  shows "ndapi_scan e s \<noteq> None"
proof -
  have "nd_scan_adapter (ns_heap s) c \<noteq> None" if c: "c \<in> set (nexdash_scan now (ns_table s))" for c now
  proof -
    obtain p where p: "c = nd_report (ns_table s) (nd_slot (ns_table s) p)" "nd_valid (ns_table s) p" "nd_occupied (ns_table s) p"
      using c by (auto simp: nexdash_scan_def table_positions_valid)
    then have "nd_slot (ns_table s) p \<in># nd_entries (ns_table s)" unfolding in_entries by blast
    then have "slot_addr (nd_slot (ns_table s) p) \<in># mset_set (dom (ns_heap s))"
      unfolding store_okD(4) [OF s, symmetric] by simp
    then have "slot_addr (nd_slot (ns_table s) p) \<in> dom (ns_heap s)" using store_okD(3) [OF s] by simp
    then show ?thesis by (auto simp: p(1) nd_scan_adapter_def nd_report_def slot_addr_def)
  qed
  then show ?thesis
    using those_map_some [of "nexdash_scan (ev_clock e 0) (ns_table s)" "nd_scan_adapter (ns_heap s)"] by (simp add: ndapi_scan_def)
qed

lemma ndapi_expire_effect:
  assumes s: "store_ok s"
  shows "\<exists>s' r. ndapi_expire e s k ttl = Some (s', r) \<and> store_ok s'"
proof (cases "length k > 255")
  case True
  then show ?thesis using s by (simp add: ndapi_expire_def ND_MAX_KEY_LEN_def)
next
  case False
  let ?x = "if 0 \<le> ttl then nd_deadline (ev_clock e 0) ttl else 0"
  obtain t rc where t: "nexdash_expire (ev_clock e 1) (ns_table s) (Some k) ?x = (t, rc)" by fastforce
  have "freed_more (ns_table s) t"
    "nd_owned (mset (nd_freed (ns_table s)) + image_mset slot_addr (nd_entries (ns_table s))) t"
    using freed_more_expire [of "ns_table s" "ev_clock e 1" "Some k" ?x] expire_owned [OF store_okD(2) [OF s], of "ev_clock e 1" "Some k" ?x] t
    by simp_all
  from commit_same [OF s this] show ?thesis using False t by (auto simp: ndapi_expire_def ND_MAX_KEY_LEN_def Let_def)
qed

lemma ndapi_exists_effect:
  assumes s: "store_ok s"
  shows "\<exists>s' r. ndapi_exists e s k = Some (s', r) \<and> store_ok s'"
  using s table_get [OF s, of "ev_clock e 0" k]
  by (fastforce simp: ndapi_exists_def nexdash_exists_def ND_MAX_KEY_LEN_def)

text \<open>The life of a store, driven by any sequence of calls with any clocks and allocation outcomes.
  What a callback reports besides the entry does not reach the store, so it is left empty here.\<close>

inductive nd_store_run :: "NdStore \<Rightarrow> bool" where
  create: "ndapi_create fuel arena_ok bloom config_str = Some (Some s) \<Longrightarrow>
     (case bloom of None \<Rightarrow> True | Some b \<Rightarrow> nexbloom_wf b) \<Longrightarrow> nd_store_run s"
| get: "nd_store_run s \<Longrightarrow> ndapi_get e s k = Some (s', r, en) \<Longrightarrow> nd_store_run s'"
| set: "nd_store_run s \<Longrightarrow> malloc_ok e \<Longrightarrow> nd_admits s k type \<Longrightarrow> ndapi_set e s k v type ttl = Some (s', r) \<Longrightarrow> nd_store_run s'"
| del: "nd_store_run s \<Longrightarrow> ndapi_del e s k = Some (s', r) \<Longrightarrow> nd_store_run s'"
| exists: "nd_store_run s \<Longrightarrow> ndapi_exists e s k = Some (s', b) \<Longrightarrow> nd_store_run s'"
| expire: "nd_store_run s \<Longrightarrow> ndapi_expire e s k ttl = Some (s', r) \<Longrightarrow> nd_store_run s'"
| rmw: "nd_store_run s \<Longrightarrow> malloc_ok e \<Longrightarrow> ev_clock e 0 \<le> ev_clock e 5 \<Longrightarrow>
     (cb :: unit rmw_callback) (nd_rmw_entry (ev_clock e 1) (st_value s (ev_clock e 0) k)) = (en, res, out) \<Longrightarrow>
     nd_admits s k (ne_type en) \<Longrightarrow> ndapi_rmw e s k cb out0 = Some (s', r, out') \<Longrightarrow> nd_store_run s'"
| snapshot_start: "nd_store_run s \<Longrightarrow> nd_store_run (fst (ndapi_snapshot_start s))"
| snapshot_end: "nd_store_run s \<Longrightarrow> nd_store_run (fst (ndapi_snapshot_end s))"

lemma store_ok_cong:
  assumes "nd_directory t = nd_directory (ns_table s)" "nd_key_pool t = nd_key_pool (ns_table s)" "nd_bloom t = nd_bloom (ns_table s)"
    "nd_free_cb t = nd_free_cb (ns_table s)" "nd_freed t = nd_freed (ns_table s)" "nd_used_memory t = nd_used_memory (ns_table s)"
  shows "store_ok (s\<lparr>ns_table := t\<rparr>) = store_ok s"
  using nd_owned_cong [OF assms] nd_inv_cong(3) [OF assms(1-3)] assms(5) by (simp add: store_ok_def)

lemma ndapi_create_ok:
  assumes "ndapi_create fuel arena_ok bloom config_str = Some (Some s)" "case bloom of None \<Rightarrow> True | Some b \<Rightarrow> nexbloom_wf b"
  shows "store_ok s" "ns_heap s = Map.empty"
proof -
  obtain t where t: "nexdash_create fuel True 4 (cfg_max_memory config_str) bloom = Some (Some t)"
    and s: "s = \<lparr>ns_table = nexdash_set_free_cb t True, ns_heap = Map.empty\<rparr>"
    using assms(1) by (auto simp: ndapi_create_def nexdash_create_def split: option.splits if_splits)
  have o: "nd_owned {#} (nexdash_set_free_cb t True)" by (rule create_owned [OF t assms(2)])
  then have z: "mset (nd_freed (nexdash_set_free_cb t True)) = {#}" "image_mset slot_addr (nd_entries (nexdash_set_free_cb t True)) = {#}"
    by (simp_all add: nd_owned_def)
  show "store_ok s" using o unfolding store_ok_def s NdStore.simps z by simp
  show "ns_heap s = Map.empty" by (simp add: s)
qed

lemma nd_store_run_ok: "nd_store_run s \<Longrightarrow> store_ok s"
proof (induction rule: nd_store_run.induct)
  case create then show ?case by (rule ndapi_create_ok)
next
  case (get s e k s' r en) then show ?case using ndapi_get_effect [of s e k] by auto
next
  case (set s e k type v ttl s' r)
  then show ?case using store_value_effect [of s e k type v ttl] by (auto simp: ndapi_set_def split: if_splits)
next
  case (del s e k s' r) then show ?case using ndapi_del_effect [of s e k] by auto
next
  case (exists s e k s' b) then show ?case using ndapi_exists_effect [of s e k] by auto
next
  case (expire s e k ttl s' r) then show ?case using ndapi_expire_effect [of s e k ttl] by auto
next
  case (rmw s e cb k en res out out0 s' r out')
  then show ?case using ndapi_rmw_effect [of s e k en cb res out out0] by fastforce
next
  case (snapshot_start s)
  then show ?case using store_ok_cong [of "nexdash_snapshot_start (ns_table s)" s]
    by (simp add: ndapi_snapshot_start_def nexdash_snapshot_start_def)
next
  case (snapshot_end s)
  then show ?case using store_ok_cong [of "nexdash_snapshot_end (ns_table s)" s]
    by (simp add: ndapi_snapshot_end_def nexdash_snapshot_end_def)
qed

text \<open>Destroying a store that was used correctly leaks exactly the values its entries hold.\<close>

lemma ndapi_destroy_leaks:
  assumes "nd_store_run s"
  shows "mset_set (dom (ndapi_destroy s)) = image_mset slot_addr (nd_entries (ns_table s))"
  using store_okD(4) [OF nd_store_run_ok [OF assms]] by (simp add: ndapi_destroy_def)

text \<open>A store with an allocator of one block.\<close>

definition sample_env :: "u64 \<Rightarrow> StorageEnv" where
  "sample_env now = \<lparr>ev_clock = (\<lambda>i. now), ev_time = now div 1000000, ev_malloc = (\<lambda>h. if h 4096 = None then Some 4096 else None),
     ev_arena_ok = True, ev_realloc_ok = True, ev_pwrite = (\<lambda>i. 2 ^ 31), ev_pread = (\<lambda>i. True), ev_junk = (\<lambda>i. 0)\<rparr>"

lemma sample_malloc_ok: "malloc_ok (sample_env now)"
  by (simp add: malloc_ok_def sample_env_def)

definition sample_store :: NdStore where
  "sample_store = \<lparr>ns_table = nexdash_set_free_cb (nexdash_empty 4 (256 * 1024 * 1024) None) True, ns_heap = Map.empty\<rparr>"

lemma sample_store_create: "ndapi_create 1 True None None = Some (Some sample_store)"
  by (simp add: ndapi_create_def nexdash_create_def cfg_max_memory_def sample_store_def)

lemma sample_store_ok: "store_ok sample_store" "nd_store_run sample_store"
  using ndapi_create_ok(1) [OF sample_store_create] nd_store_run.create [OF sample_store_create] by simp_all

lemma sample_store_admits: "length k \<le> 255 \<Longrightarrow> type \<noteq> NEXDT_UNKNOWN \<Longrightarrow> nd_admits sample_store k type"
proof -
  have "nd_entries (ns_table sample_store) = {#}"
    using store_okD(4) [OF sample_store_ok(1)] by (simp add: sample_store_def)
  then show "length k \<le> 255 \<Longrightarrow> type \<noteq> NEXDT_UNKNOWN \<Longrightarrow> nd_admits sample_store k type"
    by (simp add: nd_admits_def nd_cost_def) (simp add: sample_store_def nd_room_def nexdash_set_free_cb_def nexdash_empty_def)
qed

lemma sample_store_view: "nd_view (ns_table sample_store) k = None"
proof -
  have "nd_entries (ns_table sample_store) = {#}"
    using store_okD(4) [OF sample_store_ok(1)] by (simp add: sample_store_def)
  then show ?thesis using nd_view_iff [OF store_okD(1) [OF sample_store_ok(1)], of k] by (cases "nd_view (ns_table sample_store) k") auto
qed

lemma sample_store_empty: "st_value sample_store now k = None"
  by (simp add: st_value_def nd_value_def sample_store_view)

lemma sample_store_space: "k \<noteq> [] \<Longrightarrow> nd_space (sample_env now) sample_store k"
proof -
  have "length (segment_slots (nd_directory (ns_table sample_store) ! segment_of (ns_table sample_store) h)) = 0" for h
    by (simp add: segment_of_def sample_store_def nexdash_empty_def nexdash_set_free_cb_def)
  then show "k \<noteq> [] \<Longrightarrow> nd_space (sample_env now) sample_store k"
    by (simp add: nd_space_def sample_store_view) (simp add: sample_env_def sample_store_def)
qed



text \<open>
  C37. Read-modify-write is one atomic step on the stored map: the callback is given the current value, or
  a zeroed entry for a key that is missing or has expired; if it reports success and the write
  succeeds, as it does with memory for a present key and for a new one with a free slot in its segment, the key then holds
  what the callback left, with its lifetime; in every other case no key changes.
\<close>

theorem ndapi_rmw_spec:
  assumes "store_ok s" and "malloc_ok e" and "ev_clock e 0 \<le> ev_clock e 5"
    and "cb (nd_rmw_entry (ev_clock e 1) (st_value s (ev_clock e 0) k)) = (en, res, out)" and "nd_admits s k (ne_type en)"
  shows "\<exists>s' r. ndapi_rmw e s k cb out0 = Some (s', r, out) \<and> store_ok s' \<and>
    (res \<noteq> NEXS_OK \<longrightarrow> r = res) \<and> (res = NEXS_OK \<longrightarrow> r \<in> {NEXS_OK, NEXS_ERROR}) \<and>
    (res = NEXS_OK \<and> nd_space e s k \<longrightarrow> r = NEXS_OK) \<and>
    (res = NEXS_OK \<and> st_value s (ev_clock e 5) k \<noteq> None \<and> (\<forall>h. dom h \<subseteq> dom (ns_heap s) \<longrightarrow> ev_malloc e h \<noteq> None) \<longrightarrow> r = NEXS_OK) \<and>
    (\<forall>now \<ge> ev_clock e 5. st_value s' now =
       (if r = NEXS_OK then (st_value s now)(k :=
          if 0 \<le> ne_ttl_ms en \<and> deadline_passed (nd_deadline (ev_clock e 4) (ne_ttl_ms en)) now then None
          else Some (nd_new_value e (case ne_value en of None \<Rightarrow> [] | Some v \<Rightarrow> v) (ne_type en) (ne_ttl_ms en)))
        else st_value s now))"
  by (rule ndapi_rmw_effect [OF assms(1,2,5,3), of cb res out out0, OF assms(4)])

theorem ndapi_rmw_spec_witness:
  "\<exists>s'. ndapi_rmw (sample_env 5) sample_store [107]
      (\<lambda>en. (en\<lparr>ne_value := Some [7], ne_type := NEXDT_CRDT\<rparr>, NEXS_OK, ())) () = Some (s', NEXS_OK, ()) \<and> st_value s' 6 [107] \<noteq> None"
proof -
  let ?cb = "\<lambda>en. (en\<lparr>ne_value := Some [7 :: u8], ne_type := NEXDT_CRDT\<rparr>, NEXS_OK, ())"
  let ?en = "nd_rmw_entry (ev_clock (sample_env 5) 1) (st_value sample_store (ev_clock (sample_env 5) 0) [107])"
  have adm: "nd_admits sample_store [107] (ne_type (?en\<lparr>ne_value := Some [7], ne_type := NEXDT_CRDT\<rparr>))"
    by (rule sample_store_admits) simp_all
  have c: "ev_clock (sample_env 5) 0 \<le> ev_clock (sample_env 5) 5" by (simp add: sample_env_def)
  have sp: "nd_space (sample_env 5) sample_store [107]" by (rule sample_store_space) simp
  have five: "ev_clock (sample_env 5) i = 5" for i by (simp add: sample_env_def)
  have en: "ne_ttl_ms ?en = - 1" using sample_store_empty by (simp add: nd_rmw_entry_def)
  show ?thesis
    using ndapi_rmw_spec [OF sample_store_ok(1) sample_malloc_ok c, of ?cb "[107]" "?en\<lparr>ne_value := Some [7], ne_type := NEXDT_CRDT\<rparr>" NEXS_OK "()" "()", OF _ adm] sp en five
    by fastforce
qed

end
