(* ===== verification/Nex_Storage_Dual.thy ===== *)
theory Nex_Storage_Dual
  imports Nex_Storage_Props
begin

text \<open>
  The contract of a storage backend as a locale, the NexDash and Segcache adapters as its instances,
  and what a client of the two stores of a \<open>NexStorage\<close> sees.  The Flash adapter is no instance: a
  second write of a key is not seen by its readers.
\<close>

subsection \<open>The contract\<close>

text \<open>Time does not run backwards, neither inside an operation nor from one to the next.\<close>

definition env_ok :: "StorageEnv \<Rightarrow> bool" where
  "env_ok e \<longleftrightarrow> malloc_ok e \<and> (\<forall>i j. i \<le> j \<longrightarrow> ev_clock e i \<le> ev_clock e j)"

definition env_le :: "StorageEnv \<Rightarrow> StorageEnv \<Rightarrow> bool" where
  "env_le e e' \<longleftrightarrow> (\<forall>i j. ev_clock e i \<le> ev_clock e' j) \<and> (ucast (ev_time e) :: u32) \<le> ucast (ev_time e')"

text \<open>
  A backend holds, at a time, values for keys: \<open>val\<close>.  Reading shows them; a write without lifetime
  that reports success is what readers see from then on and a write that fails changes nothing;
  removing a key removes it and reports whether the backend held an entry for it, live or not.
\<close>

locale storage_backend =
  fixes get :: "StorageEnv \<Rightarrow> 's \<Rightarrow> bytes \<Rightarrow> ('s \<times> NexStorageResult \<times> NexEntry option) option"
    and put :: "StorageEnv \<Rightarrow> 's \<Rightarrow> bytes \<Rightarrow> bytes \<Rightarrow> NexDataType \<Rightarrow> int \<Rightarrow> ('s \<times> NexStorageResult) option"
    and remove :: "StorageEnv \<Rightarrow> 's \<Rightarrow> bytes \<Rightarrow> ('s \<times> NexStorageResult) option"
    and inv :: "'s \<Rightarrow> bool"
    and admits :: "'s \<Rightarrow> bytes \<Rightarrow> bytes \<Rightarrow> NexDataType \<Rightarrow> bool"
    and held :: "'s \<Rightarrow> bytes \<Rightarrow> bool"
    and val :: "'s \<Rightarrow> StorageEnv \<Rightarrow> bytes \<Rightarrow> (bytes \<times> NexDataType) option"
  assumes get: "inv s \<Longrightarrow> length k \<le> 65535 \<Longrightarrow> \<exists>s' r en. get e s k = Some (s', r, en) \<and> inv s' \<and>
      (\<forall>e' k'. env_le e e' \<longrightarrow> length k' \<le> 65535 \<longrightarrow> val s' e' k' = val s e' k') \<and>
      (case val s e k of None \<Rightarrow> r \<noteq> NEXS_OK \<and> en = None
       | Some (v, ty) \<Rightarrow> r = NEXS_OK \<and> (\<exists>x. en = Some x \<and> ne_value x = Some v \<and> ne_type x = ty))"
    and put: "inv s \<Longrightarrow> env_ok e \<Longrightarrow> admits s k v ty \<Longrightarrow> length k \<le> 65535 \<Longrightarrow> \<exists>s' r. put e s k v ty (- 1) = Some (s', r) \<and> inv s' \<and>
      (\<forall>e' k'. env_le e e' \<longrightarrow> length k' \<le> 65535 \<longrightarrow>
         val s' e' k' = (if r = NEXS_OK \<and> k' = k then Some (v, ty) else val s e' k'))"
    and remove: "inv s \<Longrightarrow> length k \<le> 65535 \<Longrightarrow> \<exists>s' r. remove e s k = Some (s', r) \<and> inv s' \<and> (r = NEXS_OK \<longleftrightarrow> held s k) \<and>
      (\<forall>e' k'. length k' \<le> 65535 \<longrightarrow> val s' e' k' = (if k' = k then None else val s e' k'))"
    and held: "inv s \<Longrightarrow> length k \<le> 65535 \<Longrightarrow> \<not> held s k \<Longrightarrow> val s e k = None"

subsection \<open>The NexDash adapter\<close>

text \<open>Values above the size of the scratch buffer are stored but cannot be read.\<close>

definition nd_val :: "NdStore \<Rightarrow> StorageEnv \<Rightarrow> bytes \<Rightarrow> (bytes \<times> NexDataType) option" where
  "nd_val s e k = (case st_value s (ev_clock e 0) k of
      None \<Rightarrow> None | Some x \<Rightarrow> if length (nv_data x) > 1024 * 1024 then None else Some (nv_data x, nv_type x))"

definition nd_put_admits :: "NdStore \<Rightarrow> bytes \<Rightarrow> bytes \<Rightarrow> NexDataType \<Rightarrow> bool" where
  "nd_put_admits s k v ty \<longleftrightarrow> nd_admits s k ty \<and> length v \<le> 1024 * 1024"

definition nd_held :: "NdStore \<Rightarrow> bytes \<Rightarrow> bool" where
  "nd_held s k \<longleftrightarrow> nd_view (ns_table s) k \<noteq> None"

lemma nd_long_key:
  assumes "store_ok s" "length k > 255"
  shows "nd_view (ns_table s) k = None" "st_value s now k = None"
proof -
  have inv: "nd_inv (ns_table s)" by (rule store_okD(1) [OF assms(1)])
  show v: "nd_view (ns_table s) k = None"
  proof (cases "nd_view (ns_table s) k")
    case (Some sl)
    then have "sl \<in># nd_entries (ns_table s)" "nd_stored_key (ns_table s) sl = k" using nd_view_iff [OF inv] by auto
    then have "length k = nd_key_len sl" using inv stored_key_length [of "ns_table s" sl] by (auto simp: nd_inv_def)
    then show ?thesis using assms(2) unat_u8_le [of "TAG_GET_LEN (sl_value_ptr sl)"] by (simp add: nd_key_len_def)
  qed
  show "st_value s now k = None" by (simp add: st_value_def nd_value_def v)
qed

lemma ndapi_del_held:
  assumes "store_ok s" "ndapi_del e s k = Some (s', r)"
  shows "r = NEXS_OK \<longleftrightarrow> nd_held s k"
  using assms del_effect [OF store_okD(1) [OF assms(1)], of k] nd_long_key(1) [OF assms(1), of k]
  by (auto simp: ndapi_del_def nd_held_def ND_MAX_KEY_LEN_def split: if_splits)

interpretation nb: storage_backend ndapi_get ndapi_set ndapi_del store_ok nd_put_admits nd_held nd_val
proof
  fix s e and k :: bytes
  assume s: "store_ok s"
  have late: "ev_clock e 0 \<le> ev_clock e' 0" if "env_le e e'" for e' using that by (simp add: env_le_def)
  obtain s' where s': "ndapi_get e s k = Some (s', case (if length k > 255 then None else st_value s (ev_clock e 0) k) of
        None \<Rightarrow> (if length k > 255 then NEXS_TOO_LARGE else NEXS_NOT_FOUND, None)
      | Some v \<Rightarrow> if length (nv_data v) > 1024 * 1024 then (NEXS_TOO_LARGE, None)
                  else (NEXS_OK, Some \<lparr>ne_value = Some (nv_data v), ne_type = nv_type v,
                          ne_ttl_ms = nd_remaining (ev_clock e 1) (nv_expire_us v), ne_version = nv_version v\<rparr>))"
    "store_ok s'" "\<forall>now \<ge> ev_clock e 0. st_value s' now = st_value s now"
    using ndapi_get_effect [OF s] by blast
  have "\<forall>e' k'. env_le e e' \<longrightarrow> nd_val s' e' k' = nd_val s e' k'" using s'(3) late by (simp add: nd_val_def)
  then show "\<exists>s' r en. ndapi_get e s k = Some (s', r, en) \<and> store_ok s' \<and>
      (\<forall>e' k'. env_le e e' \<longrightarrow> length k' \<le> 65535 \<longrightarrow> nd_val s' e' k' = nd_val s e' k') \<and>
      (case nd_val s e k of None \<Rightarrow> r \<noteq> NEXS_OK \<and> en = None
       | Some (v, ty) \<Rightarrow> r = NEXS_OK \<and> (\<exists>x. en = Some x \<and> ne_value x = Some v \<and> ne_type x = ty))"
    using s'(1,2) nd_long_key(2) [OF s, of k "ev_clock e 0"] by (auto simp: nd_val_def split: option.splits if_splits)
next
  fix s e and k v :: bytes and ty
  assume s: "store_ok s" and e: "env_ok e" and a: "nd_put_admits s k v ty"
  have adm: "nd_admits s k ty" "length v \<le> 1024 * 1024" using a by (simp_all add: nd_put_admits_def)
  have m: "malloc_ok e" using e by (simp add: env_ok_def)
  obtain s' r where s': "nd_store_value e s k v ty (- 1) = Some (s', r)" "store_ok s'"
    "r = NEXS_OK \<Longrightarrow> \<forall>now. st_value s' now = (st_value s now)(k \<mapsto> nd_new_value e v ty (- 1))"
    "r \<noteq> NEXS_OK \<Longrightarrow> \<forall>now \<ge> ev_clock e 5. st_value s' now = st_value s now"
    using store_value_effect [OF s m adm(1), of v "- 1"] by auto
  have late: "ev_clock e 5 \<le> ev_clock e' 0" if "env_le e e'" for e' using that by (simp add: env_le_def)
  have "nd_val s' e' k' = (if r = NEXS_OK \<and> k' = k then Some (v, ty) else nd_val s e' k')" if "env_le e e'" for e' k'
    using s'(3,4) late [OF that] adm(2) by (cases "r = NEXS_OK") (simp_all add: nd_val_def nd_new_value_def)
  then show "\<exists>s' r. ndapi_set e s k v ty (- 1) = Some (s', r) \<and> store_ok s' \<and>
      (\<forall>e' k'. env_le e e' \<longrightarrow> length k' \<le> 65535 \<longrightarrow>
         nd_val s' e' k' = (if r = NEXS_OK \<and> k' = k then Some (v, ty) else nd_val s e' k'))"
    using s'(1,2) adm(1) by (simp add: ndapi_set_def nd_admits_def ND_MAX_KEY_LEN_def)
next
  fix s e and k :: bytes
  assume s: "store_ok s"
  obtain s' r where s': "ndapi_del e s k = Some (s', r)" "store_ok s'"
    "\<forall>now. st_value s' now = (if length k > 255 then st_value s now else (st_value s now)(k := None))"
    using ndapi_del_effect [OF s] by blast
  have "nd_val s' e' k' = (if k' = k then None else nd_val s e' k')" for e' k'
    using s'(3) nd_long_key(2) [OF s, of k] by (auto simp: nd_val_def)
  then show "\<exists>s' r. ndapi_del e s k = Some (s', r) \<and> store_ok s' \<and> (r = NEXS_OK \<longleftrightarrow> nd_held s k) \<and>
      (\<forall>e' k'. length k' \<le> 65535 \<longrightarrow> nd_val s' e' k' = (if k' = k then None else nd_val s e' k'))"
    using s'(1,2) ndapi_del_held [OF s s'(1)] by auto
next
  fix s e and k :: bytes
  assume "\<not> nd_held s k"
  then show "nd_val s e k = None" by (simp add: nd_held_def nd_val_def st_value_def nd_value_def)
qed

subsection \<open>The Segcache adapter\<close>

text \<open>Segments that hold the largest item, a header with a key and a value of 65535 bytes each.\<close>

definition seg_inv :: "NexSegcache \<Rightarrow> bool" where
  "seg_inv sc \<longleftrightarrow> sc_inv sc \<and> fits_all sc 131078"

definition seg_val :: "NexSegcache \<Rightarrow> StorageEnv \<Rightarrow> bytes \<Rightarrow> (bytes \<times> NexDataType) option" where
  "seg_val sc e k = (case sc_answer (ucast (ev_time e)) 65535 (sc_view sc (cut16 k)) of
      SegHit v \<Rightarrow> Some (v, NEXDT_STRING) | _ \<Rightarrow> None)"

definition seg_put_admits :: "NexSegcache \<Rightarrow> bytes \<Rightarrow> bytes \<Rightarrow> NexDataType \<Rightarrow> bool" where
  "seg_put_admits sc k v ty \<longleftrightarrow> ty = NEXDT_STRING \<and> length v \<le> 65535"

definition seg_held :: "NexSegcache \<Rightarrow> bytes \<Rightarrow> bool" where
  "seg_held sc k \<longleftrightarrow> sc_view sc (cut16 k) \<noteq> None"

lemma cut16_id [simp]: "length k \<le> 65535 \<Longrightarrow> cut16 k = k"
  by (simp add: cut16_def unat_of_nat_eq)

lemma fits_all_cong: "map (\<lambda>seg. length (sgm_data seg)) (sc_segments sc') = map (\<lambda>seg. length (sgm_data seg)) (sc_segments sc) \<Longrightarrow>
    fits_all sc' n = fits_all sc n"
proof -
  assume a: "map (\<lambda>seg. length (sgm_data seg)) (sc_segments sc') = map (\<lambda>seg. length (sgm_data seg)) (sc_segments sc)"
  have "fits_all x n \<longleftrightarrow> (\<forall>l \<in> set (map (\<lambda>seg. length (sgm_data seg)) (sc_segments x)). n \<le> l)" for x
    by (simp add: fits_all_def)
  then show ?thesis unfolding a [symmetric] by (metis a)
qed

lemma map_update_same: "i < length xs \<longrightarrow> f y = f (xs ! i) \<Longrightarrow> map f (xs[i := y]) = map f xs"
  by (cases "i < length xs") (simp_all add: map_update list_update_same_conv list_update_beyond)

lemma seg_for_write_sizes:
  "seg_for_write now sc shard b n = Some (sc1, idx) \<Longrightarrow>
   map (\<lambda>seg. length (sgm_data seg)) (sc_segments sc1) = map (\<lambda>seg. length (sgm_data seg)) (sc_segments sc)"
  by (auto simp: seg_for_write_def seg_alloc_def Let_def map_update_same split: list.splits if_splits option.splits)

lemma ht_insert_segments: "ht_insert sc hash idx off k = Some sc' \<Longrightarrow> sc_segments sc' = sc_segments sc"
  by (auto simp: ht_insert_def Let_def split: option.splits)

lemma segcache_set_fits:
  assumes inv: "sc_inv sc" and len: "length k \<le> 65535" "length v \<le> 65535" and fits: "fits_all sc (8 + length k + length v)"
    and set: "segcache_set now sc (Some k) (Some v) ttl = (sc', ok)"
  shows "fits_all sc' m = fits_all sc m"
proof (cases "seg_for_write now sc (seg_shard (seg_hash k)) (ttl_to_bucket ttl) (of_nat (8 + length k + length v))")
  case None
  then show ?thesis using set by (simp add: segcache_set_def Let_def)
next
  case (Some r)
  obtain sc1 idx where r: "r = (sc1, idx)" by (cases r)
  have nb: "8 + length k + length v < 2 ^ 18" using len by simp
  note w = seg_for_write_frame [OF inv fits nb Some [unfolded r]]
  let ?sz = "map (\<lambda>seg. length (sgm_data seg))"
  define n where "n = 8 + length k + length v"
  define sc2 where "sc2 = seg_append sc1 idx (le_enc 8 (seg_header (seg_fp (seg_hash k)) (length k) (length v) (ttl_to_bucket ttl)) @ k @ v)
    (of_nat n)"
  have s2: "?sz (sc_segments sc2) = ?sz (sc_segments sc1)"
    using w(3,5) by (simp add: sc2_def n_def seg_append_def Let_def map_update_same)
  have c: "segcache_set now sc (Some k) (Some v) ttl =
      (case ht_insert sc2 (seg_hash k) idx (sgm_write_offset (sc_segments sc1 ! idx)) k of
         None \<Rightarrow> (sc2\<lparr>sc_segments := (sc_segments sc2)[idx := (sc_segments sc2 ! idx)
                  \<lparr>sgm_write_offset := sgm_write_offset (sc_segments sc2 ! idx) - of_nat n, sgm_n_items := sgm_n_items (sc_segments sc2 ! idx) - 1\<rparr>]\<rparr>, False)
       | Some sc3 \<Rightarrow>
           (upd_stats (seg_shard (seg_hash k)) (\<lambda>st. st\<lparr>sst_sets := sst_sets st + 1, sst_bytes_stored := sst_bytes_stored st + ucast (of_nat n :: u32)\<rparr>)
              (sc3\<lparr>sc_used_memory := sc_used_memory sc3 + ucast (of_nat n :: u32)\<rparr>), True))"
    using Some unfolding r n_def sc2_def segcache_set_def Let_def by simp
  have "?sz (sc_segments sc') = ?sz (sc_segments sc2)"
  proof (cases "ht_insert sc2 (seg_hash k) idx (sgm_write_offset (sc_segments sc1 ! idx)) k")
    case None
    then show ?thesis using c set by (auto simp: map_update_same)
  next
    case (Some sc3)
    then show ?thesis using c set ht_insert_segments [OF Some] by auto
  qed
  then show ?thesis using s2 seg_for_write_sizes [OF Some [unfolded r]] by (intro fits_all_cong) simp
qed

lemma segcache_get_fits: "fits_all (fst (segcache_get now sc (Some k) n)) m = fits_all sc m"
  by (rule fits_all_cong) (auto simp: segcache_get_def Let_def ht_find_def ht_clear_def upd_stats_def split: option.splits)

lemma segcache_del_view:
  assumes "sc_inv sc"
  shows "sc_inv (fst (segcache_del sc (Some k)))" "sc_view (fst (segcache_del sc (Some k))) = (sc_view sc)(k := None)"
    "snd (segcache_del sc (Some k)) = (if sc_view sc k = None then 0 else 1)" "fits_all (fst (segcache_del sc (Some k))) m = fits_all sc m"
proof -
  let ?d = "segcache_del sc (Some k)"
  show "fits_all (fst ?d) m = fits_all sc m"
    by (rule fits_all_cong) (auto simp: segcache_del_def ht_clear_def Let_def upd_stats_def split: option.splits)
  show "snd ?d = (if sc_view sc k = None then 0 else 1)"
    by (auto simp: segcache_del_def sc_view_def split: option.splits)
  have "sc_inv (fst ?d) \<and> sc_view (fst ?d) = (sc_view sc)(k := None)"
  proof (cases "ht_slot sc (seg_hash k) k")
    case None
    then have "sc_view sc k = None" by (simp add: sc_view_def)
    then show ?thesis using None assms by (simp add: segcache_del_def fun_upd_idem)
  next
    case (Some i)
    note c = ht_clear_view [OF assms Some]
    show ?thesis using sc_cong [OF _ _ _ _ c(1), of "fst ?d"] Some c(2) by (simp add: segcache_del_def upd_stats_def)
  qed
  then show "sc_inv (fst ?d)" "sc_view (fst ?d) = (sc_view sc)(k := None)" by simp_all
qed

lemma entry_expired_mono: "entry_expired now d \<Longrightarrow> now \<le> now' \<Longrightarrow> entry_expired now' d"
  by (auto simp: entry_expired_def split: prod.splits)

lemma seg_value_length:
  assumes "sc_inv sc" "sc_view sc k = Some d"
  shows "length (fst d) \<le> 65535"
proof -
  obtain s where s: "ht_slot sc (seg_hash k) k = Some s" "d = se_data sc (slot_entry sc (seg_bucket (seg_hash k)) s)"
    using assms(2) by (auto simp: sc_view_def)
  let ?e = "slot_entry sc (seg_bucket (seg_hash k)) s"
  have "index_ok sc (seg_bucket (seg_hash k)) ?e" using s(1) ht_slot_iff [OF assms(1)] sc_invD(3) [OF assms(1)] by auto
  from item_value_length [OF this sc_invD(1) [OF assms(1)]]
  have "length (fst d) = unat (SEG_HDR_VAL_LEN (item_header (se_seg sc ?e) (se_off ?e)))" by (simp add: s(2) se_data_def)
  also have "\<dots> \<le> unat (0xFFFF :: u64)"
    unfolding SEG_HDR_VAL_LEN_def by (intro word_le_nat_alt [THEN iffD1] word_and_le1)
  finally show ?thesis by simp
qed

interpretation sb: storage_backend scapi_get "\<lambda>e sc key value. scapi_set e sc key (Some value)" scapi_del seg_inv seg_put_admits seg_held seg_val
proof
  fix sc and e :: StorageEnv and k :: bytes
  assume s: "seg_inv sc" and k: "length k \<le> 65535"
  have inv: "sc_inv sc" using s by (simp add: seg_inv_def)
  let ?now = "ucast (ev_time e) :: u32"
  let ?g = "segcache_get ?now sc (Some k) 65535"
  note g = segcache_get_view [OF inv, of ?now k 65535]
  have "seg_inv (fst ?g)" using g(2) s segcache_get_fits by (simp add: seg_inv_def)
  moreover have "seg_val (fst ?g) e' k' = seg_val sc e' k'" if "env_le e e'" "length k' \<le> 65535" for e' k'
  proof -
    have "entry_expired (ucast (ev_time e')) d" if "entry_expired ?now d" for d
      using that \<open>env_le e e'\<close> entry_expired_mono by (auto simp: env_le_def)
    then show ?thesis using g(3) that by (auto simp: seg_val_def sc_answer_def split: option.splits)
  qed
  moreover have "scapi_get e sc k = Some (fst ?g, case seg_val sc e k of None \<Rightarrow> (NEXS_NOT_FOUND, None)
     | Some (v, ty) \<Rightarrow> (NEXS_OK, Some \<lparr>ne_value = Some v, ne_type = ty, ne_ttl_ms = - 1, ne_version = 0\<rparr>))"
    using k g(1) by (auto simp: scapi_get_def seg_val_def split: prod.splits seg_result.splits)
  ultimately show "\<exists>s' r en. scapi_get e sc k = Some (s', r, en) \<and> seg_inv s' \<and>
      (\<forall>e' k'. env_le e e' \<longrightarrow> length k' \<le> 65535 \<longrightarrow> seg_val s' e' k' = seg_val sc e' k') \<and>
      (case seg_val sc e k of None \<Rightarrow> r \<noteq> NEXS_OK \<and> en = None
       | Some (v, ty) \<Rightarrow> r = NEXS_OK \<and> (\<exists>x. en = Some x \<and> ne_value x = Some v \<and> ne_type x = ty))"
    by (auto split: option.splits)
next
  fix sc and e :: StorageEnv and k v :: bytes and ty
  assume s: "seg_inv sc" and a: "seg_put_admits sc k v ty" and k: "length k \<le> 65535"
  have inv: "sc_inv sc" and f: "fits_all sc 131078" using s by (simp_all add: seg_inv_def)
  have v: "length v \<le> 65535" "ty = NEXDT_STRING" using a by (simp_all add: seg_put_admits_def)
  have f': "fits_all sc (8 + length k + length v)" using f k v(1) by (auto simp: fits_all_def)
  obtain sc' ok where r: "segcache_set (ucast (ev_time e)) sc (Some k) (Some v) 0 = (sc', ok)" by fastforce
  note w = segcache_set_view [OF inv k v(1) f' r]
  have "seg_inv sc'" using w(1) f segcache_set_fits [OF inv k v(1) f' r] by (simp add: seg_inv_def)
  moreover have "seg_val sc' e' k' = (if ok \<and> k' = k then Some (v, ty) else seg_val sc e' k')" if "length k' \<le> 65535" for e' k'
    using w(2,3) that k v
    by (cases ok) (simp_all add: seg_val_def sc_answer_def entry_expired_def ttl_to_bucket_def bucket_to_ttl_seconds_def)
  ultimately show "\<exists>s' r. scapi_set e sc k (Some v) ty (- 1) = Some (s', r) \<and> seg_inv s' \<and>
      (\<forall>e' k'. env_le e e' \<longrightarrow> length k' \<le> 65535 \<longrightarrow>
         seg_val s' e' k' = (if r = NEXS_OK \<and> k' = k then Some (v, ty) else seg_val sc e' k'))"
    using k v r by (simp add: scapi_set_def)
next
  fix sc and e :: StorageEnv and k :: bytes
  assume s: "seg_inv sc" and k: "length k \<le> 65535"
  have inv: "sc_inv sc" using s by (simp add: seg_inv_def)
  note d = segcache_del_view [OF inv, of k]
  have "seg_inv (fst (segcache_del sc (Some k)))" using d(1,4) s by (simp add: seg_inv_def)
  moreover have "seg_val (fst (segcache_del sc (Some k))) e' k' = (if k' = k then None else seg_val sc e' k')" if "length k' \<le> 65535" for e' k'
    using d(2) that k by (simp add: seg_val_def sc_answer_def)
  ultimately show "\<exists>s' r. scapi_del e sc k = Some (s', r) \<and> seg_inv s' \<and> (r = NEXS_OK \<longleftrightarrow> seg_held sc k) \<and>
      (\<forall>e' k'. length k' \<le> 65535 \<longrightarrow> seg_val s' e' k' = (if k' = k then None else seg_val sc e' k'))"
    using k d(3) by (cases "segcache_del sc (Some k)") (auto simp: scapi_del_def seg_held_def)
next
  fix sc and e :: StorageEnv and k :: bytes
  assume "\<not> seg_held sc k"
  then have "sc_view sc (cut16 k) = None" unfolding seg_held_def by blast
  then show "seg_val sc e k = None" by (simp add: seg_val_def sc_answer_def)
qed

subsection \<open>The two stores\<close>

text \<open>What a client reads: the value and type that \<open>nexstorage_get\<close> returns.\<close>

definition storage_reads :: "StorageEnv \<Rightarrow> 'b NexStorage \<Rightarrow> bytes \<Rightarrow> (bytes \<times> NexDataType) option" where
  "storage_reads e ns k =
     (case nexstorage_get e ns k of
        Some (ns', NEXS_OK, Some en) \<Rightarrow> map_option (\<lambda>v. (v, ne_type en)) (ne_value en)
      | _ \<Rightarrow> None)"

context storage_backend
begin

lemma dual_get:
  assumes api: "api_get (main_api ns) = get" and m: "inv (main_backend ns)" and ob: "store_ok (object_backend ns)" and k: "length k \<le> 65535"
  shows "\<exists>ns' r en. nexstorage_get e ns k = Some (ns', r, en) \<and> main_api ns' = main_api ns \<and> inv (main_backend ns') \<and> store_ok (object_backend ns') \<and>
    (\<forall>e' k'. env_le e e' \<longrightarrow> length k' \<le> 65535 \<longrightarrow>
       val (main_backend ns') e' k' = val (main_backend ns) e' k' \<and> nd_val (object_backend ns') e' k' = nd_val (object_backend ns) e' k') \<and>
    storage_reads e ns k = (case val (main_backend ns) e k of Some x \<Rightarrow> Some x | None \<Rightarrow> nd_val (object_backend ns) e k)"
proof -
  obtain s' r en where g: "get e (main_backend ns) k = Some (s', r, en)" "inv s'"
    "\<forall>e' k'. env_le e e' \<longrightarrow> length k' \<le> 65535 \<longrightarrow> val s' e' k' = val (main_backend ns) e' k'"
    "case val (main_backend ns) e k of None \<Rightarrow> r \<noteq> NEXS_OK \<and> en = None
       | Some (v, ty) \<Rightarrow> r = NEXS_OK \<and> (\<exists>x. en = Some x \<and> ne_value x = Some v \<and> ne_type x = ty)"
    using get [OF m k] by blast
  show ?thesis
  proof (cases "val (main_backend ns) e k")
    case (Some x)
    obtain v ty where x: "x = (v, ty)" by (cases x)
    obtain y where y: "r = NEXS_OK" "en = Some y" "ne_value y = Some v" "ne_type y = ty" using g(4) Some x by auto
    have n: "nexstorage_get e ns k = Some (ns\<lparr>main_backend := s'\<rparr>, NEXS_OK, Some y)"
      using g(1) y by (simp add: nexstorage_get_def api)
    then show ?thesis using g(2,3) ob Some x y by (simp add: storage_reads_def)
  next
    case None
    then have r: "r \<noteq> NEXS_OK" using g(4) by simp
    obtain o' r2 en2 where h: "ndapi_get e (object_backend ns) k = Some (o', r2, en2)" "store_ok o'"
      "\<forall>e' k'. env_le e e' \<longrightarrow> length k' \<le> 65535 \<longrightarrow> nd_val o' e' k' = nd_val (object_backend ns) e' k'"
      "case nd_val (object_backend ns) e k of None \<Rightarrow> r2 \<noteq> NEXS_OK \<and> en2 = None
         | Some (v, ty) \<Rightarrow> r2 = NEXS_OK \<and> (\<exists>x. en2 = Some x \<and> ne_value x = Some v \<and> ne_type x = ty)"
      using nb.get [OF ob k] by blast
    have n: "nexstorage_get e ns k = Some (ns\<lparr>main_backend := s', object_backend := o'\<rparr>, r2, en2)"
      using g(1) h(1) r by (simp add: nexstorage_get_def api NexDashTableAPI_def)
    have "storage_reads e ns k = nd_val (object_backend ns) e k"
      using h(4) unfolding storage_reads_def n by (auto split: option.splits NexStorageResult.splits)
    then show ?thesis using n g(2,3) h(2,3) None by simp
  qed
qed

lemma dual_set:
  assumes api: "api_get (main_api ns) = get" "api_set (main_api ns) = put" and m: "inv (main_backend ns)" and ob: "store_ok (object_backend ns)"
    and e: "env_ok e" and k: "length k \<le> 65535"
    and adm: "if ty = NEXDT_STRING then admits (main_backend ns) k v ty else nd_put_admits (object_backend ns) k v ty"
  shows "\<exists>ns' r. nexstorage_set e ns k v ty (- 1) = Some (ns', r) \<and> main_api ns' = main_api ns \<and> inv (main_backend ns') \<and>
    store_ok (object_backend ns') \<and> (\<forall>e' k'. env_le e e' \<longrightarrow> length k' \<le> 65535 \<longrightarrow> storage_reads e' ns' k' =
      (if r = NEXS_OK \<and> k' = k \<and> (ty = NEXDT_STRING \<or> val (main_backend ns) e' k = None) then Some (v, ty) else storage_reads e' ns k'))"
proof (cases "ty = NEXDT_STRING")
  case True
  then have "admits (main_backend ns) k v ty" using adm by simp
  then obtain m' r where p: "put e (main_backend ns) k v ty (- 1) = Some (m', r)" "inv m'"
    "\<forall>e' k'. env_le e e' \<longrightarrow> length k' \<le> 65535 \<longrightarrow> val m' e' k' = (if r = NEXS_OK \<and> k' = k then Some (v, ty) else val (main_backend ns) e' k')"
    using put [OF m e _ k, of v ty] by blast
  let ?ns = "ns\<lparr>main_backend := m'\<rparr>"
  have "storage_reads e' ?ns k' = (if r = NEXS_OK \<and> k' = k then Some (v, ty) else storage_reads e' ns k')"
    if "env_le e e'" "length k' \<le> 65535" for e' k'
    using dual_get [of ?ns k' e'] dual_get [of ns k' e'] api m ob p(2,3) that by (auto split: option.splits)
  then show ?thesis using True p(1,2) ob api by (simp add: nexstorage_set_def)
next
  case False
  then have "nd_put_admits (object_backend ns) k v ty" using adm by simp
  then obtain o' r where p: "ndapi_set e (object_backend ns) k v ty (- 1) = Some (o', r)" "store_ok o'"
    "\<forall>e' k'. env_le e e' \<longrightarrow> length k' \<le> 65535 \<longrightarrow> nd_val o' e' k' = (if r = NEXS_OK \<and> k' = k then Some (v, ty) else nd_val (object_backend ns) e' k')"
    using nb.put [OF ob e _ k, of v ty] by blast
  let ?ns = "ns\<lparr>object_backend := o'\<rparr>"
  have "storage_reads e' ?ns k' = (if r = NEXS_OK \<and> k' = k \<and> val (main_backend ns) e' k = None then Some (v, ty) else storage_reads e' ns k')"
    if "env_le e e'" "length k' \<le> 65535" for e' k'
    using dual_get [of ?ns k' e'] dual_get [of ns k' e'] api m ob p(2,3) that by (auto split: option.splits)
  then show ?thesis using False p(1,2) m by (simp add: nexstorage_set_def NexDashTableAPI_def)
qed

lemma dual_del:
  assumes api: "api_get (main_api ns) = get" "api_del (main_api ns) = remove" and m: "inv (main_backend ns)" and ob: "store_ok (object_backend ns)"
    and k: "length k \<le> 65535"
  shows "\<exists>ns' r. nexstorage_del e ns k = Some (ns', r) \<and> main_api ns' = main_api ns \<and> inv (main_backend ns') \<and> store_ok (object_backend ns') \<and>
    (r = NEXS_OK \<longleftrightarrow> held (main_backend ns) k \<or> nd_held (object_backend ns) k) \<and>
    (\<forall>e' k'. length k' \<le> 65535 \<longrightarrow> storage_reads e' ns' k' =
      (if k' \<noteq> k then storage_reads e' ns k' else if held (main_backend ns) k then nd_val (object_backend ns) e' k else None))"
proof -
  obtain m' r1 where p: "remove e (main_backend ns) k = Some (m', r1)" "inv m'" "r1 = NEXS_OK \<longleftrightarrow> held (main_backend ns) k"
    "\<forall>e' k'. length k' \<le> 65535 \<longrightarrow> val m' e' k' = (if k' = k then None else val (main_backend ns) e' k')"
    using remove [OF m k] by blast
  show ?thesis
  proof (cases "held (main_backend ns) k")
    case True
    let ?ns = "ns\<lparr>main_backend := m'\<rparr>"
    have "storage_reads e' ?ns k' = (if k' \<noteq> k then storage_reads e' ns k' else nd_val (object_backend ns) e' k)"
      if "length k' \<le> 65535" for e' k'
      using dual_get [of ?ns k' e'] dual_get [of ns k' e'] api m ob p(2,4) that by (auto split: option.splits)
    then show ?thesis using True p(1-3) ob api by (simp add: nexstorage_del_def)
  next
    case False
    obtain o' r2 where q: "ndapi_del e (object_backend ns) k = Some (o', r2)" "store_ok o'" "r2 = NEXS_OK \<longleftrightarrow> nd_held (object_backend ns) k"
      "\<forall>e' k'. length k' \<le> 65535 \<longrightarrow> nd_val o' e' k' = (if k' = k then None else nd_val (object_backend ns) e' k')"
      using nb.remove [OF ob k] by blast
    let ?ns = "ns\<lparr>main_backend := m', object_backend := o'\<rparr>"
    have "storage_reads e' ?ns k' = (if k' \<noteq> k then storage_reads e' ns k' else None)"
      if "length k' \<le> 65535" for e' k'
      using dual_get [of ?ns k' e'] dual_get [of ns k' e'] api m ob p(2,4) q(2,4) that by (auto split: option.splits)
    then show ?thesis using False p(1-3) q(1-3) api by (simp add: nexstorage_del_def NexDashTableAPI_def)
  qed
qed

end

subsection \<open>The configuration of the server\<close>

text \<open>
  \<open>server.c\<close> creates its storage with the Segcache backend: strings in Segcache, everything else in
  NexDash.
\<close>

definition seg_storage_ok :: "NexSegcache NexStorage \<Rightarrow> bool" where
  "seg_storage_ok ns \<longleftrightarrow> main_api ns = NexSegcacheAPI \<and> seg_inv (main_backend ns) \<and> store_ok (object_backend ns)"

lemma seg_storageD:
  assumes "seg_storage_ok ns"
  shows "api_get (main_api ns) = scapi_get" "api_set (main_api ns) = (\<lambda>e sc key value. scapi_set e sc key (Some value))"
    "api_del (main_api ns) = scapi_del" "seg_inv (main_backend ns)" "store_ok (object_backend ns)" "main_api ns = NexSegcacheAPI"
  using assms by (simp_all add: seg_storage_ok_def NexSegcacheAPI_def)

lemma seg_storage_create:
  assumes c: "nexstorage_create fuel calloc_ok segs_ok arena_ok bloom open_ok content (Some ''segcache'') cfg = Some (Some st)"
    and b: "case bloom 1 of None \<Rightarrow> True | Some b \<Rightarrow> nexbloom_wf b"
  shows "\<exists>ns. st = SegStorage ns \<and> seg_storage_ok ns \<and> (\<forall>e k. length k \<le> 65535 \<longrightarrow> storage_reads e ns k = None)"
proof -
  obtain sc ob where sc0: "segcache_create segs_ok (cfg_max_memory cfg) SEG_DEFAULT_SIZE = Some sc"
    and ob: "ndapi_create fuel (arena_ok 1) (bloom 1) cfg = Some (Some ob)"
    and st: "st = SegStorage \<lparr>main_api = NexSegcacheAPI, main_backend = sc, object_backend = ob\<rparr>"
    using c by (auto simp: nexstorage_create_def two_stores_def scapi_create_def split: option.splits if_splits)
  have sc: "segcache_create True (cfg_max_memory cfg) SEG_DEFAULT_SIZE = Some sc"
    using sc0 by (cases segs_ok) (simp_all add: segcache_create_def)
  note i = segcache_create_inv [OF sc, simplified]
  have m: "seg_inv sc" using i(1) i(2) [of 131078] by (simp add: seg_inv_def SEG_DEFAULT_SIZE_def)
  note o = ndapi_create_ok [OF ob b]
  let ?ns = "\<lparr>main_api = NexSegcacheAPI, main_backend = sc, object_backend = ob\<rparr>"
  have ok: "seg_storage_ok ?ns" using m o(1) by (simp add: seg_storage_ok_def)
  have "seg_val sc e k = None" if "length k \<le> 65535" for e k
    using i(6) that by (simp add: seg_val_def sc_answer_def SEG_DEFAULT_SIZE_def)
  moreover have "nd_val ob e k = None" for e k
    using o(2) by (auto simp: nd_val_def st_value_def split: option.splits)
  ultimately have "storage_reads e ?ns k = None" if "length k \<le> 65535" for e k
    using sb.dual_get [of ?ns k e] seg_storageD [OF ok] that by auto
  then show ?thesis using st ok by blast
qed


text \<open>A main store that holds a string under a key, and an object store that holds a hash under it.\<close>

lemma sample_main:
  obtains sc where "seg_inv sc" "seg_val sc e [107] = Some ([1], NEXDT_STRING)" "seg_held sc [107]"
proof -
  obtain sc0 where c: "segcache_create True 0 SEG_DEFAULT_SIZE = Some sc0"
    by (simp add: segcache_create_def Let_def)
  note i = segcache_create_inv [OF c, simplified]
  have inv: "sc_inv sc0" and f: "\<And>n. n \<le> 1048576 \<Longrightarrow> fits_all sc0 n"
    using i(1,2) by (simp_all add: SEG_DEFAULT_SIZE_def)
  have m: "seg_inv sc0" using inv f [of 131078] by (simp add: seg_inv_def)
  have fr: "sc_free_queue sc0 \<noteq> []" "\<not> shb_occupied (sc_hash_table sc0 j) t" for j t using i(3,4) by (simp_all add: SEG_DEFAULT_SIZE_def)
  obtain sc ok where r: "segcache_set 0 sc0 (Some [107]) (Some [1]) 0 = (sc, ok)" by fastforce
  have f': "fits_all sc0 (8 + length [107 :: u8] + length [1 :: u8])" using f [of 10] by simp
  note w = segcache_set_view [OF inv _ _ f' r]
  have nb: "8 + length [107 :: u8] + length [1 :: u8] < 2 ^ 18" by simp
  have "\<exists>s < SEG_ITEMS_PER_BUCKET. \<not> shb_occupied (sc_hash_table sc0 (seg_bucket (seg_hash [107]))) s"
    using fr(2) by (intro exI [of _ 0]) (simp add: SEG_ITEMS_PER_BUCKET_def)
  then have ok: ok using w(4) not_has_room [OF sc_invD(1) [OF inv] nb] fr(1) by simp
  have "sc_inv sc" "sc_view sc [107] = Some ([1], ttl_to_bucket 0, write_time 0 sc0 (seg_shard (seg_hash [107])) (ttl_to_bucket 0) 10)"
    using w(1,3) ok by simp_all
  moreover have "fits_all sc 131078" using segcache_set_fits [OF inv _ _ f' r] f [of 131078] by simp
  ultimately show thesis using that [of sc]
    by (simp add: seg_inv_def seg_val_def seg_held_def sc_answer_def entry_expired_def ttl_to_bucket_def bucket_to_ttl_seconds_def)
qed

lemma sample_object:
  obtains ob where "ndapi_set (sample_env 5) sample_store [107] [9] NEXDT_HASH (- 1) = Some (ob, NEXS_OK)" "store_ok ob"
    "nd_val ob e [107] = Some ([9], NEXDT_HASH)" "nd_put_admits sample_store [107] [9] NEXDT_HASH"
proof -
  have adm: "nd_admits sample_store [107] NEXDT_HASH" by (rule sample_store_admits) simp_all
  obtain ob where ob: "nd_store_value (sample_env 5) sample_store [107] [9] NEXDT_HASH (- 1) = Some (ob, NEXS_OK)" "store_ok ob"
    "\<forall>now. st_value ob now = (st_value sample_store now)([107] \<mapsto> nd_new_value (sample_env 5) [9] NEXDT_HASH (- 1))"
    using store_value_effect [OF sample_store_ok(1) sample_malloc_ok adm, of 5 "[9]" "- 1"] sample_store_space [of "[107]" 5] by auto
  then show thesis using that [of ob] adm
    by (simp add: ndapi_set_def ND_MAX_KEY_LEN_def nd_val_def nd_new_value_def nd_put_admits_def)
qed

lemma sample_envs: "env_ok (sample_env 5)" "env_le (sample_env 5) (sample_env 6)"
  by (simp_all add: env_ok_def sample_malloc_ok env_le_def) (simp_all add: sample_env_def)


text \<open>
  C17. Deleting through the two stores.  A delete reports success exactly when one of the stores has an
  entry for the key, and other keys read as before.  But where the main store has an entry, even one
  that has expired, the object store is not touched: the value it holds for the key is what readers
  see after the delete.
\<close>

theorem nexstorage_del_reads:
  assumes "seg_storage_ok ns" and "length k \<le> 65535"
  shows "\<exists>ns' r. nexstorage_del e ns k = Some (ns', r) \<and> seg_storage_ok ns' \<and>
    (r = NEXS_OK \<longleftrightarrow> seg_held (main_backend ns) k \<or> nd_held (object_backend ns) k) \<and>
    (\<forall>e' k'. length k' \<le> 65535 \<longrightarrow> storage_reads e' ns' k' =
      (if k' \<noteq> k then storage_reads e' ns k'
       else if seg_held (main_backend ns) k then nd_val (object_backend ns) e' k else None))"
proof -
  note d = seg_storageD [OF assms(1)]
  show ?thesis using sb.dual_del [OF d(1,3,4,5) assms(2), of e] d(6) by (fastforce simp: seg_storage_ok_def)
qed

theorem nexstorage_del_reads_witness:
  "\<exists>(ns :: NexSegcache NexStorage) ns'. storage_reads (sample_env 6) ns [107] = Some ([1], NEXDT_STRING) \<and>
     nexstorage_del (sample_env 6) ns [107] = Some (ns', NEXS_OK) \<and> storage_reads (sample_env 6) ns' [107] = Some ([9], NEXDT_HASH)"
proof -
  obtain sc where sc: "seg_inv sc" "seg_val sc (sample_env 6) [107] = Some ([1], NEXDT_STRING)" "seg_held sc [107]" using sample_main .
  obtain ob where ob: "store_ok ob" "nd_val ob (sample_env 6) [107] = Some ([9], NEXDT_HASH)" using sample_object .
  let ?ns = "\<lparr>main_api = NexSegcacheAPI, main_backend = sc, object_backend = ob\<rparr>"
  have ok: "seg_storage_ok ?ns" using sc(1) ob(1) by (simp add: seg_storage_ok_def)
  have "storage_reads (sample_env 6) ?ns [107] = Some ([1], NEXDT_STRING)"
    using sb.dual_get [of ?ns "[107]" "sample_env 6"] seg_storageD [OF ok] sc(2) by auto
  moreover obtain ns' where "nexstorage_del (sample_env 6) ?ns [107] = Some (ns', NEXS_OK)"
    "storage_reads (sample_env 6) ns' [107] = Some ([9], NEXDT_HASH)"
    using nexstorage_del_reads [OF ok, of "[107]" "sample_env 6"] sc(3) ob(2) by force
  ultimately show ?thesis by blast
qed

end
