(* ===== verification/Nex_Quota.thy ===== *)
theory Nex_Quota
  imports Nex_Prelude
begin

text \<open>
  Namespaces and quotas, \<open>security/quota.c\<close>: a table of at most 256 namespaces, each with its limits,
  counters, access tokens and a window that counts operations.

  The slots of \<open>g_namespaces\<close> in use, \<open>g_ns_count\<close> many, are a list; a slot is given out once and not
  used again before the next \<open>quota_init\<close>.  Names, keys, values and tokens are C strings without their
  terminator.  The time that \<open>quota_us_now\<close> reads and the outcomes of \<open>realloc\<close> and \<open>strdup\<close> are
  arguments.  The floating-point fields (CPU budget, latencies, rates) reach no result but the
  printed statistics, so they are left out.
\<close>

subsection \<open>State\<close>

datatype QuotaAction = QUOTA_ACTION_REJECT | QUOTA_ACTION_THROTTLE | QUOTA_ACTION_EVICT | QUOTA_ACTION_LOG_ONLY

record NamespaceConfig =
  nc_name :: bytes
  nc_max_memory_bytes :: u64
  nc_max_keys :: u64
  nc_memory_action :: QuotaAction
  nc_max_ops_per_sec :: u64
  nc_cpu_action :: QuotaAction
  nc_max_bandwidth_bps :: u64
  nc_max_connections :: u32
  nc_network_action :: QuotaAction
  nc_default_ttl_secs :: "32 word"
  nc_eviction_policy :: "32 word"
  nc_dedicated_workers :: "32 word"

record NamespaceStats =
  nss_name :: bytes
  nss_used_memory_bytes :: u64
  nss_peak_memory_bytes :: u64
  nss_key_count :: u64
  nss_active_connections :: u32
  nss_ops_total :: u64
  nss_bytes_read :: u64
  nss_bytes_written :: u64
  nss_hits :: u64
  nss_misses :: u64
  nss_quota_violations_memory :: u64
  nss_quota_violations_cpu :: u64
  nss_quota_violations_network :: u64
  nss_requests_rejected :: u64
  nss_requests_throttled :: u64
  nss_evictions_forced :: u64
  nss_created_at_us :: u64
  nss_last_access_us :: u64

text \<open>A token that \<open>strdup\<close> could not copy is \<open>None\<close>.\<close>

record Namespace =
  nsp_config :: NamespaceConfig
  nsp_stats :: NamespaceStats
  nsp_active :: bool
  nsp_tokens :: "bytes option list"
  nsp_token_cap :: nat
  nsp_ops_this_window :: u64
  nsp_window_start_us :: u64

record quota_state =
  g_namespaces :: "Namespace list"
  g_initialized :: bool

definition QUOTA_MAX_NAMESPACES :: nat where
  "QUOTA_MAX_NAMESPACES = 256"

definition QUOTA_NS_NAME_MAX :: nat where
  "QUOTA_NS_NAME_MAX = 64"

definition QUOTA_WINDOW_SECS :: u64 where
  "QUOTA_WINDOW_SECS = 1"

definition empty_config :: NamespaceConfig where
  "empty_config = \<lparr>nc_name = [], nc_max_memory_bytes = 0, nc_max_keys = 0, nc_memory_action = QUOTA_ACTION_REJECT,
     nc_max_ops_per_sec = 0, nc_cpu_action = QUOTA_ACTION_REJECT, nc_max_bandwidth_bps = 0, nc_max_connections = 0,
     nc_network_action = QUOTA_ACTION_REJECT, nc_default_ttl_secs = 0, nc_eviction_policy = 0, nc_dedicated_workers = 0\<rparr>"

definition empty_ns_stats :: NamespaceStats where
  "empty_ns_stats = \<lparr>nss_name = [], nss_used_memory_bytes = 0, nss_peak_memory_bytes = 0, nss_key_count = 0,
     nss_active_connections = 0, nss_ops_total = 0, nss_bytes_read = 0, nss_bytes_written = 0, nss_hits = 0, nss_misses = 0,
     nss_quota_violations_memory = 0, nss_quota_violations_cpu = 0, nss_quota_violations_network = 0,
     nss_requests_rejected = 0, nss_requests_throttled = 0, nss_evictions_forced = 0, nss_created_at_us = 0,
     nss_last_access_us = 0\<rparr>"

subsection \<open>Operations\<close>

definition quota_init :: quota_state where
  "quota_init = \<lparr>g_namespaces = [], g_initialized = True\<rparr>"

definition quota_shutdown :: "quota_state \<Rightarrow> quota_state" where
  "quota_shutdown q = \<lparr>g_namespaces = [], g_initialized = False\<rparr>"

definition ct_str_equal :: "bytes \<Rightarrow> bytes \<Rightarrow> bool" where
  "ct_str_equal a b =
     (let diff = (if length a \<noteq> length b then 1 else 0);
          n = (if length a < length b then length a else length b)
      in foldl (\<lambda>d i. d OR (a ! i XOR b ! i)) diff [0..<n] = 0)"

definition ns_find_nolock :: "quota_state \<Rightarrow> bytes \<Rightarrow> nat option" where
  "ns_find_nolock q name = find_index (\<lambda>ns. nsp_active ns \<and> nc_name (nsp_config ns) = name) (g_namespaces q)"

definition upd_ns :: "nat \<Rightarrow> (Namespace \<Rightarrow> Namespace) \<Rightarrow> quota_state \<Rightarrow> quota_state" where
  "upd_ns i f q = q\<lparr>g_namespaces := (g_namespaces q)[i := f (g_namespaces q ! i)]\<rparr>"

definition quota_namespace_create :: "u64 \<Rightarrow> u64 \<Rightarrow> quota_state \<Rightarrow> NamespaceConfig option \<Rightarrow> quota_state \<times> int" where
  "quota_namespace_create now1 now2 q config =
     (case config of None \<Rightarrow> (q, - 1)
      | Some c \<Rightarrow>
          if nc_name c = [] then (q, - 1)
          else if ns_find_nolock q (nc_name c) \<noteq> None then (q, - 1)
          else if length (g_namespaces q) \<ge> QUOTA_MAX_NAMESPACES then (q, - 1)
          else (q\<lparr>g_namespaces := g_namespaces q @
                   [\<lparr>nsp_config = c,
                     nsp_stats = empty_ns_stats\<lparr>nss_name := take (QUOTA_NS_NAME_MAX - 1) (nc_name c), nss_created_at_us := now1\<rparr>,
                     nsp_active = True, nsp_tokens = [], nsp_token_cap = 0, nsp_ops_this_window = 0,
                     nsp_window_start_us = now2\<rparr>]\<rparr>, 0))"

definition update_config :: "bytes \<Rightarrow> bytes \<Rightarrow> NamespaceConfig \<Rightarrow> NamespaceConfig" where
  "update_config key value c =
     (if key = str ''memory-limit'' then c\<lparr>nc_max_memory_bytes := word_of_int (c_atol value) * 1024 * 1024\<rparr>
      else if key = str ''cpu-budget'' then c
      else if key = str ''max-keys'' then c\<lparr>nc_max_keys := word_of_int (c_atol value)\<rparr>
      else if key = str ''max-connections'' then c\<lparr>nc_max_connections := word_of_int (c_atol value)\<rparr>
      else if key = str ''max-ops-per-sec'' then c\<lparr>nc_max_ops_per_sec := word_of_int (c_atol value)\<rparr>
      else if key = str ''default-ttl'' then c\<lparr>nc_default_ttl_secs := word_of_int (c_atol value)\<rparr>
      else c)"

definition quota_namespace_update :: "quota_state \<Rightarrow> bytes \<Rightarrow> bytes \<Rightarrow> bytes \<Rightarrow> quota_state \<times> int" where
  "quota_namespace_update q name key value =
     (case ns_find_nolock q name of
        None \<Rightarrow> (q, - 1)
      | Some i \<Rightarrow> (upd_ns i (\<lambda>ns. ns\<lparr>nsp_config := update_config key value (nsp_config ns)\<rparr>) q, 0))"

definition quota_namespace_drop :: "quota_state \<Rightarrow> bytes \<Rightarrow> quota_state \<times> int" where
  "quota_namespace_drop q name =
     (case ns_find_nolock q name of
        None \<Rightarrow> (q, - 1)
      | Some i \<Rightarrow>
          (upd_ns i (\<lambda>ns. ns\<lparr>nsp_active := False, nsp_tokens := [], nsp_token_cap := 0, nsp_config := empty_config\<rparr>) q, 0))"

definition quota_namespace_evict :: "quota_state \<Rightarrow> bytes \<Rightarrow> u64 \<Rightarrow> quota_state \<times> u64" where
  "quota_namespace_evict q name target_mb =
     (case ns_find_nolock q name of
        None \<Rightarrow> (q, 0)
      | Some i \<Rightarrow>
          let freed_mb = target_mb
          in (upd_ns i (\<lambda>ns. let st = nsp_stats ns; used = nss_used_memory_bytes st; freed = freed_mb * 1024 * 1024
                in ns\<lparr>nsp_stats := st\<lparr>nss_evictions_forced := nss_evictions_forced st + freed_mb,
                      nss_used_memory_bytes := (if used > freed then used - freed else used)\<rparr>\<rparr>) q, freed_mb))"

definition quota_auth_token_add :: "bool \<Rightarrow> bool \<Rightarrow> quota_state \<Rightarrow> bytes \<Rightarrow> bytes option \<Rightarrow> quota_state \<times> int" where
  "quota_auth_token_add realloc_ok strdup_ok q ns_name token =
     (case (ns_find_nolock q ns_name, token) of
        (Some i, Some tok) \<Rightarrow>
          let ns = g_namespaces q ! i; full = (length (nsp_tokens ns) \<ge> nsp_token_cap ns)
          in if full \<and> \<not> realloc_ok then (q, - 1)
             else (upd_ns i (\<lambda>ns. ns\<lparr>nsp_token_cap := (if full then if nsp_token_cap ns = 0 then 8 else nsp_token_cap ns * 2
                                                     else nsp_token_cap ns),
                      nsp_tokens := nsp_tokens ns @ [if strdup_ok then Some tok else None]\<rparr>) q, 0)
      | _ \<Rightarrow> (q, - 1))"

text \<open>
  The search over the tokens of a namespace; comparing with a token that was not copied reads through a
  null pointer, which has no result.
\<close>

fun token_search :: "bytes \<Rightarrow> bytes option list \<Rightarrow> bool option" where
  "token_search tok [] = Some False"
| "token_search tok (None # ts) = None"
| "token_search tok (Some t # ts) = (if ct_str_equal t tok then Some True else token_search tok ts)"

fun resolve_loop :: "bytes \<Rightarrow> Namespace list \<Rightarrow> bytes option option" where
  "resolve_loop tok [] = Some None"
| "resolve_loop tok (ns # nss) =
     (if \<not> nsp_active ns then resolve_loop tok nss
      else case token_search tok (nsp_tokens ns) of
             None \<Rightarrow> None
           | Some True \<Rightarrow> Some (Some (nc_name (nsp_config ns)))
           | Some False \<Rightarrow> resolve_loop tok nss)"

text \<open>The name is copied into a buffer of \<open>out_cap\<close> bytes; the inner \<open>None\<close> is the result -1.\<close>

definition quota_resolve_namespace :: "quota_state \<Rightarrow> bytes \<Rightarrow> nat \<Rightarrow> bytes option option" where
  "quota_resolve_namespace q token out_cap = map_option (map_option (take (out_cap - 1))) (resolve_loop token (g_namespaces q))"

text \<open>The three tests of \<open>quota_check\<close> in their order.\<close>

definition check_memory :: "Namespace \<Rightarrow> Namespace \<times> int" where
  "check_memory ns =
     (let c = nsp_config ns; st = nsp_stats ns in
      if nc_max_memory_bytes c > 0 \<and> nss_used_memory_bytes st \<ge> nc_max_memory_bytes c
      then let st1 = st\<lparr>nss_quota_violations_memory := nss_quota_violations_memory st + 1\<rparr>
           in if nc_memory_action c = QUOTA_ACTION_REJECT
              then (ns\<lparr>nsp_stats := st1\<lparr>nss_requests_rejected := nss_requests_rejected st1 + 1\<rparr>\<rparr>, - 1)
              else if nc_memory_action c = QUOTA_ACTION_THROTTLE
              then (ns\<lparr>nsp_stats := st1\<lparr>nss_requests_throttled := nss_requests_throttled st1 + 1\<rparr>\<rparr>, 1)
              else (ns\<lparr>nsp_stats := st1\<rparr>, 0)
      else (ns, 0))"

definition check_ops :: "u64 \<Rightarrow> Namespace \<Rightarrow> Namespace \<times> int" where
  "check_ops now ns =
     (let c = nsp_config ns; window_us = QUOTA_WINDOW_SECS * 1000000;
          ns1 = (if now - nsp_window_start_us ns \<ge> window_us
                 then ns\<lparr>nsp_ops_this_window := 0, nsp_window_start_us := now\<rparr> else ns);
          ns2 = ns1\<lparr>nsp_ops_this_window := nsp_ops_this_window ns1 + 1\<rparr>; st = nsp_stats ns2
      in if nsp_ops_this_window ns2 > nc_max_ops_per_sec c
         then let st1 = st\<lparr>nss_quota_violations_cpu := nss_quota_violations_cpu st + 1\<rparr>
              in if nc_cpu_action c = QUOTA_ACTION_REJECT
                 then (ns2\<lparr>nsp_stats := st1\<lparr>nss_requests_rejected := nss_requests_rejected st1 + 1\<rparr>\<rparr>, - 1)
                 else (ns2\<lparr>nsp_stats := st1\<lparr>nss_requests_throttled := nss_requests_throttled st1 + 1\<rparr>\<rparr>, 1)
         else (ns2, 0))"

definition check_keys :: "Namespace \<Rightarrow> Namespace \<times> int" where
  "check_keys ns =
     (let c = nsp_config ns; st = nsp_stats ns in
      if nc_max_keys c > 0 \<and> nss_key_count st \<ge> nc_max_keys c
      then (ns\<lparr>nsp_stats := st\<lparr>nss_requests_rejected := nss_requests_rejected st + 1\<rparr>\<rparr>, - 1)
      else (ns, 0))"

definition check_namespace :: "u64 \<Rightarrow> Namespace \<Rightarrow> Namespace \<times> int" where
  "check_namespace now ns =
     (let (ns1, r1) = check_memory ns;
          (ns2, r2) = (if r1 = 0 \<and> nc_max_ops_per_sec (nsp_config ns1) > 0 then check_ops now ns1 else (ns1, r1))
      in if r2 = 0 then check_keys ns2 else (ns2, r2))"

definition quota_check :: "u64 \<Rightarrow> quota_state \<Rightarrow> bytes option \<Rightarrow> quota_state \<times> int" where
  "quota_check now q ns_name =
     (case ns_name of None \<Rightarrow> (q, 0)
      | Some name \<Rightarrow>
          (case ns_find_nolock q name of
             None \<Rightarrow> (q, 0)
           | Some i \<Rightarrow>
               (case check_namespace now (g_namespaces q ! i) of (ns, r) \<Rightarrow> (upd_ns i (\<lambda>_. ns) q, r))))"

definition quota_record :: "u64 \<Rightarrow> quota_state \<Rightarrow> bytes option \<Rightarrow> u64 \<Rightarrow> u64 \<Rightarrow> bool \<Rightarrow> quota_state" where
  "quota_record now q ns_name bytes_in bytes_out is_hit =
     (case ns_name of None \<Rightarrow> q
      | Some name \<Rightarrow>
          (case ns_find_nolock q name of
             None \<Rightarrow> q
           | Some i \<Rightarrow>
               upd_ns i (\<lambda>ns. let st = nsp_stats ns
                 in ns\<lparr>nsp_stats := st\<lparr>nss_ops_total := nss_ops_total st + 1, nss_bytes_read := nss_bytes_read st + bytes_in,
                      nss_bytes_written := nss_bytes_written st + bytes_out, nss_last_access_us := now,
                      nss_hits := (if is_hit then nss_hits st + 1 else nss_hits st),
                      nss_misses := (if is_hit then nss_misses st else nss_misses st + 1)\<rparr>\<rparr>) q))"

definition quota_namespace_stats :: "quota_state \<Rightarrow> bytes \<Rightarrow> NamespaceStats" where
  "quota_namespace_stats q name =
     (case ns_find_nolock q name of None \<Rightarrow> empty_ns_stats | Some i \<Rightarrow> nsp_stats (g_namespaces q ! i))"

definition quota_list_namespaces :: "quota_state \<Rightarrow> nat \<Rightarrow> bytes list" where
  "quota_list_namespaces q max_out = take max_out (map (\<lambda>ns. nc_name (nsp_config ns)) (filter nsp_active (g_namespaces q)))"

end
