(* ===== verification/Nex_Quota_Props.thy ===== *)
theory Nex_Quota_Props
  imports Nex_Quota
begin

text \<open>
  Properties of the quota module: token comparison is equality, the namespace table refines a registry
  of names with their tokens, and the limits on memory and keys are never enforced.
\<close>

subsection \<open>Comparing tokens\<close>

lemma or_foldl_zero: "foldl (\<lambda>d i. d OR f i) (d :: u8) xs = 0 \<longleftrightarrow> d = 0 \<and> (\<forall>x \<in> set xs. f x = 0)"
  by (induction xs arbitrary: d) (auto simp: or_eq_0_iff)

lemma xor_zero_iff: "(a :: u8) XOR b = 0 \<longleftrightarrow> a = b"
proof
  assume "a XOR b = 0"
  moreover have "a = (a XOR b) XOR b" by (simp add: xor.assoc)
  ultimately show "a = b" by simp
qed simp

lemma ct_str_equal_iff: "ct_str_equal a b \<longleftrightarrow> a = b"
proof (cases "length a = length b")
  case True
  have "ct_str_equal a b \<longleftrightarrow> (\<forall>i \<in> set [0..<length b]. a ! i XOR b ! i = 0)"
    using True unfolding ct_str_equal_def Let_def or_foldl_zero by simp
  also have "\<dots> \<longleftrightarrow> (\<forall>i < length b. a ! i = b ! i)" unfolding xor_zero_iff by auto
  finally show ?thesis using True by (simp add: list_eq_iff_nth_eq)
next
  case False
  then have "\<not> ct_str_equal a b" unfolding ct_str_equal_def Let_def or_foldl_zero by simp
  with False show ?thesis by blast
qed

subsection \<open>Finding a namespace\<close>

definition ns_is :: "bytes \<Rightarrow> Namespace \<Rightarrow> bool" where
  "ns_is name ns \<longleftrightarrow> nsp_active ns \<and> nc_name (nsp_config ns) = name"

definition names_ok :: "Namespace list \<Rightarrow> bool" where
  "names_ok nss \<longleftrightarrow> distinct (map (\<lambda>ns. nc_name (nsp_config ns)) (filter nsp_active nss))"

lemma ns_find_is: "ns_find_nolock q name = find_index (ns_is name) (g_namespaces q)"
  unfolding ns_find_nolock_def by (rule find_index_cong) (simp add: ns_is_def)

text \<open>With distinct names, changing the namespace that was found is a map over all of them.\<close>

lemma upd_found_map:
  assumes "names_ok nss" "find_index (ns_is name) nss = Some i"
  shows "nss[i := f (nss ! i)] = map (\<lambda>ns. if ns_is name ns then f ns else ns) nss"
  using assms
proof (induction nss arbitrary: i)
  case (Cons ns nss)
  show ?case
  proof (cases "ns_is name ns")
    case True
    then have "\<not> ns_is name x" if "x \<in> set nss" for x
      using Cons.prems(1) that unfolding names_ok_def ns_is_def by (force simp: image_iff)
    then have "map (\<lambda>ns. if ns_is name ns then f ns else ns) nss = nss" by (simp add: map_idI)
    then show ?thesis using True Cons.prems(2) by auto
  next
    case False
    have "names_ok nss" using Cons.prems(1) by (auto simp: names_ok_def split: if_splits)
    then show ?thesis using False Cons by (auto split: option.splits)
  qed
qed simp

lemma upd_absent_map:
  assumes "find_index (ns_is name) nss = None"
  shows "map (\<lambda>ns. if ns_is name ns then f ns else ns) nss = nss"
  using assms by (auto simp: find_index_None intro!: map_idI)

subsection \<open>The operations of a run\<close>

datatype quota_op =
    QCreate u64 u64 NamespaceConfig
  | QUpdate bytes bytes bytes
  | QDrop bytes
  | QEvict bytes u64
  | QAdd bool bool bytes bytes
  | QCheck u64 "bytes option"
  | QRecord u64 "bytes option" u64 u64 bool

fun quota_step :: "quota_state \<Rightarrow> quota_op \<Rightarrow> quota_state" where
  "quota_step q (QCreate now1 now2 c) = fst (quota_namespace_create now1 now2 q (Some c))"
| "quota_step q (QUpdate name key v) = fst (quota_namespace_update q name key v)"
| "quota_step q (QDrop name) = fst (quota_namespace_drop q name)"
| "quota_step q (QEvict name mb) = fst (quota_namespace_evict q name mb)"
| "quota_step q (QAdd ro so name tok) = fst (quota_auth_token_add ro so q name (Some tok))"
| "quota_step q (QCheck now name) = fst (quota_check now q name)"
| "quota_step q (QRecord now name bi bo hit) = quota_record now q name bi bo hit"

text \<open>The fields of a namespace that the check changes.\<close>

lemma check_namespace_keeps:
  assumes "check_namespace now ns = (ns', r)"
  shows "nsp_config ns' = nsp_config ns" "nsp_active ns' = nsp_active ns" "nsp_tokens ns' = nsp_tokens ns"
    "nss_used_memory_bytes (nsp_stats ns') = nss_used_memory_bytes (nsp_stats ns)" "nss_key_count (nsp_stats ns') = nss_key_count (nsp_stats ns)"
  using assms
  by (auto simp: check_namespace_def check_memory_def check_ops_def check_keys_def Let_def split: if_splits)

subsection \<open>A registry of names and tokens\<close>

text \<open>
  What the table is meant to hold: the live namespaces in the order of their creation, each with its
  tokens, and how many have been created.
\<close>

record registry =
  reg_entries :: "(bytes \<times> bytes list) list"
  reg_created :: nat

fun reg_step :: "registry \<Rightarrow> quota_op \<Rightarrow> registry" where
  "reg_step r (QCreate now1 now2 c) =
     (if nc_name c = [] \<or> nc_name c \<in> fst ` set (reg_entries r) \<or> 256 \<le> reg_created r then r
      else \<lparr>reg_entries = reg_entries r @ [(nc_name c, [])], reg_created = reg_created r + 1\<rparr>)"
| "reg_step r (QDrop name) = r\<lparr>reg_entries := filter (\<lambda>e. fst e \<noteq> name) (reg_entries r)\<rparr>"
| "reg_step r (QAdd ro so name tok) =
     r\<lparr>reg_entries := map (\<lambda>e. if fst e = name then (fst e, snd e @ [tok]) else e) (reg_entries r)\<rparr>"
| "reg_step r op = r"

definition reg_resolve :: "registry \<Rightarrow> bytes \<Rightarrow> bytes option" where
  "reg_resolve r tok = map_option fst (find (\<lambda>e. tok \<in> set (snd e)) (reg_entries r))"

definition ns_entry :: "Namespace \<Rightarrow> bytes \<times> bytes list" where
  "ns_entry ns = (nc_name (nsp_config ns), map the (nsp_tokens ns))"

definition reg_of :: "quota_state \<Rightarrow> registry" where
  "reg_of q = \<lparr>reg_entries = map ns_entry (filter nsp_active (g_namespaces q)), reg_created = length (g_namespaces q)\<rparr>"

definition quota_inv :: "quota_state \<Rightarrow> bool" where
  "quota_inv q \<longleftrightarrow> names_ok (g_namespaces q) \<and> length (g_namespaces q) \<le> 256 \<and> (\<forall>ns \<in> set (g_namespaces q). None \<notin> set (nsp_tokens ns))"

text \<open>Allocations succeed.\<close>

fun op_allocates :: "quota_op \<Rightarrow> bool" where
  "op_allocates (QAdd ro so name tok) \<longleftrightarrow> ro \<and> so"
| "op_allocates op \<longleftrightarrow> True"

lemma upd_ns_map:
  assumes "names_ok (g_namespaces q)" "ns_find_nolock q name = Some i"
  shows "g_namespaces (upd_ns i f q) = map (\<lambda>ns. if ns_is name ns then f ns else ns) (g_namespaces q)"
  using upd_found_map [OF assms(1), of name i f] assms(2) by (simp add: upd_ns_def ns_find_is)

lemma filter_map_update:
  assumes "i < length xs" "g y = g (xs ! i)" "nsp_active y = nsp_active (xs ! i)"
  shows "map g (filter nsp_active (xs[i := y])) = map g (filter nsp_active xs)"
  using assms
proof (induction xs arbitrary: i)
  case (Cons x xs)
  then show ?case by (cases i) auto
qed simp

text \<open>An update of one namespace that keeps its name, tokens and activity.\<close>

lemma upd_ns_same:
  assumes inv: "quota_inv q" and f: "ns_find_nolock q name = Some i"
    and g: "nc_name (nsp_config (h (g_namespaces q ! i))) = nc_name (nsp_config (g_namespaces q ! i))"
      "nsp_active (h (g_namespaces q ! i)) = nsp_active (g_namespaces q ! i)" "nsp_tokens (h (g_namespaces q ! i)) = nsp_tokens (g_namespaces q ! i)"
  shows "quota_inv (upd_ns i h q) \<and> reg_of (upd_ns i h q) = reg_of q"
proof -
  have i: "i < length (g_namespaces q)" using f find_index_SomeD unfolding ns_find_is by blast
  let ?y = "h (g_namespaces q ! i)"
  have "names_ok (g_namespaces (upd_ns i h q))"
    using inv filter_map_update [of i "g_namespaces q" "\<lambda>ns. nc_name (nsp_config ns)" ?y] i g by (simp add: quota_inv_def names_ok_def upd_ns_def)
  moreover have "None \<notin> set (nsp_tokens ns)" if "ns \<in> set (g_namespaces (upd_ns i h q))" for ns
    using that inv g(3) i set_update_subset_insert [of "g_namespaces q" i ?y] by (auto simp: quota_inv_def upd_ns_def)
  moreover have "reg_of (upd_ns i h q) = reg_of q"
    using filter_map_update [of i "g_namespaces q" ns_entry ?y] i g by (simp add: reg_of_def ns_entry_def upd_ns_def)
  ultimately show ?thesis using inv by (simp add: quota_inv_def upd_ns_def)
qed

lemma update_config_name [simp]: "nc_name (update_config key value c) = nc_name c"
  by (simp add: update_config_def)

lemma found_is: "ns_find_nolock q name = Some i \<Longrightarrow> i < length (g_namespaces q) \<and> ns_is name (g_namespaces q ! i)"
  unfolding ns_find_is by (drule find_index_SomeD) simp

lemma absent_entry: "ns_find_nolock q name = None \<longleftrightarrow> name \<notin> fst ` set (reg_entries (reg_of q))"
  by (auto simp: ns_find_is find_index_None ns_is_def reg_of_def ns_entry_def image_iff)

lemma create_refines:
  assumes "quota_inv q"
  shows "quota_inv (fst (quota_namespace_create n1 n2 q (Some c))) \<and>
    reg_of (fst (quota_namespace_create n1 n2 q (Some c))) = reg_step (reg_of q) (QCreate n1 n2 c)"
proof -
  have len: "reg_created (reg_of q) = length (g_namespaces q)" by (simp add: reg_of_def)
  have fr: "nc_name c \<notin> (\<lambda>ns. nc_name (nsp_config ns)) ` set (filter nsp_active (g_namespaces q))"
    if "ns_find_nolock q (nc_name c) = None"
    using that by (auto simp: ns_find_is find_index_None ns_is_def)
  show ?thesis
    using assms fr absent_entry [of q "nc_name c"] len
    by (auto simp: quota_namespace_create_def QUOTA_MAX_NAMESPACES_def quota_inv_def names_ok_def)
      (auto simp: reg_of_def ns_entry_def)
qed

lemma drop_refines:
  assumes "quota_inv q"
  shows "quota_inv (fst (quota_namespace_drop q name)) \<and> reg_of (fst (quota_namespace_drop q name)) = reg_step (reg_of q) (QDrop name)"
proof (cases "ns_find_nolock q name")
  case None
  then have "filter (\<lambda>e. fst e \<noteq> name) (reg_entries (reg_of q)) = reg_entries (reg_of q)"
    using absent_entry [of q name] by (intro filter_True) auto
  then show ?thesis using None assms by (simp add: quota_namespace_drop_def)
next
  case (Some i)
  let ?f = "\<lambda>ns. ns\<lparr>nsp_active := False, nsp_tokens := [], nsp_token_cap := 0, nsp_config := empty_config\<rparr>"
  let ?q = "upd_ns i ?f q"
  have n: "names_ok (g_namespaces q)" using assms by (simp add: quota_inv_def)
  note m = upd_ns_map [OF n Some, of ?f]
  have fl: "filter nsp_active (map (\<lambda>ns. if ns_is name ns then ?f ns else ns) xs) = filter (\<lambda>ns. nc_name (nsp_config ns) \<noteq> name) (filter nsp_active xs)" for xs
    by (induction xs) (auto simp: ns_is_def)
  have "reg_of ?q = reg_step (reg_of q) (QDrop name)"
    unfolding reg_of_def m fl by (simp add: ns_entry_def filter_map comp_def)
  moreover have "names_ok (g_namespaces ?q)" using n unfolding names_ok_def m fl by (simp add: distinct_map_filter del: filter_filter)
  moreover have "None \<notin> set (nsp_tokens ns)" if "ns \<in> set (g_namespaces ?q)" for ns
    using that assms unfolding m by (auto simp: quota_inv_def split: if_splits)
  ultimately show ?thesis using Some assms by (simp add: quota_namespace_drop_def quota_inv_def) (simp add: upd_ns_def)
qed

lemma add_refines:
  assumes "quota_inv q"
  shows "quota_inv (fst (quota_auth_token_add True True q name (Some tok))) \<and>
    reg_of (fst (quota_auth_token_add True True q name (Some tok))) = reg_step (reg_of q) (QAdd True True name tok)"
proof (cases "ns_find_nolock q name")
  case None
  then have "map (\<lambda>e. if fst e = name then (fst e, snd e @ [tok]) else e) (reg_entries (reg_of q)) = reg_entries (reg_of q)"
    using absent_entry [of q name] by (intro map_idI) auto
  then show ?thesis using None assms by (simp add: quota_auth_token_add_def)
next
  case (Some i)
  define cap where "cap = (let ns = g_namespaces q ! i in if length (nsp_tokens ns) \<ge> nsp_token_cap ns
    then if nsp_token_cap ns = 0 then 8 else nsp_token_cap ns * 2 else nsp_token_cap ns)"
  let ?f = "\<lambda>ns. ns\<lparr>nsp_token_cap := cap, nsp_tokens := nsp_tokens ns @ [Some tok]\<rparr>"
  let ?q = "upd_ns i ?f q"
  have q: "fst (quota_auth_token_add True True q name (Some tok)) = ?q"
    using Some by (simp add: quota_auth_token_add_def cap_def upd_ns_def Let_def)
  have n: "names_ok (g_namespaces q)" using assms by (simp add: quota_inv_def)
  note m = upd_ns_map [OF n Some, of ?f]
  have fl: "filter nsp_active (map (\<lambda>ns. if ns_is name ns then ?f ns else ns) xs) = map (\<lambda>ns. if nc_name (nsp_config ns) = name then ?f ns else ns) (filter nsp_active xs)" for xs
    by (induction xs) (auto simp: ns_is_def)
  have "reg_of ?q = reg_step (reg_of q) (QAdd True True name tok)"
    unfolding reg_of_def m fl by (simp add: ns_entry_def comp_def)
  moreover have "names_ok (g_namespaces ?q)" using n unfolding names_ok_def m fl by (simp add: comp_def if_distrib cong: if_cong)
  moreover have "None \<notin> set (nsp_tokens ns)" if "ns \<in> set (g_namespaces ?q)" for ns
    using that assms unfolding m by (auto simp: quota_inv_def split: if_splits)
  ultimately show ?thesis using assms unfolding q by (simp add: quota_inv_def) (simp add: upd_ns_def)
qed

lemma step_refines:
  assumes "quota_inv q" "op_allocates op"
  shows "quota_inv (quota_step q op) \<and> reg_of (quota_step q op) = reg_step (reg_of q) op"
proof (cases op)
  case (QCreate now1 now2 c)
  show ?thesis unfolding QCreate quota_step.simps using create_refines [OF assms(1)] .
next
  case (QDrop name)
  show ?thesis unfolding QDrop quota_step.simps using drop_refines [OF assms(1)] .
next
  case (QAdd ro so name tok)
  then have "ro" "so" using assms(2) by simp_all
  then show ?thesis unfolding QAdd quota_step.simps using add_refines [OF assms(1), of name tok] by simp
next
  case (QUpdate name key v)
  then show ?thesis using assms(1) upd_ns_same [OF assms(1)] by (auto simp: quota_namespace_update_def split: option.splits)
next
  case (QEvict name mb)
  then show ?thesis using assms(1) upd_ns_same [OF assms(1)] by (auto simp: quota_namespace_evict_def Let_def split: option.splits)
next
  case (QCheck now name)
  then show ?thesis using assms(1) upd_ns_same [OF assms(1)] check_namespace_keeps
    by (fastforce simp: quota_check_def split: option.splits prod.splits)
next
  case (QRecord now name bi bo hit)
  then show ?thesis using assms(1) upd_ns_same [OF assms(1)] by (auto simp: quota_record_def Let_def split: option.splits)
qed

lemma quota_run_refines:
  assumes "list_all op_allocates ops" "quota_inv q"
  shows "quota_inv (foldl quota_step q ops) \<and> reg_of (foldl quota_step q ops) = foldl reg_step (reg_of q) ops"
  using assms
proof (induction ops arbitrary: q)
  case (Cons op ops)
  then show ?case using step_refines [of q op] by simp
qed simp

lemma token_search_spec:
  assumes "None \<notin> set ts"
  shows "token_search tok ts = Some (tok \<in> set (map the ts))"
  using assms
proof (induction ts)
  case (Cons t ts)
  then show ?case by (cases t) (auto simp: ct_str_equal_iff)
qed simp

lemma resolve_loop_spec:
  assumes "\<forall>ns \<in> set nss. None \<notin> set (nsp_tokens ns)"
  shows "resolve_loop tok nss = Some (map_option fst (find (\<lambda>e. tok \<in> set (snd e)) (map ns_entry (filter nsp_active nss))))"
  using assms
proof (induction nss)
  case (Cons ns nss)
  then show ?case using token_search_spec [of "nsp_tokens ns" tok] by (cases "tok \<in> set (map the (nsp_tokens ns))") (auto simp: ns_entry_def)
qed simp

text \<open>
  C10. The namespace table is a registry: after any sequence of its operations in which allocations
  succeed, a token resolves to the first live namespace it was added to, and the list of namespaces is the
  live names in the order of creation.  A duplicate or empty name is refused, and so is every creation after
  the 256th, dropped namespaces included.
\<close>

theorem quota_refines_registry:
  assumes "list_all op_allocates ops"
  shows "quota_resolve_namespace (foldl quota_step quota_init ops) tok cap =
      Some (map_option (take (cap - 1)) (reg_resolve (foldl reg_step \<lparr>reg_entries = [], reg_created = 0\<rparr> ops) tok)) \<and>
    quota_list_namespaces (foldl quota_step quota_init ops) n =
      take n (map fst (reg_entries (foldl reg_step \<lparr>reg_entries = [], reg_created = 0\<rparr> ops)))"
proof -
  have i: "quota_inv quota_init" "reg_of quota_init = \<lparr>reg_entries = [], reg_created = 0\<rparr>"
    by (simp_all add: quota_init_def quota_inv_def names_ok_def reg_of_def)
  let ?q = "foldl quota_step quota_init ops"
  have r: "quota_inv ?q" "reg_of ?q = foldl reg_step \<lparr>reg_entries = [], reg_created = 0\<rparr> ops"
    using quota_run_refines [OF assms i(1)] i(2) by simp_all
  show ?thesis unfolding r(2) [symmetric] using r(1) resolve_loop_spec [of "g_namespaces ?q" tok]
    by (simp add: quota_resolve_namespace_def quota_list_namespaces_def quota_inv_def reg_resolve_def reg_of_def comp_def ns_entry_def)
qed

definition sample_config :: "bytes \<Rightarrow> NamespaceConfig" where
  "sample_config name = empty_config\<lparr>nc_name := name, nc_max_ops_per_sec := 2, nc_max_memory_bytes := 1\<rparr>"

definition sample_ops :: "quota_op list" where
  "sample_ops = [QCreate 5 5 (sample_config [97]), QCreate 6 6 (sample_config [98]), QAdd True True [97] [1, 2], QAdd True True [98] [1, 2],
     QAdd True True [98] [3], QDrop [97]]"

theorem quota_refines_registry_witness:
  "list_all op_allocates sample_ops \<and>
   quota_resolve_namespace (foldl quota_step quota_init sample_ops) [1, 2] 64 = Some (Some [98]) \<and>
   quota_list_namespaces (foldl quota_step quota_init sample_ops) 10 = [[98]]"
proof -
  have o: "list_all op_allocates sample_ops" by (simp add: sample_ops_def)
  have r: "foldl reg_step \<lparr>reg_entries = [], reg_created = 0\<rparr> sample_ops = \<lparr>reg_entries = [([98], [[1, 2], [3]])], reg_created = 2\<rparr>"
    by (simp add: sample_ops_def sample_config_def)
  show ?thesis using o quota_refines_registry [OF o, of "[1, 2]" 64] quota_refines_registry [OF o, of _ _ 10]
    by (simp add: r reg_resolve_def)
qed

subsection \<open>What the checks enforce\<close>

text \<open>No operation adds to the memory or the keys a namespace is counted as using.\<close>

definition nothing_used :: "quota_state \<Rightarrow> bool" where
  "nothing_used q \<longleftrightarrow> (\<forall>ns \<in> set (g_namespaces q). nss_used_memory_bytes (nsp_stats ns) = 0 \<and> nss_key_count (nsp_stats ns) = 0)"

lemma nothing_used_upd:
  assumes "nothing_used q" "ns_find_nolock q name = Some i"
    "nss_used_memory_bytes (nsp_stats (f (g_namespaces q ! i))) = nss_used_memory_bytes (nsp_stats (g_namespaces q ! i)) \<or>
     nss_used_memory_bytes (nsp_stats (f (g_namespaces q ! i))) = 0"
    "nss_key_count (nsp_stats (f (g_namespaces q ! i))) = nss_key_count (nsp_stats (g_namespaces q ! i))"
  shows "nothing_used (upd_ns i f q)"
proof -
  have "nss_used_memory_bytes (nsp_stats (g_namespaces q ! i)) = 0 \<and> nss_key_count (nsp_stats (g_namespaces q ! i)) = 0"
    using assms(1) found_is [OF assms(2)] by (simp add: nothing_used_def)
  then have "nss_used_memory_bytes (nsp_stats (f (g_namespaces q ! i))) = 0 \<and> nss_key_count (nsp_stats (f (g_namespaces q ! i))) = 0"
    using assms(3,4) by auto
  then show ?thesis
    using assms(1) set_update_subset_insert [of "g_namespaces q" i "f (g_namespaces q ! i)"] by (auto simp: nothing_used_def upd_ns_def)
qed

lemma nothing_used_step:
  assumes "nothing_used q"
  shows "nothing_used (quota_step q op)"
proof (cases op)
  case (QCreate now1 now2 c)
  then show ?thesis using assms by (auto simp: nothing_used_def quota_namespace_create_def empty_ns_stats_def)
next
  case (QDrop name)
  then show ?thesis using assms nothing_used_upd [OF assms] by (auto simp: quota_namespace_drop_def split: option.splits)
next
  case (QAdd ro so name tok)
  then show ?thesis using assms nothing_used_upd [OF assms]
    by (auto simp: quota_auth_token_add_def Let_def split: option.splits)
next
  case (QUpdate name key v)
  then show ?thesis using assms nothing_used_upd [OF assms] by (auto simp: quota_namespace_update_def split: option.splits)
next
  case (QEvict name mb)
  show ?thesis
  proof (cases "ns_find_nolock q name")
    case (Some i)
    then have "nss_used_memory_bytes (nsp_stats (g_namespaces q ! i)) = 0" using assms found_is [OF Some] by (simp add: nothing_used_def)
    then show ?thesis unfolding QEvict using nothing_used_upd [OF assms Some] by (simp add: quota_namespace_evict_def Let_def Some)
  qed (use QEvict assms in \<open>simp add: quota_namespace_evict_def\<close>)
next
  case (QCheck now name)
  then show ?thesis using assms nothing_used_upd [OF assms] check_namespace_keeps(4,5)
    by (auto simp: quota_check_def split: option.splits prod.splits)
next
  case (QRecord now name bi bo hit)
  then show ?thesis using assms nothing_used_upd [OF assms] by (auto simp: quota_record_def Let_def split: option.splits)
qed

lemma nothing_used_run: "nothing_used q \<Longrightarrow> nothing_used (foldl quota_step q ops)"
  by (induction ops arbitrary: q) (simp_all add: nothing_used_step)

text \<open>
  C38. The limits on memory and keys are never enforced.  No operation of the file raises
  \<open>used_memory_bytes\<close> or \<open>key_count\<close>, so whatever the configured limits, after every sequence of
  operations \<open>quota_check\<close> returns what the rate limiter alone returns, and 0 for a namespace with no rate limit.
\<close>

theorem quota_limits_never_enforced:
  "snd (quota_check now (foldl quota_step quota_init ops) (Some name)) =
     (case find (\<lambda>ns. nsp_active ns \<and> nc_name (nsp_config ns) = name) (g_namespaces (foldl quota_step quota_init ops)) of
        None \<Rightarrow> 0
      | Some ns \<Rightarrow> if nc_max_ops_per_sec (nsp_config ns) = 0 then 0 else snd (check_ops now ns))"
proof -
  let ?q = "foldl quota_step quota_init ops"
  have u: "nothing_used ?q" by (rule nothing_used_run) (simp add: nothing_used_def quota_init_def)
  have f: "find P xs = map_option ((!) xs) (find_index P xs)" for P and xs :: "Namespace list"
    by (induction xs) (auto simp: option.map_comp comp_def)
  have c: "snd (check_namespace now ns) = (if nc_max_ops_per_sec (nsp_config ns) = 0 then 0 else snd (check_ops now ns))"
    if "ns \<in> set (g_namespaces ?q)" for ns
  proof -
    have z: "nss_used_memory_bytes (nsp_stats ns) = 0" "nss_key_count (nsp_stats ns) = 0" using u that by (simp_all add: nothing_used_def)
    have "\<not> (nc_max_memory_bytes (nsp_config ns) > 0 \<and> 0 \<ge> nc_max_memory_bytes (nsp_config ns))" by auto
    then have m: "check_memory ns = (ns, 0)" using z(1) unfolding check_memory_def Let_def by (simp only: if_False)
    have "check_keys ns' = (ns', 0)" if "nss_key_count (nsp_stats ns') = 0" for ns' 
    proof -
      have "\<not> (nc_max_keys (nsp_config ns') > 0 \<and> 0 \<ge> nc_max_keys (nsp_config ns'))" by auto
      then show ?thesis using that unfolding check_keys_def Let_def by (simp only: if_False)
    qed
    moreover have "nss_key_count (nsp_stats (fst (check_ops now ns))) = 0" using z(2) by (simp add: check_ops_def Let_def)
    ultimately show ?thesis using z(2) by (simp add: check_namespace_def m word_neq_0_conv split_beta)
  qed
  show ?thesis
  proof (cases "ns_find_nolock ?q name")
    case None
    then show ?thesis by (simp add: quota_check_def f ns_find_nolock_def)
  next
    case (Some i)
    then show ?thesis using c found_is [OF Some] by (simp add: quota_check_def f ns_find_nolock_def split_beta)
  qed
qed

end
