(* ===== verification/Nex_Quota_Rate.thy ===== *)
theory Nex_Quota_Rate
  imports Nex_Quota_Props
begin

text \<open>
  The rate limiter of security/quota.c: a fixed window of one second that starts anew with the first check
  after its end.  The counting argument is made once on the sequence of checks of one namespace
  (\<open>lane\<close>), and the table's operations are shown to produce such a sequence, whatever the other
  namespaces do in between.
\<close>

subsection \<open>Counting in windows\<close>

text \<open>
  The checks of a namespace with limit \<open>m\<close> whose window started at \<open>s\<close> and has counted \<open>c\<close>
  calls: each is a time and whether it was admitted.  A check is refused before it is counted, or is counted
  and admitted only within the limit.
\<close>

inductive lane :: "nat \<Rightarrow> nat \<Rightarrow> nat \<Rightarrow> nat \<Rightarrow> (nat \<times> bool) list \<Rightarrow> bool" for w m where
  lane_nil: "lane w m c s []"
| lane_refuse: "lane w m c s es \<Longrightarrow> lane w m c s ((t, False) # es)"
| lane_same: "t < s + w \<Longrightarrow> (adm \<longrightarrow> c + 1 \<le> m) \<Longrightarrow> lane w m (c + 1) s es \<Longrightarrow> lane w m c s ((t, adm) # es)"
| lane_fresh: "s + w \<le> t \<Longrightarrow> (adm \<longrightarrow> 1 \<le> m) \<Longrightarrow> lane w m 1 t es \<Longrightarrow> lane w m c s ((t, adm) # es)"

definition admitted_in :: "nat \<Rightarrow> nat \<Rightarrow> (nat \<times> bool) list \<Rightarrow> nat" where
  "admitted_in a b es = length (filter (\<lambda>(t, adm). adm \<and> a \<le> t \<and> t < b) es)"

lemma admitted_in_simps [simp]:
  "admitted_in a b [] = 0"
  "admitted_in a b ((t, adm) # es) = (if adm \<and> a \<le> t \<and> t < b then 1 else 0) + admitted_in a b es"
  by (simp_all add: admitted_in_def)

lemma admitted_in_late: "(\<forall>e \<in> set es. b \<le> fst e) \<Longrightarrow> admitted_in a b es = 0"
  by (induction es) auto

lemma lane_within_window:
  assumes "lane w m c s es" "sorted (map fst es)" "b \<le> s + w"
  shows "admitted_in a b es \<le> m - c"
  using assms
proof (induction rule: lane.induct)
  case (lane_fresh s t adm es c)
  then have "admitted_in a b es = 0" by (intro admitted_in_late) auto
  then show ?case using lane_fresh by simp
qed auto

lemma lane_from:
  assumes "lane w m c s es" "sorted (map fst es)" "\<forall>e \<in> set es. a \<le> fst e"
  shows "admitted_in a (a + w) es \<le> (m - c) + m"
  using assms
proof (induction rule: lane.induct)
  case (lane_fresh s t adm es c)
  then have "admitted_in a (a + w) es \<le> m - 1" by (intro lane_within_window) auto
  then show ?case using lane_fresh by auto
qed auto

lemma lane_bound:
  assumes "lane w m c s es" "sorted (map fst es)"
  shows "admitted_in a (a + w) es \<le> 2 * m"
  using assms
proof (induction es arbitrary: c s rule: list.induct)
  case (Cons e es)
  show ?case
  proof (cases "a \<le> fst e")
    case True
    then have "\<forall>x \<in> set (e # es). a \<le> fst x" using Cons.prems(2) by auto
    then show ?thesis using lane_from [OF Cons.prems] by fastforce
  next
    case False
    obtain t adm where e: "e = (t, adm)" by (cases e)
    obtain c' s' where "lane w m c' s' es" using Cons.prems(1) by (cases rule: lane.cases) auto
    then show ?thesis using Cons False e by simp
  qed
qed simp

subsection \<open>One namespace of the table\<close>

definition ns_at :: "bytes \<Rightarrow> quota_state \<Rightarrow> Namespace option" where
  "ns_at name q = find (ns_is name) (g_namespaces q)"

lemma find_nth: "find P xs = map_option ((!) xs) (find_index P xs)"
  by (induction xs) (auto simp: option.map_comp comp_def)

lemma ns_at_index: "ns_at name q = map_option ((!) (g_namespaces q)) (ns_find_nolock q name)"
  by (simp add: ns_at_def find_nth ns_find_is)

text \<open>The operations that leave the limits of a namespace as they are.\<close>

fun keeps_limits :: "bytes \<Rightarrow> quota_op \<Rightarrow> bool" where
  "keeps_limits name (QUpdate n key v) \<longleftrightarrow> n \<noteq> name"
| "keeps_limits name (QDrop n) \<longleftrightarrow> n \<noteq> name"
| "keeps_limits name op \<longleftrightarrow> True"

definition rate_view :: "Namespace \<Rightarrow> NamespaceConfig \<times> u64 \<times> u64" where
  "rate_view ns = (nsp_config ns, nsp_ops_this_window ns, nsp_window_start_us ns)"

lemma ns_at_upd:
  assumes "names_ok (g_namespaces q)" "ns_find_nolock q other = Some i" "ns_at name q = Some ns"
    and f: "\<And>x. ns_is other x \<Longrightarrow> ns_is name (f x) \<longleftrightarrow> other = name"
  shows "ns_at name (upd_ns i f q) = Some (if other = name then f ns else ns)"
proof -
  have u: "ns_is n x \<Longrightarrow> ns_is n' x \<longleftrightarrow> n' = n" for n n' x by (auto simp: ns_is_def)
  have "find (ns_is name) (map (\<lambda>x. if ns_is other x then f x else x) xs) = Some (if other = name then f ns else ns)"
    if "find (ns_is name) xs = Some ns" for xs
    using that
  proof (induction xs)
    case (Cons x xs)
    then show ?case using f [of x] u [of other x name] by (cases "ns_is other x") (auto split: if_splits)
  qed simp
  then show ?thesis using assms(3) by (simp add: ns_at_def upd_ns_map [OF assms(1,2)])
qed

lemma names_ok_upd:
  assumes "names_ok (g_namespaces q)" "ns_find_nolock q name = Some i"
    "nc_name (nsp_config (f (g_namespaces q ! i))) = nc_name (nsp_config (g_namespaces q ! i))"
    "nsp_active (f (g_namespaces q ! i)) = nsp_active (g_namespaces q ! i)"
  shows "names_ok (g_namespaces (upd_ns i f q))"
  using assms found_is [OF assms(2)] filter_map_update [of i "g_namespaces q" "\<lambda>ns. nc_name (nsp_config ns)" "f (g_namespaces q ! i)"]
  by (simp add: names_ok_def upd_ns_def)

fun checks_ns :: "bytes \<Rightarrow> quota_op \<Rightarrow> u64 option" where
  "checks_ns name (QCheck now (Some n)) = (if n = name then Some now else None)"
| "checks_ns name op = None"

text \<open>
  A step keeps the names distinct, and of a namespace whose limits it keeps only a check of that namespace
  changes the counter and the window.
\<close>

definition step_view :: "bytes \<Rightarrow> quota_op \<Rightarrow> Namespace \<Rightarrow> NamespaceConfig \<times> u64 \<times> u64" where
  "step_view name op ns = (case checks_ns name op of None \<Rightarrow> rate_view ns | Some now \<Rightarrow> rate_view (fst (check_namespace now ns)))"

definition ns_step_ok :: "bytes \<Rightarrow> quota_state \<Rightarrow> quota_op \<Rightarrow> Namespace \<Rightarrow> bool" where
  "ns_step_ok name q op ns \<longleftrightarrow> names_ok (g_namespaces (quota_step q op)) \<and>
     (\<exists>ns'. ns_at name (quota_step q op) = Some ns' \<and> rate_view ns' = step_view name op ns)"

lemma ns_step_upd:
  assumes q: "names_ok (g_namespaces q)" "ns_at name q = Some ns" "quota_step q op = upd_ns i f q" "ns_find_nolock q other = Some i"
    and f: "\<And>x. nc_name (nsp_config (f x)) = nc_name (nsp_config x)" "\<And>x. nsp_active (f x) = nsp_active x"
    and v: "other = name \<Longrightarrow> rate_view (f ns) = rate_view ns" and op: "checks_ns name op = None"
  shows "ns_step_ok name q op ns"
proof -
  have "ns_is name (f x) \<longleftrightarrow> other = name" if "ns_is other x" for x using that f by (auto simp: ns_is_def)
  then show ?thesis
    using ns_at_upd [OF q(1,4,2), of f] names_ok_upd [OF q(1,4), of f] f v op by (auto simp: ns_step_ok_def q(3) step_view_def)
qed

lemma ns_step_check:
  assumes q: "names_ok (g_namespaces q)" "ns_at name q = Some ns"
  shows "ns_step_ok name q (QCheck now (Some other)) ns"
proof (cases "ns_find_nolock q other")
  case None
  then show ?thesis using q by (auto simp: ns_step_ok_def quota_check_def step_view_def ns_at_index)
next
  case (Some i)
  let ?x = "g_namespaces q ! i"
  obtain y r where c: "check_namespace now ?x = (y, r)" by (cases "check_namespace now ?x")
  note k = check_namespace_keeps [OF c]
  have s: "quota_step q (QCheck now (Some other)) = upd_ns i (\<lambda>_. y) q" by (simp add: quota_check_def Some c)
  have x: "ns_is other y" using k(1,2) found_is [OF Some] by (simp add: ns_is_def)
  then have "ns_is name y \<longleftrightarrow> other = name" by (auto simp: ns_is_def)
  then have a: "ns_at name (upd_ns i (\<lambda>_. y) q) = Some (if other = name then y else ns)"
    by (intro ns_at_upd [OF q(1) Some q(2)]) simp
  have "other = name \<Longrightarrow> ns = ?x" using q(2) Some by (simp add: ns_at_index)
  then have "rate_view (if other = name then y else ns) = step_view name (QCheck now (Some other)) ns"
    using c by (auto simp: step_view_def)
  then show ?thesis unfolding ns_step_ok_def s a using names_ok_upd [OF q(1) Some, of "\<lambda>_. y"] k(1,2) by simp
qed

lemma ns_step_drop:
  assumes q: "names_ok (g_namespaces q)" "ns_at name q = Some ns" "other \<noteq> name"
  shows "ns_step_ok name q (QDrop other) ns"
proof (cases "ns_find_nolock q other")
  case None
  then show ?thesis using q by (auto simp: ns_step_ok_def quota_namespace_drop_def step_view_def)
next
  case (Some i)
  let ?f = "\<lambda>ns. ns\<lparr>nsp_active := False, nsp_tokens := [], nsp_token_cap := 0, nsp_config := empty_config\<rparr>"
  have s: "quota_step q (QDrop other) = upd_ns i ?f q" by (simp add: quota_namespace_drop_def Some)
  have "filter nsp_active (map (\<lambda>ns. if ns_is other ns then ?f ns else ns) xs) = filter (\<lambda>ns. nc_name (nsp_config ns) \<noteq> other) (filter nsp_active xs)" for xs
    by (induction xs) (auto simp: ns_is_def)
  then have "names_ok (g_namespaces (upd_ns i ?f q))"
    using q(1) unfolding names_ok_def upd_ns_map [OF q(1) Some] by (simp add: distinct_map_filter del: filter_filter)
  moreover have "ns_at name (upd_ns i ?f q) = Some ns"
    using ns_at_upd [OF q(1) Some q(2), of ?f] q(3) by (simp add: ns_is_def)
  ultimately show ?thesis unfolding ns_step_ok_def s by (simp add: step_view_def)
qed

lemma ns_step_create:
  assumes q: "names_ok (g_namespaces q)" "ns_at name q = Some ns"
  shows "ns_step_ok name q (QCreate n1 n2 c) ns"
proof -
  have "find P (xs @ ys) = Some x" if "find P xs = Some x" for P xs ys and x :: Namespace using that by (induction xs) auto
  moreover have "ns_find_nolock q (nc_name c) = None \<Longrightarrow> nc_name c \<notin> (\<lambda>ns. nc_name (nsp_config ns)) ` set (filter nsp_active (g_namespaces q))"
    by (auto simp: ns_find_is find_index_None ns_is_def)
  ultimately show ?thesis using q
    by (auto simp: ns_step_ok_def quota_namespace_create_def step_view_def ns_at_def names_ok_def)
qed

lemma ns_step:
  assumes q: "names_ok (g_namespaces q)" "ns_at name q = Some ns" and k: "keeps_limits name op"
  shows "ns_step_ok name q op ns"
proof -
  have id: "ns_step_ok name q op ns" if "quota_step q op = q" "checks_ns name op = None"
    using q that by (auto simp: ns_step_ok_def step_view_def)
  show ?thesis
  proof (cases op)
    case (QCreate now1 now2 c)
    show ?thesis unfolding QCreate by (rule ns_step_create [OF q])
  next
    case (QDrop n)
    show ?thesis unfolding QDrop by (rule ns_step_drop [OF q]) (use k QDrop in simp)
  next
    case (QCheck now n)
    show ?thesis by (cases n) (use QCheck id ns_step_check [OF q] in \<open>simp_all add: quota_check_def\<close>)
  next
    case (QUpdate n key v)
    show ?thesis
    proof (cases "ns_find_nolock q n")
      case (Some i)
      show ?thesis
        by (rule ns_step_upd [OF q _ Some], simp add: QUpdate quota_namespace_update_def Some) (use k QUpdate in simp_all)
    qed (use QUpdate id in \<open>simp add: quota_namespace_update_def\<close>)
  next
    case (QEvict n mb)
    show ?thesis
    proof (cases "ns_find_nolock q n")
      case (Some i)
      show ?thesis
        by (rule ns_step_upd [OF q _ Some], simp add: QEvict quota_namespace_evict_def Some Let_def) (simp_all add: QEvict rate_view_def)
    qed (use QEvict id in \<open>simp add: quota_namespace_evict_def\<close>)
  next
    case (QAdd ro so n tok)
    show ?thesis
    proof (cases "snd (quota_auth_token_add ro so q n (Some tok)) = - 1")
      case True
      then show ?thesis using QAdd id by (auto simp: quota_auth_token_add_def Let_def split: option.splits if_splits)
    next
      case False
      then obtain i where i: "ns_find_nolock q n = Some i" by (cases "ns_find_nolock q n") (simp_all add: quota_auth_token_add_def)
      have g: "\<not> (nsp_token_cap (g_namespaces q ! i) \<le> length (nsp_tokens (g_namespaces q ! i)) \<and> \<not> ro)"
        using False i by (auto simp: quota_auth_token_add_def Let_def split: if_splits)
      show ?thesis
        by (rule ns_step_upd [OF q _ i], simp only: QAdd quota_step.simps quota_auth_token_add_def i Let_def g if_False option.case prod.case fst_conv)
          (simp_all add: QAdd rate_view_def)
    qed
  next
    case (QRecord now n bi bo hit)
    show ?thesis
    proof (cases "n = None \<or> ns_find_nolock q (the n) = None")
      case True
      then show ?thesis using QRecord id by (cases n) (auto simp: quota_record_def)
    next
      case False
      then obtain m i where n: "n = Some m" and i: "ns_find_nolock q m = Some i" by auto
      show ?thesis
        by (rule ns_step_upd [OF q _ i], simp add: QRecord quota_record_def n i Let_def) (simp_all add: QRecord rate_view_def)
    qed
  qed
qed

subsection \<open>The bound\<close>

text \<open>The checks of one namespace in a run: when, and whether the result was 0.\<close>

fun lane_of :: "bytes \<Rightarrow> quota_state \<Rightarrow> quota_op list \<Rightarrow> (nat \<times> bool) list" where
  "lane_of name q [] = []"
| "lane_of name q (op # ops) =
     (case checks_ns name op of None \<Rightarrow> []
      | Some now \<Rightarrow> [(unat now, snd (quota_check now q (Some name)) = 0)]) @ lane_of name (quota_step q op) ops"

lemma check_ops_view:
  "rate_view (fst (check_ops now ns)) =
     (nsp_config ns, if now - nsp_window_start_us ns \<ge> 1000000 then (1, now) else (nsp_ops_this_window ns + 1, nsp_window_start_us ns))"
  "snd (check_ops now ns) = 0 \<longleftrightarrow>
     (if now - nsp_window_start_us ns \<ge> 1000000 then 1 else nsp_ops_this_window ns + 1) \<le> nc_max_ops_per_sec (nsp_config ns)"
  by (simp_all add: check_ops_def Let_def rate_view_def QUOTA_WINDOW_SECS_def linorder_not_less [symmetric] del: not_less linorder_not_less)

lemma check_namespace_view:
  assumes "nc_max_ops_per_sec (nsp_config ns) \<noteq> 0"
  shows "(rate_view (fst (check_namespace now ns)) = rate_view ns \<and> snd (check_namespace now ns) \<noteq> 0) \<or>
    (rate_view (fst (check_namespace now ns)) =
       (nsp_config ns, if now - nsp_window_start_us ns \<ge> 1000000 then (1, now) else (nsp_ops_this_window ns + 1, nsp_window_start_us ns)) \<and>
     (snd (check_namespace now ns) = 0 \<longrightarrow>
       (if now - nsp_window_start_us ns \<ge> 1000000 then 1 else nsp_ops_this_window ns + 1) \<le> nc_max_ops_per_sec (nsp_config ns)))"
proof -
  obtain a r where m: "check_memory ns = (a, r)" by (cases "check_memory ns")
  have a: "rate_view a = rate_view ns" using m by (auto simp: check_memory_def Let_def rate_view_def split: if_splits)
  have e: "nsp_config a = nsp_config ns" "nsp_ops_this_window a = nsp_ops_this_window ns" "nsp_window_start_us a = nsp_window_start_us ns"
    using a by (simp_all add: rate_view_def)
  have k: "rate_view (fst (check_keys x)) = rate_view x" for x by (simp add: check_keys_def Let_def rate_view_def)
  show ?thesis
  proof (cases "r = 0")
    case True
    then have "check_namespace now ns = (if snd (check_ops now a) = 0 then check_keys (fst (check_ops now a)) else check_ops now a)"
      using assms by (simp add: check_namespace_def m e word_neq_0_conv split_beta)
    then show ?thesis using check_ops_view [of now a] k [of "fst (check_ops now a)"] by (simp add: e)
  next
    case False
    then show ?thesis using a by (simp add: check_namespace_def m)
  qed
qed

lemma window_end:
  fixes now start :: u64
  assumes "start \<le> now"
  shows "1000000 \<le> now - start \<longleftrightarrow> unat start + 1000000 \<le> unat now"
  using assms unat_sub [OF assms] by (auto simp: word_le_nat_alt)

lemma lane_of_lane:
  assumes "names_ok (g_namespaces q)" "ns_at name q = Some ns" "list_all (keeps_limits name) ops"
    "nc_max_ops_per_sec (nsp_config ns) \<noteq> 0" "sorted (unat (nsp_window_start_us ns) # map fst (lane_of name q ops))"
    "unat (nsp_ops_this_window ns) + length ops < 2 ^ 64"
  shows "lane 1000000 (unat (nc_max_ops_per_sec (nsp_config ns))) (unat (nsp_ops_this_window ns)) (unat (nsp_window_start_us ns)) (lane_of name q ops)"
  using assms
proof (induction ops arbitrary: q ns)
  case (Cons op ops)
  let ?m = "nc_max_ops_per_sec (nsp_config ns)" and ?c = "nsp_ops_this_window ns" and ?s = "nsp_window_start_us ns"
  have k: "keeps_limits name op" using Cons.prems(3) by simp
  obtain ns' where n: "names_ok (g_namespaces (quota_step q op))" "ns_at name (quota_step q op) = Some ns'" "rate_view ns' = step_view name op ns"
    using ns_step [OF Cons.prems(1,2) k] by (auto simp: ns_step_ok_def)
  note IH = Cons.IH [OF n(1,2)]
  show ?case
  proof (cases "checks_ns name op")
    case None
    then have "nsp_config ns' = nsp_config ns" "nsp_ops_this_window ns' = ?c" "nsp_window_start_us ns' = ?s"
      using n(3) by (simp_all add: step_view_def rate_view_def)
    then show ?thesis using IH Cons.prems None by simp
  next
    case (Some now)
    have r: "snd (quota_check now q (Some name)) = snd (check_namespace now ns)"
      using Cons.prems(2) by (auto simp: quota_check_def ns_at_index split: prod.splits)
    have le: "?s \<le> now" using Cons.prems(5) Some by (simp add: word_le_nat_alt)
    have v: "rate_view ns' = rate_view (fst (check_namespace now ns))" using n(3) Some by (simp add: step_view_def)
    have c1: "unat (?c + 1) = unat ?c + 1" using Cons.prems(6) by (simp add: unat_word_ariths)
    let ?L = "lane_of name (quota_step q op) ops"
    have l: "lane_of name q (op # ops) = (unat now, snd (check_namespace now ns) = 0) # ?L" using Some r by simp
    have so: "sorted (unat now # map fst ?L)" "sorted (unat ?s # map fst ?L)" using Cons.prems(5) unfolding l by auto
    from check_namespace_view [OF Cons.prems(4), of now] consider
        (refused) "rate_view ns' = rate_view ns" "snd (check_namespace now ns) \<noteq> 0"
      | (fresh) "rate_view ns' = (nsp_config ns, 1, now)" "1000000 \<le> now - ?s" "snd (check_namespace now ns) = 0 \<longrightarrow> 1 \<le> ?m"
      | (same) "rate_view ns' = (nsp_config ns, ?c + 1, ?s)" "\<not> 1000000 \<le> now - ?s" "snd (check_namespace now ns) = 0 \<longrightarrow> ?c + 1 \<le> ?m"
      unfolding v by (cases "1000000 \<le> now - ?s") auto
    then show ?thesis
    proof cases
      case refused
      then show ?thesis unfolding l using IH Cons.prems so by (auto simp: rate_view_def intro: lane_refuse)
    next
      case fresh
      then have "lane 1000000 (unat ?m) 1 (unat now) ?L" using IH Cons.prems so by (simp add: rate_view_def)
      then show ?thesis unfolding l using fresh(2,3) window_end [OF le] by (intro lane_fresh) (simp_all add: word_le_nat_alt)
    next
      case same
      then have "lane 1000000 (unat ?m) (unat ?c + 1) (unat ?s) ?L" using IH Cons.prems so c1 by (simp add: rate_view_def)
      then show ?thesis unfolding l using same(2,3) window_end [OF le] c1 by (intro lane_same) (simp_all add: word_le_nat_alt)
    qed
  qed
qed (simp add: lane_nil)

text \<open>
  C11. The rate limit of a namespace holds up to a factor of two, whatever the interleaving: while its
  limits are not changed, with the clock not running backwards and fewer than 2^64 operations in the run, at
  most \<open>2 * max_ops_per_sec\<close> of its checks return 0 in any interval of one second.  Checks, records, creations,
  evictions and drops of other namespaces in between make no difference.
\<close>

theorem quota_rate_bound:
  assumes "find (\<lambda>ns. nsp_active ns \<and> nc_name (nsp_config ns) = name) (g_namespaces (foldl quota_step quota_init pre)) = Some ns"
    and "list_all op_allocates pre" "list_all (keeps_limits name) ops" "nc_max_ops_per_sec (nsp_config ns) \<noteq> 0"
    and "sorted (unat (nsp_window_start_us ns) # map fst (lane_of name (foldl quota_step quota_init pre) ops))"
    and "unat (nsp_ops_this_window ns) + length ops < 2 ^ 64"
  shows "admitted_in a (a + 1000000) (lane_of name (foldl quota_step quota_init pre) ops) \<le> 2 * unat (nc_max_ops_per_sec (nsp_config ns))"
proof -
  let ?q = "foldl quota_step quota_init pre"
  have "quota_inv quota_init" by (simp add: quota_init_def quota_inv_def names_ok_def)
  then have "names_ok (g_namespaces ?q)" using quota_run_refines [OF assms(2)] by (simp add: quota_inv_def)
  moreover have "ns_at name ?q = Some ns" using assms(1) by (simp add: ns_at_def ns_is_def [abs_def])
  ultimately have "lane 1000000 (unat (nc_max_ops_per_sec (nsp_config ns))) (unat (nsp_ops_this_window ns)) (unat (nsp_window_start_us ns)) (lane_of name ?q ops)"
    using assms(3-6) by (rule lane_of_lane)
  then show ?thesis using assms(5) by (intro lane_bound) simp_all
qed

definition sample_lane :: "quota_op list" where
  "sample_lane = [QCheck 900000 (Some [97]), QCheck 900000 (Some [98]), QCheck 999999 (Some [97]), QCheck 999999 (Some [97]),
     QCheck 1000005 (Some [97]), QCheck 1000006 (Some [97]), QCheck 1000007 (Some [97])]"

theorem quota_rate_bound_witness:
  "lane_of [97] (foldl quota_step quota_init (take 2 sample_ops)) sample_lane =
     [(900000, True), (999999, True), (999999, False), (1000005, True), (1000006, True), (1000007, False)] \<and>
   admitted_in 900000 (900000 + 1000000) (lane_of [97] (foldl quota_step quota_init (take 2 sample_ops)) sample_lane) = 4 \<and>
   admitted_in 900000 (900000 + 1000000) (lane_of [97] (foldl quota_step quota_init (take 2 sample_ops)) sample_lane) \<le> 2 * 2"
proof -
  let ?q = "foldl quota_step quota_init (take 2 sample_ops)"
  let ?n = "\<lambda>name t. \<lparr>nsp_config = sample_config name, nsp_stats = empty_ns_stats\<lparr>nss_name := name, nss_created_at_us := t\<rparr>,
        nsp_active = True, nsp_tokens = [], nsp_token_cap = 0, nsp_ops_this_window = 0, nsp_window_start_us = t\<rparr>"
  have q: "?q = \<lparr>g_namespaces = [?n [97] 5, ?n [98] 6], g_initialized = True\<rparr>"
    by (simp add: sample_ops_def numeral_2_eq_2 quota_init_def quota_namespace_create_def ns_find_nolock_def sample_config_def
      QUOTA_MAX_NAMESPACES_def QUOTA_NS_NAME_MAX_def)
  have w: "\<not> (1000000 :: u64) \<le> 1" by (simp add: word_le_nat_alt)
  have l: "lane_of [97] ?q sample_lane =
     [(900000, True), (999999, True), (999999, False), (1000005, True), (1000006, True), (1000007, False)]"
    unfolding q sample_lane_def
    by (simp add: quota_check_def ns_find_nolock_def sample_config_def check_namespace_def check_memory_def check_ops_def check_keys_def
      upd_ns_def Let_def QUOTA_WINDOW_SECS_def empty_config_def empty_ns_stats_def w)
  have f: "find (\<lambda>ns. nsp_active ns \<and> nc_name (nsp_config ns) = [97]) (g_namespaces ?q) = Some (?n [97] 5)"
    unfolding q by (simp add: sample_config_def)
  have "admitted_in 900000 (900000 + 1000000) (lane_of [97] ?q sample_lane) \<le> 2 * unat (nc_max_ops_per_sec (sample_config [97]))"
    using quota_rate_bound [OF f, of sample_lane 900000] by (simp add: l) (simp add: sample_ops_def sample_lane_def sample_config_def)
  then show ?thesis by (simp add: l sample_config_def)
qed

end
