(* ===== verification/Nex_Crdt_Cmd.thy ===== *)
theory Nex_Crdt_Cmd
  imports Nex_Crdt Nex_Storage Nex_Util
begin

text \<open>
  The commands of \<open>t_hash.c\<close> that keep replicated data types in the storage: GINCR, GCOUNTER.GET, PNINCR,
  PNCOUNTER.GET, ORSET.ADD, ORSET.REMOVE, ORSET.MEMBERS, LWW.SET and LWW.GET.  A counter or register is stored as the
  bytes of its struct, a set in its serialized form, all under the type \<open>NEXDT_CRDT\<close>.

  The layouts are those of x86-64.  A callback whose output is \<open>None\<close> has accessed memory outside an array or
  outside the block it was given; its command then has no result.  The node number, the clock that
  \<open>lww_set\<close> reads, the growth of the entry array and the allocation of a set are arguments; \<open>zmalloc\<close> does not fail.
\<close>

subsection \<open>Struct images\<close>

definition words_image :: "u64 list \<Rightarrow> bytes" where
  "words_image ws = concat (map (le_enc 8) ws)"

definition words_at :: "bytes \<Rightarrow> nat \<Rightarrow> u64 list" where
  "words_at bs off = map (\<lambda>i. le_dec (take 8 (drop (8 * i) (drop off bs)))) [0..<CRDT_MAX_NODES]"

definition u32_at :: "bytes \<Rightarrow> nat \<Rightarrow> u32" where
  "u32_at bs off = le_dec (take 4 (drop off bs))"

definition sizeof_GCounter :: nat where
  "sizeof_GCounter = 1032"

definition gcounter_image :: "GCounter \<Rightarrow> bytes" where
  "gcounter_image g = words_image (g_values g) @ le_enc 4 (of_int (g_num_nodes g) :: u32) @ le_enc 4 (g_self_node g)"

definition gcounter_of_image :: "bytes \<Rightarrow> GCounter" where
  "gcounter_of_image bs = \<lparr>g_values = words_at bs 0, g_num_nodes = sint (u32_at bs 1024), g_self_node = u32_at bs 1028\<rparr>"

definition sizeof_PNCounter :: nat where
  "sizeof_PNCounter = 2056"

definition pncounter_image :: "PNCounter \<Rightarrow> bytes" where
  "pncounter_image p = words_image (p_positive p) @ words_image (p_negative p) @ le_enc 4 (of_int (p_num_nodes p) :: u32) @
     le_enc 4 (p_self_node p)"

definition pncounter_of_image :: "bytes \<Rightarrow> PNCounter" where
  "pncounter_of_image bs = \<lparr>p_positive = words_at bs 0, p_negative = words_at bs 1024, p_num_nodes = sint (u32_at bs 2048),
     p_self_node = u32_at bs 2052\<rparr>"

text \<open>
  A register is 2120 bytes: the 1024 bytes of the value, its length at 1024, the time at 1032, the node at 1040,
  the clocks at 1048 and their number at 2072, then the mutex.  Writing its fields leaves the rest of a block as it was.
\<close>

definition sizeof_LWWRegister :: nat where
  "sizeof_LWWRegister = 2120"

definition lww_of_image :: "bytes \<Rightarrow> LWWRegister" where
  "lww_of_image bs = \<lparr>l_value = take (unat (le_dec (take 2 (drop 1024 bs)) :: u16)) (take 1024 bs),
     l_timestamp_us = le_dec (take 8 (drop 1032 bs)), l_node_id = u32_at bs 1040, l_clocks = words_at bs 1048,
     l_num_nodes = sint (u32_at bs 2072)\<rparr>"

definition lww_write :: "LWWRegister \<Rightarrow> bytes \<Rightarrow> bytes" where
  "lww_write r bs =
     (let b1 = buf_write bs 0 (l_value r);
          b2 = buf_write b1 1024 (le_enc 2 (of_nat (length (l_value r)) :: u16));
          b3 = buf_write b2 1032 (le_enc 8 (l_timestamp_us r))
      in buf_write b3 1048 (words_image (l_clocks r)))"

subsection \<open>The callbacks\<close>

text \<open>
  Within the arrays: a counter's loops run to \<open>num_nodes\<close>, its own entry is written where
  \<open>self_node\<close>, as an unsigned number, is below it.
\<close>

definition node_in_array :: "u32 \<Rightarrow> int \<Rightarrow> bool" where
  "node_in_array node num_nodes \<longleftrightarrow> of_int num_nodes \<le> node \<or> unat node < CRDT_MAX_NODES"

definition counter_in_bounds :: "u32 \<Rightarrow> int \<Rightarrow> bool" where
  "counter_in_bounds node num_nodes \<longleftrightarrow> num_nodes \<le> int CRDT_MAX_NODES \<and> node_in_array node num_nodes"

definition crdt_entry :: "NexEntry \<Rightarrow> bytes \<Rightarrow> NexEntry" where
  "crdt_entry en bs = en\<lparr>ne_value := Some bs, ne_type := NEXDT_CRDT\<rparr>"

definition stored_struct :: "NexEntry \<Rightarrow> nat \<Rightarrow> bytes option" where
  "stored_struct en n =
     (case ne_value en of
        Some v \<Rightarrow> if length v \<ge> n \<and> ne_type en = NEXDT_CRDT then Some v else None
      | None \<Rightarrow> None)"

definition gincr_callback :: "u64 \<Rightarrow> u32 \<Rightarrow> u64 option rmw_callback" where
  "gincr_callback delta node existing =
     (let g = (case stored_struct existing sizeof_GCounter of
                 Some v \<Rightarrow> gcounter_of_image v
               | None \<Rightarrow> \<lparr>g_values = replicate CRDT_MAX_NODES 0, g_num_nodes = int CRDT_MAX_NODES, g_self_node = node\<rparr>);
          g1 = gcounter_increment g delta
      in (crdt_entry existing (gcounter_image g1), NEXS_OK,
          if counter_in_bounds (g_self_node g) (g_num_nodes g) then Some (gcounter_value g1) else None))"

definition pnincr_callback :: "int \<Rightarrow> u32 \<Rightarrow> int option rmw_callback" where
  "pnincr_callback delta node existing =
     (let p = (case stored_struct existing sizeof_PNCounter of
                 Some v \<Rightarrow> pncounter_of_image v
               | None \<Rightarrow> \<lparr>p_positive = replicate CRDT_MAX_NODES 0, p_negative = replicate CRDT_MAX_NODES 0,
                          p_num_nodes = int CRDT_MAX_NODES, p_self_node = node\<rparr>);
          p1 = (if delta \<ge> 0 then pncounter_increment p (of_int delta) else pncounter_decrement p (of_int (- delta)))
      in (crdt_entry existing (pncounter_image p1), NEXS_OK,
          if counter_in_bounds (p_self_node p) (p_num_nodes p) \<and> delta \<noteq> - (2 ^ 63) then Some (pncounter_value p1) else None))"

text \<open>
  Sets are loaded and saved as a whole.  The length passed on by a removal is cut to 16 bits.
\<close>

definition orset_load :: "u32 \<Rightarrow> NexEntry \<Rightarrow> ORSet" where
  "orset_load node existing =
     (case stored_struct existing 0 of Some v \<Rightarrow> orset_deserialize v node | None \<Rightarrow> orset_create node)"

definition orset_callback :: "bool \<Rightarrow> bool \<Rightarrow> u32 \<Rightarrow> bytes \<Rightarrow> int rmw_callback" where
  "orset_callback set_ok can_grow node val existing =
     (if \<not> set_ok then (existing, NEXS_ERROR, 0)
      else case orset_add can_grow (orset_load node existing) (Some (take 255 val)) of (rc, s) \<Rightarrow>
        (crdt_entry existing (snd (orset_serialize s (orset_serialized_size s))), NEXS_OK, if rc = 0 then 1 else 0))"

definition orset_remove_callback :: "bool \<Rightarrow> u32 \<Rightarrow> bytes \<Rightarrow> int rmw_callback" where
  "orset_remove_callback set_ok node val existing =
     (case stored_struct existing 0 of
        None \<Rightarrow> (existing, NEXS_NOT_FOUND, 0)
      | Some v \<Rightarrow>
          if \<not> set_ok then (existing, NEXS_ERROR, 0)
          else case orset_remove (orset_deserialize v node) (Some (cut16 val)) of (removed, s) \<Rightarrow>
            (crdt_entry existing (snd (orset_serialize s (orset_serialized_size s))), NEXS_OK, removed))"

text \<open>
  The register is copied with its full size whatever the length of the stored value; the result of
  \<open>lww_set\<close> is not looked at.
\<close>

definition lww_callback :: "u64 \<Rightarrow> bytes \<Rightarrow> unit option rmw_callback" where
  "lww_callback now val existing =
     (let old = (case stored_struct existing 0 of Some v \<Rightarrow> v | None \<Rightarrow> replicate sizeof_LWWRegister 0);
          bs = take sizeof_LWWRegister old;
          r = lww_of_image bs
      in case lww_set now r (Some (cut16 val)) of (rc, r1) \<Rightarrow>
           (crdt_entry existing (if rc = 0 then lww_write r1 bs else bs), NEXS_OK,
            if length old \<ge> sizeof_LWWRegister \<and> (rc = 0 \<longrightarrow> \<not> l_node_id r < of_int (l_num_nodes r) \<or> unat (l_node_id r) < CRDT_MAX_NODES)
            then Some () else None))"

subsection \<open>The commands\<close>

text \<open>What is sent to the client; the texts of errors are left out.\<close>

datatype reply = ReplyLongLong int | ReplyBulk bytes | ReplyArray "bytes list" | ReplyNull | ReplyOK | ReplyError

definition getLongLongFromObjectOrReply :: "bytes \<Rightarrow> 64 word option" where
  "getLongLongFromObjectOrReply arg = string2llScalar arg"

text \<open>
  A command that modifies: the storage may be missing, the callback may have no result, and the
  reply depends on whether the storage reports success.
\<close>

definition rmw_command ::
    "StorageEnv \<Rightarrow> 'b NexStorage option \<Rightarrow> bytes \<Rightarrow> 'o option rmw_callback \<Rightarrow> 'o \<Rightarrow> ('o \<Rightarrow> reply) \<Rightarrow> ('b NexStorage option \<times> reply) option" where
  "rmw_command e global_nexstorage key cb out0 ok =
     (case global_nexstorage of
        None \<Rightarrow> Some (None, ReplyError)
      | Some ns \<Rightarrow>
          (case nexstorage_rmw e ns key cb (Some out0) of
             None \<Rightarrow> None
           | Some (ns', res, out) \<Rightarrow> map_option (\<lambda>v. (Some ns', if res = NEXS_OK then ok v else ReplyError)) out))"

text \<open>A command that reads: \<open>shown\<close> is the reply for a value of the type \<open>NEXDT_CRDT\<close>, \<open>missing\<close> for no value.\<close>

definition get_command ::
    "StorageEnv \<Rightarrow> 'b NexStorage option \<Rightarrow> bytes \<Rightarrow> reply \<Rightarrow> (bytes \<Rightarrow> reply option) \<Rightarrow> ('b NexStorage option \<times> reply) option" where
  "get_command e global_nexstorage key missing shown =
     (case global_nexstorage of
        None \<Rightarrow> Some (None, ReplyError)
      | Some ns \<Rightarrow>
          (case nexstorage_get e ns key of
             None \<Rightarrow> None
           | Some (ns', res, en) \<Rightarrow>
               map_option (\<lambda>r. (Some ns', r))
                 (case en of
                    Some x \<Rightarrow>
                      (case ne_value x of
                         Some v \<Rightarrow> if res = NEXS_OK \<and> ne_type x = NEXDT_CRDT then shown v
                                   else Some (if res = NEXS_NOT_FOUND then missing else ReplyError)
                       | None \<Rightarrow> Some (if res = NEXS_NOT_FOUND then missing else ReplyError))
                  | None \<Rightarrow> Some (if res = NEXS_NOT_FOUND then missing else ReplyError))))"

definition gincrCommand ::
    "u32 \<Rightarrow> StorageEnv \<Rightarrow> 'b NexStorage option \<Rightarrow> bytes \<Rightarrow> bytes \<Rightarrow> ('b NexStorage option \<times> reply) option" where
  "gincrCommand node e global_nexstorage key arg =
     (if global_nexstorage = None then Some (None, ReplyError)
      else case getLongLongFromObjectOrReply arg of
        None \<Rightarrow> Some (global_nexstorage, ReplyError)
      | Some delta \<Rightarrow> rmw_command e global_nexstorage key (gincr_callback delta node) 0 (\<lambda>v. ReplyLongLong (sint v)))"

definition gcounterGetCommand :: "StorageEnv \<Rightarrow> 'b NexStorage option \<Rightarrow> bytes \<Rightarrow> ('b NexStorage option \<times> reply) option" where
  "gcounterGetCommand e global_nexstorage key =
     get_command e global_nexstorage key (ReplyLongLong 0)
       (\<lambda>v. if length v \<ge> sizeof_GCounter
            then let g = gcounter_of_image v
                 in if g_num_nodes g \<le> int CRDT_MAX_NODES then Some (ReplyLongLong (sint (gcounter_value g))) else None
            else Some ReplyError)"

definition orsetAddCommand ::
    "bool \<Rightarrow> bool \<Rightarrow> u32 \<Rightarrow> StorageEnv \<Rightarrow> 'b NexStorage option \<Rightarrow> bytes \<Rightarrow> bytes \<Rightarrow> ('b NexStorage option \<times> reply) option" where
  "orsetAddCommand set_ok can_grow node e global_nexstorage key val =
     rmw_command e global_nexstorage key (\<lambda>en. apsnd (apsnd Some) (orset_callback set_ok can_grow node val en)) 0 (\<lambda>added. ReplyLongLong 1)"

definition lwwSetCommand ::
    "u64 \<Rightarrow> StorageEnv \<Rightarrow> 'b NexStorage option \<Rightarrow> bytes \<Rightarrow> bytes \<Rightarrow> ('b NexStorage option \<times> reply) option" where
  "lwwSetCommand now e global_nexstorage key val =
     rmw_command e global_nexstorage key (lww_callback now val) () (\<lambda>_. ReplyOK)"

definition pnincrCommand ::
    "u32 \<Rightarrow> StorageEnv \<Rightarrow> 'b NexStorage option \<Rightarrow> bytes \<Rightarrow> bytes \<Rightarrow> ('b NexStorage option \<times> reply) option" where
  "pnincrCommand node e global_nexstorage key arg =
     (if global_nexstorage = None then Some (None, ReplyError)
      else case getLongLongFromObjectOrReply arg of
        None \<Rightarrow> Some (global_nexstorage, ReplyError)
      | Some delta \<Rightarrow> rmw_command e global_nexstorage key (pnincr_callback (sint delta) node) 0 ReplyLongLong)"

definition pncounterGetCommand :: "StorageEnv \<Rightarrow> 'b NexStorage option \<Rightarrow> bytes \<Rightarrow> ('b NexStorage option \<times> reply) option" where
  "pncounterGetCommand e global_nexstorage key =
     get_command e global_nexstorage key (ReplyLongLong 0)
       (\<lambda>v. if length v \<ge> sizeof_PNCounter
            then let p = pncounter_of_image v
                 in if p_num_nodes p \<le> int CRDT_MAX_NODES then Some (ReplyLongLong (pncounter_value p)) else None
            else Some ReplyError)"

definition orsetRemoveCommand ::
    "bool \<Rightarrow> u32 \<Rightarrow> StorageEnv \<Rightarrow> 'b NexStorage option \<Rightarrow> bytes \<Rightarrow> bytes \<Rightarrow> ('b NexStorage option \<times> reply) option" where
  "orsetRemoveCommand set_ok node e global_nexstorage key val =
     rmw_command e global_nexstorage key (\<lambda>en. apsnd (apsnd Some) (orset_remove_callback set_ok node val en)) 0 ReplyLongLong"

text \<open>An entry whose length exceeds its array cannot be sent.\<close>

definition orsetMembersCommand ::
    "bool \<Rightarrow> u32 \<Rightarrow> StorageEnv \<Rightarrow> 'b NexStorage option \<Rightarrow> bytes \<Rightarrow> ('b NexStorage option \<times> reply) option" where
  "orsetMembersCommand set_ok node e global_nexstorage key =
     get_command e global_nexstorage key (ReplyArray [])
       (\<lambda>v. if \<not> set_ok then Some ReplyError
            else let live = filter (\<lambda>x. \<not> oe_is_removed x) (os_entries (orset_deserialize v node))
                 in if list_all (\<lambda>x. length (oe_value x) \<le> 256) live then Some (ReplyArray (map oe_value live)) else None)"

definition lwwGetCommand :: "StorageEnv \<Rightarrow> 'b NexStorage option \<Rightarrow> bytes \<Rightarrow> ('b NexStorage option \<times> reply) option" where
  "lwwGetCommand e global_nexstorage key =
     get_command e global_nexstorage key ReplyNull
       (\<lambda>v. Some (if length v \<ge> sizeof_LWWRegister then ReplyBulk (lww_get (lww_of_image v) 1024) else ReplyError))"

end
