(* ===== verification/Nex_Util_Props.thy ===== *)
theory Nex_Util_Props
  imports Nex_Util
begin

text \<open>
  Decimal notation and the conversions of \<open>util.c\<close>: both parsers return a value exactly for the notations
  of the 64-bit integers, and printing produces these notations.
\<close>

subsection \<open>Decimal notation\<close>

fun decimal :: "nat \<Rightarrow> bytes" where
  "decimal n = (if n < 10 then [48 + of_nat n] else decimal (n div 10) @ [48 + of_nat (n mod 10)])"

declare decimal.simps [simp del]

definition decimal_int :: "int \<Rightarrow> bytes" where
  "decimal_int v = (if v < 0 then 45 # decimal (nat (- v)) else decimal (nat v))"

definition dec :: "bytes \<Rightarrow> nat" where
  "dec s = foldl (\<lambda>n c. 10 * n + (unat c - 48)) 0 s"

definition numeral_ok :: "bytes \<Rightarrow> bool" where
  "numeral_ok p \<longleftrightarrow> p \<noteq> [] \<and> list_all is_digit p \<and> (p ! 0 \<noteq> 48 \<or> p = [48])"

lemma dec_acc: "foldl (\<lambda>n c. 10 * n + (unat c - 48)) a s = a * 10 ^ length s + dec s"
proof (induction s arbitrary: a)
  case (Cons c s)
  show ?case using Cons [of "10 * a + (unat c - 48)"] Cons [of "unat c - 48"] by (simp add: dec_def algebra_simps)
qed (simp add: dec_def)

lemma dec_simps [simp]:
  "dec [] = 0"
  "dec (c # s) = (unat c - 48) * 10 ^ length s + dec s"
  using dec_acc [of "unat c - 48" s] by (simp_all add: dec_def)

lemma dec_append: "dec (s @ t) = dec s * 10 ^ length t + dec t"
  using dec_acc [of "dec s" t] by (simp add: dec_def)

lemma is_digit_unat: "is_digit c \<longleftrightarrow> 48 \<le> unat c \<and> unat c \<le> 57"
  by (simp add: is_digit_def word_le_nat_alt)

lemma dec_less: "list_all is_digit s \<Longrightarrow> dec s < 10 ^ length s"
proof (induction s)
  case (Cons c s)
  then have "unat c - 48 \<le> 9" "dec s < 10 ^ length s" by (auto simp: is_digit_unat)
  then have "(unat c - 48) * 10 ^ length s + dec s < 9 * 10 ^ length s + 10 ^ length s" by (intro add_le_less_mono mult_right_mono) auto
  then show ?case by simp
qed simp

lemma dec_ge:
  assumes "numeral_ok p" "p \<noteq> [48]"
  shows "10 ^ (length p - 1) \<le> dec p"
proof (cases p)
  case (Cons c s)
  have "c \<noteq> 48" "is_digit c" using assms Cons by (auto simp: numeral_ok_def)
  then have "1 \<le> unat c - 48" by (auto simp: is_digit_unat word_unat_eq_iff)
  then have "10 ^ length s \<le> (unat c - 48) * 10 ^ length s" by simp
  then have "10 ^ length s \<le> (unat c - 48) * 10 ^ length s + dec s" by (rule trans_le_add1)
  then show ?thesis using Cons by simp
qed (use assms in \<open>simp add: numeral_ok_def\<close>)

lemma digit_byte: "d < 10 \<Longrightarrow> is_digit (48 + of_nat d) \<and> unat (48 + of_nat d :: u8) = 48 + d"
  by (simp add: is_digit_unat unat_word_ariths unat_of_nat)

lemma digit_byte_inv: "is_digit c \<Longrightarrow> 48 + of_nat (unat c - 48) = c"
  by (simp add: is_digit_unat word_unat_eq_iff unat_word_ariths unat_of_nat)

lemma decimal_spec: "numeral_ok (decimal n) \<and> dec (decimal n) = n"
proof (induction n rule: decimal.induct)
  case (1 n)
  show ?case
  proof (cases "n < 10")
    case True
    then show ?thesis using digit_byte [OF True] by (subst (1 2) decimal.simps) (simp add: numeral_ok_def)
  next
    case False
    have d: "decimal n = decimal (n div 10) @ [48 + of_nat (n mod 10)]" using False by (subst decimal.simps) simp
    have ih: "numeral_ok (decimal (n div 10))" "dec (decimal (n div 10)) = n div 10" using 1 False by simp_all
    have "decimal (n div 10) \<noteq> [48]" using ih(2) False by auto
    then show ?thesis using ih digit_byte [of "n mod 10"] unfolding d by (auto simp: numeral_ok_def nth_append dec_append)
  qed
qed

lemma decimal_dec: "numeral_ok p \<Longrightarrow> decimal (dec p) = p"
proof (induction p rule: rev_induct)
  case (snoc c p)
  have c: "is_digit c" using snoc.prems by (simp add: numeral_ok_def)
  then have u: "unat c - 48 < 10" by (auto simp: is_digit_unat)
  show ?case
  proof (cases "p = []")
    case True
    then show ?thesis using u digit_byte_inv [OF c] by (subst decimal.simps) (simp add: dec_append)
  next
    case False
    then have p: "numeral_ok p" "p \<noteq> [48]" using snoc.prems by (auto simp: numeral_ok_def nth_append)
    have "1 \<le> dec p" using dec_ge [OF p] one_le_power [of "10::nat"] by (meson one_le_numeral order_trans)
    then have "decimal (dec (p @ [c])) = decimal (dec p) @ [48 + of_nat (unat c - 48)]"
      using u by (subst decimal.simps) (simp add: dec_append)
    then show ?thesis using snoc.IH [OF p(1)] digit_byte_inv [OF c] by simp
  qed
qed (simp add: numeral_ok_def)

text \<open>The notations of the 64-bit integers, as a function from strings to values.\<close>

definition parse_spec :: "bytes \<Rightarrow> 64 word option" where
  "parse_spec s =
     (let negative = (s \<noteq> [] \<and> s ! 0 = 45); p = (if negative then tl s else s)
      in if numeral_ok p \<and> p \<noteq> [48] \<or> s = [48]
         then if negative then if dec p \<le> 2 ^ 63 then Some (- of_nat (dec p)) else None
              else if dec p < 2 ^ 63 then Some (of_nat (dec p)) else None
         else None)"

lemma sint_of_nat_63: "n < 2 ^ 63 \<Longrightarrow> sint (of_nat n :: 64 word) = int n"
  by (simp add: signed_of_nat signed_take_bit_int_eq_self)

lemma sint_minus_small: "0 < n \<Longrightarrow> n \<le> 2 ^ 63 \<Longrightarrow> sint (- of_nat n :: 64 word) = - int n"
proof -
  assume n: "0 < n" "n \<le> 2 ^ 63"
  have "signed_take_bit 63 (- int n) = - int n" using n by (intro signed_take_bit_int_eq_self) simp_all
  then show ?thesis using sint_sbintrunc' [where ?'a = 64, of "- int n"] by simp
qed

lemma parse_spec_decimal: "parse_spec s = Some v \<longleftrightarrow> s = decimal_int (sint v)"
proof
  assume p: "parse_spec s = Some v"
  show "s = decimal_int (sint v)"
  proof (cases "s \<noteq> [] \<and> s ! 0 = 45")
    case True
    then have n: "numeral_ok (tl s)" "tl s \<noteq> [48]" "dec (tl s) \<le> 2 ^ 63" "v = - of_nat (dec (tl s))"
      using p by (auto simp: parse_spec_def Let_def split: if_splits)
    have "1 \<le> dec (tl s)" using dec_ge [OF n(1,2)] one_le_power [of "10::nat"] by (meson one_le_numeral order_trans)
    then have "sint v = - int (dec (tl s))" "0 < dec (tl s)" using n(3,4) sint_minus_small [of "dec (tl s)"] by simp_all
    then show ?thesis using True decimal_dec [OF n(1)] by (cases s) (simp_all add: decimal_int_def)
  next
    case False
    then have n: "numeral_ok s" "dec s < 2 ^ 63" "v = of_nat (dec s)"
      using p by (auto simp: parse_spec_def Let_def numeral_ok_def is_digit_def split: if_splits)
    then show ?thesis using decimal_dec [OF n(1)] sint_of_nat_63 [OF n(2)] by (simp add: decimal_int_def)
  qed
next
  assume s: "s = decimal_int (sint v)"
  have b: "- (2 ^ 63) \<le> sint v" "sint v < 2 ^ 63" using sint_greater_eq [of v] sint_less [of v] by simp_all
  show "parse_spec s = Some v"
  proof (cases "sint v < 0")
    case True
    let ?n = "nat (- sint v)"
    have d: "numeral_ok (decimal ?n)" "dec (decimal ?n) = ?n" using decimal_spec by auto
    have "decimal ?n \<noteq> [48]" using d(2) True by auto
    moreover have "- of_nat ?n = v" using True by (simp add: of_nat_nat)
    ultimately show ?thesis using d b True s by (simp add: parse_spec_def decimal_int_def)
  next
    case False
    let ?n = "nat (sint v)"
    have d: "numeral_ok (decimal ?n)" "dec (decimal ?n) = ?n" using decimal_spec by auto
    have "decimal ?n ! 0 \<noteq> 45" using d(1) by (cases "decimal ?n") (auto simp: numeral_ok_def is_digit_def)
    moreover have "of_nat ?n = v" using False by (simp add: of_nat_nat)
    ultimately show ?thesis using d b False s by (auto simp: parse_spec_def decimal_int_def)
  qed
qed

subsection \<open>The portable parser\<close>

lemma unat_ucast_u8 [simp]: "unat (ucast (c :: u8) :: u64) = unat c"
  using unat_u8_le [of c] by (simp add: unat_ucast)

lemma digit_word: "is_digit c \<Longrightarrow> unat (ucast c - 48 :: u64) = unat c - 48"
proof -
  assume c: "is_digit c"
  have "(48 :: u64) \<le> ucast c" using c by (simp add: word_le_nat_alt is_digit_unat)
  then show ?thesis by (simp add: unat_sub)
qed

lemma loop_step:
  assumes c: "is_digit c"
  shows "string2ll_loop v (c # p) =
    (if 10 * unat v + (unat c - 48) < 2 ^ 64 then string2ll_loop (of_nat (10 * unat v + (unat c - 48))) p else None)"
proof -
  let ?d = "ucast c - 48 :: u64"
  have d: "unat ?d = unat c - 48" "unat c - 48 \<le> 9" using digit_word [OF c] c by (auto simp: is_digit_unat)
  have m: "unat (0xFFFFFFFFFFFFFFFF - ?d) = 18446744073709551615 - (unat c - 48)"
    using d by (subst unat_sub) (simp_all add: word_le_nat_alt)
  show ?thesis
  proof (cases "v > 0xFFFFFFFFFFFFFFFF div 10")
    case True
    then have "unat v > 1844674407370955161" by (simp add: word_less_nat_alt unat_div)
    then show ?thesis using True c by simp
  next
    case False
    then have v: "unat v \<le> 1844674407370955161" by (simp add: word_less_nat_alt unat_div)
    then have v1: "unat (v * 10) = 10 * unat v" by (simp add: unat_word_ariths)
    have g: "v * 10 > 0xFFFFFFFFFFFFFFFF - ?d \<longleftrightarrow> \<not> 10 * unat v + (unat c - 48) < 2 ^ 64"
      unfolding word_less_nat_alt m v1 using d(2) by (simp, linarith)
    have "v * 10 + ?d = of_nat (unat (v * 10) + unat ?d)" by simp
    then show ?thesis using False c g by (simp only: string2ll_loop.simps if_True if_False Let_def v1 d(1)) simp
  qed
qed

lemma loop_digits:
  assumes "list_all is_digit p"
  shows "string2ll_loop v p = (if unat v * 10 ^ length p + dec p < 2 ^ 64 then Some (of_nat (unat v * 10 ^ length p + dec p), []) else None)"
  using assms
proof (induction p arbitrary: v)
  case (Cons c p)
  let ?w = "10 * unat v + (unat c - 48)"
  have e: "unat v * 10 ^ length (c # p) + dec (c # p) = ?w * 10 ^ length p + dec p" by (simp add: algebra_simps)
  have c: "is_digit c" using Cons.prems by simp
  show ?case
  proof (cases "?w < 2 ^ 64")
    case True
    then have "unat (of_nat ?w :: u64) = ?w" by (intro unat_of_nat_eq) simp
    then show ?thesis using Cons True unfolding loop_step [OF c] e by simp
  next
    case False
    have "1 \<le> (10 :: nat) ^ length p" by simp
    then have "?w * 1 \<le> ?w * 10 ^ length p" by (rule mult_le_mono2)
    then have "2 ^ 64 \<le> ?w * 10 ^ length p + dec p" using False by (simp only: not_less mult_1_right)
    then show ?thesis using False unfolding loop_step [OF c] e by simp
  qed
next
  case Nil
  then show ?case using unat_bound [of v] by simp
qed

lemma loop_nondigits:
  assumes "\<not> list_all is_digit p" "string2ll_loop v p = Some (w, r)"
  shows "r \<noteq> []"
  using assms
proof (induction p arbitrary: v)
  case (Cons c p)
  show ?case
  proof (cases "is_digit c")
    case True
    then show ?thesis using Cons loop_step [OF True] by (auto split: if_splits)
  qed (use Cons in auto)
qed simp

lemma signed_result_spec:
  assumes "n < 2 ^ 64"
  shows "signed_result neg (of_nat n) =
    (if neg then if n \<le> 2 ^ 63 then Some (- of_nat n) else None else if n < 2 ^ 63 then Some (of_nat n) else None)"
proof -
  have "unat (of_nat n :: u64) = n" using assms by (intro unat_of_nat_eq) simp
  then show ?thesis by (auto simp: signed_result_def word_less_nat_alt)
qed

lemma single_digit: "is_digit c \<Longrightarrow> (ucast (c - 48) :: u64) = of_nat (unat c - 48) \<and> numeral_ok [c]"
proof -
  assume c: "is_digit c"
  have "unat (c - 48) = unat c - 48" using c by (simp add: is_digit_def unat_sub)
  moreover have "unat (of_nat (unat c - 48) :: u64) = unat c - 48" using c by (intro unat_of_nat_eq) (auto simp: is_digit_unat)
  ultimately have "(ucast (c - 48) :: u64) = of_nat (unat c - 48)" by (simp only: word_unat_eq_iff unat_ucast_u8)
  then show ?thesis using c by (simp only: numeral_ok_def) auto
qed

lemma parse_single: "is_digit c \<Longrightarrow> parse_spec [c] = Some (ucast (c - 48))"
proof -
  assume c: "is_digit c"
  have "c \<noteq> 45" "unat c - 48 < 2 ^ 63" using c by (auto simp: is_digit_unat)
  then show ?thesis using single_digit [OF c] by (auto simp: parse_spec_def)
qed

text \<open>Longer numerals are out of range.\<close>

lemma parse_long: "length s \<ge> 21 \<Longrightarrow> parse_spec s = None"
proof -
  assume l: "length s \<ge> 21"
  have big: "2 ^ 63 < dec p" if "numeral_ok p" "p \<noteq> [48]" "length p \<ge> 20" for p
  proof -
    have "(10 :: nat) ^ 19 \<le> 10 ^ (length p - 1)" using that(3) by (intro power_increasing) auto
    then show ?thesis using dec_ge [OF that(1,2)] by simp
  qed
  have "s \<noteq> [48]" using l by auto
  moreover have "\<not> dec (tl s) \<le> 2 ^ 63" if "numeral_ok (tl s)" "tl s \<noteq> [48]"
  proof -
    have "20 \<le> length (tl s)" using l by simp
    then show ?thesis using big [OF that] by simp
  qed
  moreover have "\<not> dec s < 2 ^ 63" if "numeral_ok s" "s \<noteq> [48]" using big [OF that] l by simp
  moreover have "s \<noteq> []" using l by auto
  ultimately show ?thesis by (simp add: parse_spec_def Let_def)
qed

lemma parse_short:
  assumes "s \<noteq> []" "\<not> (length s = 1 \<and> is_digit (s ! 0))"
  shows "parse_spec s = (let negative = (s ! 0 = 45); p = (if negative then tl s else s)
     in if p \<noteq> [] \<and> p ! 0 \<noteq> 48 \<and> list_all is_digit p
        then if negative then if dec p \<le> 2 ^ 63 then Some (- of_nat (dec p)) else None
             else if dec p < 2 ^ 63 then Some (of_nat (dec p)) else None
        else None)"
proof -
  have "s \<noteq> [48]" using assms by (auto simp: is_digit_def)
  then show ?thesis using assms(1) by (auto simp: parse_spec_def Let_def numeral_ok_def)
qed

lemma scalar_spec: "string2llScalar s = parse_spec s"
proof (cases "s = [] \<or> length s \<ge> 21 \<or> length s = 1 \<and> is_digit (s ! 0)")
  case True
  then consider "s = []" | "length s \<ge> 21" | c where "s = [c]" "is_digit c" by (cases s) auto
  then show ?thesis
  proof cases
    case 1
    then show ?thesis by (simp add: string2llScalar_def parse_spec_def numeral_ok_def)
  next
    case 2
    then show ?thesis using parse_long [OF 2] by (simp add: string2llScalar_def LONG_STR_SIZE_def)
  next
    case 3
    then show ?thesis using parse_single [OF 3(2)] by (simp add: string2llScalar_def LONG_STR_SIZE_def)
  qed
next
  case False
  define p where "p = (if s ! 0 = 45 then tl s else s)"
  have s: "string2llScalar s = (if p = [] then None else if 49 \<le> p ! 0 \<and> p ! 0 \<le> 57
      then case string2ll_loop (ucast (p ! 0 - 48)) (tl p) of None \<Rightarrow> None
             | Some (v, rest) \<Rightarrow> if rest \<noteq> [] then None else signed_result (s ! 0 = 45) v
      else None)"
    using False by (auto simp: string2llScalar_def LONG_STR_SIZE_def p_def Let_def)
  have f: "49 \<le> p ! 0 \<and> p ! 0 \<le> 57 \<longleftrightarrow> p ! 0 \<noteq> 48 \<and> is_digit (p ! 0)"
    by (auto simp: is_digit_unat word_le_nat_alt word_unat_eq_iff)
  have r: "parse_spec s = (if p \<noteq> [] \<and> p ! 0 \<noteq> 48 \<and> list_all is_digit p
      then if s ! 0 = 45 then if dec p \<le> 2 ^ 63 then Some (- of_nat (dec p)) else None
           else if dec p < 2 ^ 63 then Some (of_nat (dec p)) else None
      else None)"
    using parse_short [of s] False by (simp add: p_def Let_def)
  show ?thesis
  proof (cases "p \<noteq> [] \<and> p ! 0 \<noteq> 48 \<and> is_digit (p ! 0)")
    case True
    then obtain c q where c: "p = c # q" "is_digit c" by (cases p) auto
    have u: "unat (ucast (c - 48) :: u64) = unat c - 48" using c(2) by (simp only: unat_ucast_u8) (simp add: is_digit_def unat_sub)
    show ?thesis
    proof (cases "list_all is_digit q")
      case True
      have l: "string2ll_loop (ucast (c - 48)) q = (if dec p < 2 ^ 64 then Some (of_nat (dec p), []) else None)"
        using loop_digits [OF True, of "ucast (c - 48)"] by (simp only: u c(1) dec_simps)
      have "dec p < 2 ^ 64" if "dec p \<le> 2 ^ 63" using that by simp
      then show ?thesis using c True \<open>p \<noteq> [] \<and> p ! 0 \<noteq> 48 \<and> is_digit (p ! 0)\<close> signed_result_spec [of "dec p" "s ! 0 = 45"]
        unfolding s r f by (cases "dec p < 2 ^ 64") (simp_all add: l [unfolded c(1)] c(1) del: dec_simps)
    next
      case nd: False
      then show ?thesis using c True loop_nondigits [OF nd, of "ucast (c - 48)"] unfolding s r f by (auto split: option.splits)
    qed
  next
    case False
    then show ?thesis unfolding s r f by (cases p) auto
  qed
qed

subsection \<open>The vector parser\<close>

text \<open>The reduction of eight digits to one lane, and of a register by its groups of eight.\<close>

definition reduce_lanes :: "u8 list \<Rightarrow> 32 word list" where
  "reduce_lanes ds = madd 10000 1 (maddubs 100 1 (cvtepi16_epi8 (maddubs 10 1 ds)))"

definition num8 :: "u8 list \<Rightarrow> nat" where
  "num8 ds = foldl (\<lambda>n d. 10 * n + unat d) 0 ds"

lemma sat16_nat:
  assumes "n \<le> 32767"
  shows "sat16 (int n) = of_nat n" "sint (sat16 (int n)) = int n" "n < 256 \<Longrightarrow> unat (ucast (sat16 (int n)) :: u8) = n"
proof -
  show s: "sat16 (int n) = of_nat n" using assms by (simp add: sat16_def)
  show "sint (sat16 (int n)) = int n" unfolding s using assms by (simp add: signed_of_nat signed_take_bit_int_eq_self)
  show "unat (ucast (sat16 (int n)) :: u8) = n" if "n < 256"
    unfolding s using assms that by (simp add: unat_ucast unat_of_nat_eq)
qed

lemma pair_lane:
  fixes x y :: u8
  assumes "unat x \<le> 9" "unat y \<le> 9"
  shows "unat (ucast (sat16 (uint x * 10 + uint y * 1)) :: u8) = 10 * unat x + unat y"
proof -
  have "uint x * 10 + uint y * 1 = int (10 * unat x + unat y)" by simp
  moreover have "10 * unat x + unat y < 256" "10 * unat x + unat y \<le> 32767" using assms by linarith+
  ultimately show ?thesis using sat16_nat(3) by metis
qed

lemma quad_lane:
  fixes x y :: u8
  assumes "unat x \<le> 99" "unat y \<le> 99"
  shows "sint (sat16 (uint x * 100 + uint y * 1)) = int (100 * unat x + unat y)"
proof -
  have "uint x * 100 + uint y * 1 = int (100 * unat x + unat y)" by simp
  moreover have "100 * unat x + unat y \<le> 32767" using assms by linarith
  ultimately show ?thesis using sat16_nat(2) by metis
qed

lemma reduce_eight:
  assumes "unat a \<le> 9" "unat b \<le> 9" "unat c \<le> 9" "unat d \<le> 9" "unat e \<le> 9" "unat f \<le> 9" "unat g \<le> 9" "unat h \<le> 9"
  shows "reduce_lanes [a, b, c, d, e, f, g, h] = [of_nat (num8 [a, b, c, d, e, f, g, h])]"
proof -
  let ?p = "\<lambda>x y. ucast (sat16 (uint x * 10 + uint y * 1)) :: u8"
  note l = pair_lane [OF assms(1,2)] pair_lane [OF assms(3,4)] pair_lane [OF assms(5,6)] pair_lane [OF assms(7,8)]
  have u: "unat (?p a b) \<le> 99" "unat (?p c d) \<le> 99" "unat (?p e f) \<le> 99" "unat (?p g h) \<le> 99"
    unfolding l using assms by linarith+
  have n: "num8 [a, b, c, d, e, f, g, h] = 10000 * (100 * (10 * unat a + unat b) + (10 * unat c + unat d)) + (100 * (10 * unat e + unat f) + (10 * unat g + unat h))"
    by (simp add: num8_def)
  have "reduce_lanes [a, b, c, d, e, f, g, h] =
      [word_of_int (sint (sat16 (uint (?p a b) * 100 + uint (?p c d) * 1)) * 10000 + sint (sat16 (uint (?p e f) * 100 + uint (?p g h) * 1)) * 1)]"
    by (simp only: reduce_lanes_def cvtepi16_epi8_def maddubs.simps madd.simps list.map)
  also have "\<dots> = [word_of_int (int (num8 [a, b, c, d, e, f, g, h]))]"
    unfolding quad_lane [OF u(1,2)] quad_lane [OF u(3,4)] l n by (simp only: of_nat_add of_nat_mult of_nat_numeral mult.commute mult_1_right mult_1)
  finally show ?thesis by (simp only: of_int_of_nat_eq)
qed

lemma maddubs_append: "even (length xs) \<Longrightarrow> maddubs a b (xs @ ys) = maddubs a b xs @ maddubs a b ys"
  by (induction a b xs rule: maddubs.induct) auto

lemma madd_append: "even (length xs) \<Longrightarrow> madd a b (xs @ ys) = madd a b xs @ madd a b ys"
  by (induction a b xs rule: madd.induct) auto

lemma length_maddubs: "length (maddubs a b xs) = length xs div 2"
  by (induction a b xs rule: maddubs.induct) auto

lemma reduce_append: "length xs = 8 \<Longrightarrow> reduce_lanes (xs @ ys) = reduce_lanes xs @ reduce_lanes ys"
  by (simp add: reduce_lanes_def maddubs_append madd_append length_maddubs cvtepi16_epi8_def)

lemma length_eight: "length xs = 8 \<Longrightarrow> \<exists>a b c d e f g h. xs = [a, b, c, d, e, f, g, h]"
  by (auto simp: numeral_eq_Suc length_Suc_conv)

lemma reduce_group: "length xs = 8 \<Longrightarrow> list_all (\<lambda>d. unat d \<le> 9) xs \<Longrightarrow> reduce_lanes xs = [of_nat (num8 xs)]"
proof -
  assume "length xs = 8" and d: "list_all (\<lambda>d. unat d \<le> 9) xs"
  then obtain a b c d e f g h where "xs = [a, b, c, d, e, f, g, h]" using length_eight by blast
  then show ?thesis using d reduce_eight [of a b c d e f g h] by simp
qed

lemma num8_acc: "foldl (\<lambda>n d. 10 * n + unat d) a xs = a * 10 ^ length xs + num8 xs"
proof (induction xs arbitrary: a)
  case (Cons x xs)
  show ?case using Cons [of "10 * a + unat x"] Cons [of "unat x"] by (simp add: num8_def algebra_simps)
qed (simp add: num8_def)

lemma num8_append: "num8 (xs @ ys) = num8 xs * 10 ^ length ys + num8 ys"
  using num8_acc [of "num8 xs" ys] by (simp add: num8_def)

lemma num8_less: "list_all (\<lambda>d. unat d \<le> 9) xs \<Longrightarrow> num8 xs < 10 ^ length xs"
proof (induction xs rule: rev_induct)
  case (snoc x xs)
  then have "num8 xs + 1 \<le> 10 ^ length xs" "unat x \<le> 9" by simp_all
  then show ?case by (simp add: num8_append) (simp add: num8_def)
qed (simp add: num8_def)

lemma num8_zeros: "num8 (replicate k 0 @ xs) = num8 xs"
proof -
  have "num8 (replicate k 0) = 0" by (induction k) (simp_all add: num8_def)
  then show ?thesis by (simp add: num8_append)
qed

lemma num8_digits: "list_all is_digit p \<Longrightarrow> num8 (map (\<lambda>c. c - 48) p) = dec p"
proof (induction p rule: rev_induct)
  case (snoc c p)
  then have "unat (c - 48) = unat c - 48" by (simp add: is_digit_def unat_sub)
  then show ?case using snoc by (simp add: num8_append dec_append) (simp add: num8_def)
qed (simp add: num8_def)

lemma lane_nondigit: "(c - 48 > (9 :: u8)) \<longleftrightarrow> \<not> is_digit c"
proof (cases "48 \<le> c")
  case True
  then show ?thesis by (auto simp: is_digit_def word_less_nat_alt word_le_nat_alt unat_sub)
next
  case False
  then have c: "unat c < 48" by (simp add: word_le_nat_alt)
  have "unat (c - 48) = (unat c + 208) mod 256" using c by (simp add: unat_sub_if' word_le_nat_alt not_le)
  then show ?thesis using c False by (simp add: is_digit_def word_less_nat_alt)
qed

lemma lanes_load:
  fixes p :: bytes
  assumes "0 < length p" "length p \<le> 20" defines "m \<equiv> push_bit (32 - length p) 0xFFFFFFFF :: u32"
  shows "map (\<lambda>j. if bit m j then p ! (length p + j - 32) - 48 else 0) [0..<32] = replicate (32 - length p) 0 @ map (\<lambda>c. c - 48) p"
    "list_ex (\<lambda>j. bit m j \<and> (replicate (32 - length p) 0 @ map (\<lambda>c. c - 48) p) ! j > 9) [0..<32] \<longleftrightarrow> \<not> list_all is_digit p"
    "m AND 0xFFFFFF = 0 \<longleftrightarrow> length p \<le> 8" "m AND 0xFFFF = 0 \<longleftrightarrow> length p \<le> 16"
proof -
  have one: "(0xFFFFFFFF :: u32) = - 1" by simp
  have b: "bit m j \<longleftrightarrow> 32 - length p \<le> j" if "j < 32" for j
    unfolding m_def one using that by (auto simp: bit_simps)
  show "map (\<lambda>j. if bit m j then p ! (length p + j - 32) - 48 else 0) [0..<32] = replicate (32 - length p) 0 @ map (\<lambda>c. c - 48) p"
  proof (rule nth_equalityI)
    fix j
    assume "j < length (map (\<lambda>j. if bit m j then p ! (length p + j - 32) - 48 else 0) [0..<32])"
    moreover have "length p + j - 32 = j - (32 - length p)" using assms(2) by simp
    ultimately show "map (\<lambda>j. if bit m j then p ! (length p + j - 32) - 48 else 0) [0..<32] ! j = (replicate (32 - length p) 0 @ map (\<lambda>c. c - 48) p) ! j"
      using b [of j] by (auto simp: nth_append)
  qed (use assms(2) in simp)
  have "(\<exists>j<32. bit m j \<and> (replicate (32 - length p) 0 @ map (\<lambda>c. c - 48) p) ! j > 9) \<longleftrightarrow> (\<exists>i<length p. p ! i - 48 > 9)"
  proof
    assume "\<exists>j<32. bit m j \<and> (replicate (32 - length p) 0 @ map (\<lambda>c. c - 48) p) ! j > 9"
    then obtain j where "j < 32" "32 - length p \<le> j" "(replicate (32 - length p) 0 @ map (\<lambda>c. c - 48) p) ! j > 9" using b by auto
    then show "\<exists>i<length p. p ! i - 48 > 9" by (intro exI [of _ "j - (32 - length p)"]) (auto simp: nth_append)
  next
    assume "\<exists>i<length p. p ! i - 48 > 9"
    then obtain i where "i < length p" "p ! i - 48 > 9" by auto
    then show "\<exists>j<32. bit m j \<and> (replicate (32 - length p) 0 @ map (\<lambda>c. c - 48) p) ! j > 9"
      using assms(2) b [of "32 - length p + i"] by (intro exI [of _ "32 - length p + i"]) (auto simp: nth_append)
  qed
  then show "list_ex (\<lambda>j. bit m j \<and> (replicate (32 - length p) 0 @ map (\<lambda>c. c - 48) p) ! j > 9) [0..<32] \<longleftrightarrow> \<not> list_all is_digit p"
    unfolding list_ex_iff list_all_length lane_nondigit by auto
  have "\<forall>n \<in> set [1..<21]. ((push_bit (32 - n) 0xFFFFFFFF :: u32) AND 0xFFFFFF = 0) = (n \<le> 8) \<and> ((push_bit (32 - n) 0xFFFFFFFF :: u32) AND 0xFFFF = 0) = (n \<le> 16)"
    by code_simp
  moreover have "length p \<in> set [1..<21]" using assms(1,2) by (simp add: Suc_le_eq)
  ultimately show "m AND 0xFFFFFF = 0 \<longleftrightarrow> length p \<le> 8" "m AND 0xFFFF = 0 \<longleftrightarrow> length p \<le> 16" unfolding m_def by blast+
qed

text \<open>The three lanes that are used, and what they add up to.\<close>

lemma lanes_value:
  assumes "length p \<le> 20" "list_all is_digit p"
  shows "\<exists>z high middle low. reduce_lanes (replicate (32 - length p) 0 @ map (\<lambda>c. c - 48) p) = [z, of_nat high, of_nat middle, of_nat low] \<and>
    high < 10 ^ 4 \<and> middle < 10 ^ 8 \<and> low < 10 ^ 8 \<and> dec p = high * 10 ^ 16 + middle * 10 ^ 8 + low"
proof -
  define D where "D = replicate (32 - length p) 0 @ map (\<lambda>c. c - 48) p"
  let ?A = "take 8 D" and ?B = "take 8 (drop 8 D)" and ?C = "take 8 (drop 16 D)" and ?E = "drop 24 D"
  have l: "length D = 32" using assms(1) by (simp add: D_def)
  have "list_all (\<lambda>d. unat d \<le> 9) (map (\<lambda>c. c - 48) p)"
    using assms(2) by (auto simp: list_all_iff is_digit_def word_le_nat_alt unat_sub)
  then have nine: "list_all (\<lambda>d. unat d \<le> 9) D" by (auto simp: D_def list_all_iff)
  have d: "D = ?A @ ?B @ ?C @ ?E"
    using append_take_drop_id [of 8 D] append_take_drop_id [of 8 "drop 8 D"] append_take_drop_id [of 8 "drop 16 D"] by simp
  have len: "length ?A = 8" "length ?B = 8" "length ?C = 8" "length ?E = 8" using l by simp_all
  have n: "list_all (\<lambda>d. unat d \<le> 9) ?A" "list_all (\<lambda>d. unat d \<le> 9) ?B" "list_all (\<lambda>d. unat d \<le> 9) ?C" "list_all (\<lambda>d. unat d \<le> 9) ?E"
    using nine by (auto simp: list_all_iff dest!: in_set_takeD in_set_dropD)
  have "reduce_lanes D = reduce_lanes ?A @ reduce_lanes ?B @ reduce_lanes ?C @ reduce_lanes ?E"
    by (subst d) (simp only: reduce_append len)
  then have r: "reduce_lanes D = [of_nat (num8 ?A), of_nat (num8 ?B), of_nat (num8 ?C), of_nat (num8 ?E)]"
    using reduce_group len n by simp
  have v: "num8 D = dec p" unfolding D_def num8_zeros by (rule num8_digits [OF assms(2)])
  have "num8 D = ((num8 ?A * 10 ^ 8 + num8 ?B) * 10 ^ 8 + num8 ?C) * 10 ^ 8 + num8 ?E"
    by (subst d) (simp add: num8_append len l)
  moreover have "num8 ?A = 0" using assms(1) num8_zeros [of 8 "[]"] by (simp add: D_def take_append min_def) (simp add: num8_def)
  ultimately have e: "dec p = num8 ?B * 10 ^ 16 + num8 ?C * 10 ^ 8 + num8 ?E" using v by simp
  have "dec p < 10 ^ 20" using dec_less [OF assms(2)] power_increasing [OF assms(1), of "10 :: nat"] by simp
  then have "num8 ?B < 10 ^ 4" using e by simp
  then show ?thesis using r e num8_less [OF n(3)] num8_less [OF n(4)] len unfolding D_def [symmetric] by metis
qed

lemma scast_small: "n < 10 ^ 8 \<Longrightarrow> (scast (of_nat n :: 32 word) :: u64) = of_nat n"
proof -
  assume n: "n < 10 ^ 8"
  have "sint (of_nat n :: 32 word) = int n" using n by (simp add: signed_of_nat signed_take_bit_int_eq_self)
  then show ?thesis by (simp add: scast_eq)
qed

lemma vector_overflow:
  assumes "high < 10 ^ 4" "ml < 10 ^ 16" defines "result \<equiv> of_nat ml + 10000000000000000 * of_nat high :: u64"
  shows "of_nat high > (1844 :: u64) \<or> result < of_nat ml \<longleftrightarrow> 2 ^ 64 \<le> high * 10 ^ 16 + ml"
    and "result = of_nat (high * 10 ^ 16 + ml)"
proof -
  show r: "result = of_nat (high * 10 ^ 16 + ml)" by (simp add: result_def)
  have h: "unat (of_nat high :: u64) = high" "unat (of_nat ml :: u64) = ml" using assms(1,2) by (simp_all add: unat_of_nat_eq)
  have u: "unat result = (high * 10 ^ 16 + ml) mod 2 ^ 64" unfolding r by (simp only: unsigned_of_nat take_bit_eq_mod) simp
  show "of_nat high > (1844 :: u64) \<or> result < of_nat ml \<longleftrightarrow> 2 ^ 64 \<le> high * 10 ^ 16 + ml"
  proof (cases "high > 1844")
    case True
    then show ?thesis using h(1) by (simp add: word_less_nat_alt)
  next
    case False
    have "unat result = (if 2 ^ 64 \<le> high * 10 ^ 16 + ml then high * 10 ^ 16 + ml - 2 ^ 64 else high * 10 ^ 16 + ml)"
      using False assms(2) unfolding u by (auto simp: mod_if)
    then show ?thesis using False assms(2) h by (auto simp: word_less_nat_alt)
  qed
qed

lemma avx512_digits_spec:
  assumes n: "0 < length p" and l: "length p \<le> 20"
  shows "avx512_digits neg p =
    (if list_all is_digit p
     then if neg then if dec p \<le> 2 ^ 63 then Some (- of_nat (dec p)) else None
          else if dec p < 2 ^ 63 then Some (of_nat (dec p)) else None
     else None)"
proof (cases "list_all is_digit p")
  case ok: True
  obtain z high middle low where v: "reduce_lanes (replicate (32 - length p) 0 @ map (\<lambda>c. c - 48) p) = [z, of_nat high, of_nat middle, of_nat low]"
      "high < 10 ^ 4" "middle < 10 ^ 8" "low < 10 ^ 8" "dec p = high * 10 ^ 16 + middle * 10 ^ 8 + low"
    using lanes_value [OF l ok] by blast
  let ?ml = "low + 100000000 * middle"
  have h8: "high < 10 ^ 8" using v(2) by simp
  have a: "avx512_digits neg p =
    (if length p \<le> 8 then Some (if neg then - of_nat low else of_nat low)
     else if length p \<le> 16 then Some (if neg then - of_nat ?ml else of_nat ?ml)
     else if of_nat high > (1844 :: u64) \<or> of_nat ?ml + 10000000000000000 * of_nat high < (of_nat ?ml :: u64) then None
     else signed_result neg (of_nat ?ml + 10000000000000000 * of_nat high))"
    using ok lanes_load [OF n l] v(1) [unfolded reduce_lanes_def] scast_small [OF h8] scast_small [OF v(3)] scast_small [OF v(4)]
    by (simp add: avx512_digits_def Let_def)
  have d: "dec p < 10 ^ length p" using dec_less ok by blast
  consider "length p \<le> 8" | "\<not> length p \<le> 8" "length p \<le> 16" | "\<not> length p \<le> 8" "\<not> length p \<le> 16" by blast
  then show ?thesis
  proof cases
    case 1
    then have "dec p < 10 ^ 8" using d power_increasing [of "length p" 8 "10 :: nat"] by simp
    then have "high = 0" "middle = 0" using v(5) by simp_all
    then show ?thesis using 1 ok v(4,5) unfolding a by simp
  next
    case 2
    then have s: "dec p < 10 ^ 16" using d power_increasing [of "length p" 16 "10 :: nat"] by simp
    then have e: "dec p = ?ml" using v(5) by simp
    show ?thesis using 2 ok s unfolding a e [symmetric] by simp
  next
    case 3
    have e: "dec p = high * 10 ^ 16 + ?ml" using v(5) by simp
    have ml: "?ml < 10 ^ 16" using v(3,4) by simp
    have o: "dec p < 2 ^ 64" if "dec p \<le> 2 ^ 63" using that by simp
    have c: "of_nat high > (1844 :: u64) \<or> of_nat ?ml + 10000000000000000 * of_nat high < (of_nat ?ml :: u64) \<longleftrightarrow> 2 ^ 64 \<le> dec p"
      using vector_overflow(1) [OF v(2) ml] unfolding e .
    have w: "of_nat ?ml + 10000000000000000 * of_nat high = (of_nat (dec p) :: u64)"
      using vector_overflow(2) [OF v(2) ml] unfolding e .
    show ?thesis using 3 ok o signed_result_spec [of "dec p" neg] unfolding a c unfolding w
      by (cases "dec p < 2 ^ 64") (simp_all add: not_less)
  qed
next
  case False
  then show ?thesis using lanes_load(1,2) [OF n l] by (simp add: avx512_digits_def Let_def)
qed

lemma vector_spec: "string2llAVX512 s = parse_spec s"
proof (cases "s = [] \<or> length s \<ge> 21 \<or> length s = 1 \<and> is_digit (s ! 0)")
  case True
  then have "string2llAVX512 s = string2llScalar s" by (auto simp: string2llAVX512_def string2llScalar_def LONG_STR_SIZE_def)
  then show ?thesis by (simp only: scalar_spec)
next
  case False
  define p where "p = (if s ! 0 = 45 then tl s else s)"
  have "length p \<le> 20" using False by (auto simp: p_def)
  moreover have "string2llAVX512 s = (if p = [] then None else if p ! 0 = 48 then None else avx512_digits (s ! 0 = 45) p)"
    using False unfolding p_def by (auto simp: string2llAVX512_def LONG_STR_SIZE_def Let_def)
  moreover have "parse_spec s = (if p \<noteq> [] \<and> p ! 0 \<noteq> 48 \<and> list_all is_digit p
      then if s ! 0 = 45 then if dec p \<le> 2 ^ 63 then Some (- of_nat (dec p)) else None
           else if dec p < 2 ^ 63 then Some (of_nat (dec p)) else None
      else None)"
    using parse_short [of s] False by (simp add: p_def Let_def)
  ultimately show ?thesis using avx512_digits_spec [of p] by auto
qed

subsection \<open>Printing\<close>

lemma decimal_length: "length (decimal n) = k \<longleftrightarrow> 0 < k \<and> n < 10 ^ k \<and> (k = 1 \<or> 10 ^ (k - 1) \<le> n)"
proof
  have d: "numeral_ok (decimal n)" "dec (decimal n) = n" using decimal_spec by auto
  have "0 < length (decimal n)" using d(1) by (simp add: numeral_ok_def)
  moreover have "n < 10 ^ length (decimal n)" using dec_less [of "decimal n"] d by (simp add: numeral_ok_def)
  moreover have ge: "length (decimal n) = 1 \<or> 10 ^ (length (decimal n) - 1) \<le> n"
    using dec_ge [OF d(1)] d(2) by (cases "decimal n = [48]") auto
  ultimately show "length (decimal n) = k \<Longrightarrow> 0 < k \<and> n < 10 ^ k \<and> (k = 1 \<or> 10 ^ (k - 1) \<le> n)" by auto
  assume k: "0 < k \<and> n < 10 ^ k \<and> (k = 1 \<or> 10 ^ (k - 1) \<le> n)"
  let ?l = "length (decimal n)"
  have "?l - 1 < k"
  proof (rule ccontr)
    assume "\<not> ?l - 1 < k"
    then have "k \<le> ?l - 1" "?l \<noteq> 1" using k by auto
    then have "(10 :: nat) ^ k \<le> 10 ^ (?l - 1)" "10 ^ (?l - 1) \<le> n" using ge by (auto intro: power_increasing)
    then have "10 ^ k \<le> n" by (rule order_trans)
    then show False using k by simp
  qed
  moreover have "k - 1 < ?l"
  proof (rule ccontr)
    assume "\<not> k - 1 < ?l"
    then have "?l \<le> k - 1" "k \<noteq> 1" using \<open>0 < ?l\<close> by auto
    then have "(10 :: nat) ^ ?l \<le> 10 ^ (k - 1)" "10 ^ (k - 1) \<le> n" using k by (auto intro: power_increasing)
    then have "10 ^ ?l \<le> n" by (rule order_trans)
    then show False using \<open>n < 10 ^ ?l\<close> by simp
  qed
  ultimately show "?l = k" using k \<open>0 < ?l\<close> by linarith
qed

lemma digits10_small:
  assumes "v < 1000000000000"
  shows "unat (digits10 v) = length (decimal (unat v)) \<and> unat (digits10 v) \<le> 12"
proof -
  have v: "unat v < 1000000000000" using assms by (simp add: word_less_nat_alt)
  have "unat (digits10 v) = (if unat v < 10 then 1 else if unat v < 100 then 2 else if unat v < 1000 then 3 else if unat v < 10000 then 4
      else if unat v < 100000 then 5 else if unat v < 1000000 then 6 else if unat v < 10000000 then 7 else if unat v < 100000000 then 8
      else if unat v < 1000000000 then 9 else if unat v < 10000000000 then 10 else if unat v < 100000000000 then 11 else 12)"
    using assms by (subst digits10.simps) (simp add: word_less_nat_alt word_le_nat_alt)
  then show ?thesis using v by (auto simp: decimal_length [THEN iffD2] eq_commute [of _ "length (decimal (unat v))"])
qed

lemma digits10_spec: "unat (digits10 v) = length (decimal (unat v))"
proof (cases "v < 1000000000000")
  case True
  then show ?thesis using digits10_small by blast
next
  case False
  let ?w = "v div 1000000000000"
  have w: "unat ?w = unat v div 1000000000000" by (simp add: unat_div)
  have v: "1000000000000 \<le> unat v" using False by (simp add: word_less_nat_alt)
  have "?w < 1000000000000" using unat_bound [of v] by (simp add: word_less_nat_alt w)
  note k = digits10_small [OF this]
  let ?k = "unat (digits10 ?w)"
  have d: "digits10 v = 12 + digits10 ?w" using v by (subst digits10.simps) (simp add: word_less_nat_alt)
  have "unat (digits10 v) = 12 + ?k" unfolding d using k by (simp add: unat_word_ariths)
  moreover have "length (decimal (unat v)) = 12 + ?k"
  proof -
    have b: "0 < ?k" "unat ?w < 10 ^ ?k" "?k = 1 \<or> 10 ^ (?k - 1) \<le> unat ?w" using k decimal_length [of "unat ?w" ?k] by auto
    have one: "1 \<le> unat ?w" using v by (simp add: w div_greater_zero_iff Suc_le_eq)
    have "unat v < (unat ?w + 1) * 10 ^ 12" unfolding w by simp
    also have "\<dots> \<le> 10 ^ ?k * 10 ^ 12" using b(2) by (intro mult_right_mono) auto
    finally have lt: "unat v < 10 ^ (12 + ?k)" by (simp only: power_add mult.commute)
    have m: "10 ^ (?k - 1) * 10 ^ 12 \<le> unat ?w * 10 ^ 12" using b(3) one by (intro mult_right_mono) auto
    have "10 ^ (?k - 1) * 10 ^ 12 \<le> unat v" using m by (rule order_trans) (simp add: w)
    moreover have "12 + ?k - 1 = (?k - 1) + 12" using b(1) by simp
    ultimately have "10 ^ (12 + ?k - 1) \<le> unat v" by (simp only: power_add)
    then show ?thesis using lt b(1) unfolding decimal_length by simp
  qed
  ultimately show ?thesis by simp
qed

lemma digit_pairs_nth:
  assumes "i < 100"
  shows "digit_pairs ! (i * 2) = 48 + of_nat (i div 10) \<and> digit_pairs ! (i * 2 + 1) = 48 + of_nat (i mod 10)"
proof -
  let ?g = "\<lambda>i. [48 + of_nat (i div 10), 48 + of_nat (i mod 10)] :: bytes"
  have d: "digit_pairs = concat (map ?g [0..<100])" by code_simp
  have "map (\<lambda>i. take 2 (drop (2 * i) digit_pairs)) [0..<100] = map ?g [0..<100]"
    unfolding d using concat_chunks [of "[0..<100]" ?g 2 id] by simp
  then have t: "take 2 (drop (2 * i) digit_pairs) = ?g i" using assms unfolding map_eq_conv by simp
  have "length digit_pairs = 200" unfolding d using length_concat_chunks [of "[0..<100]" ?g 2] by simp
  then have "take 2 (drop (2 * i) digit_pairs) ! 0 = digit_pairs ! (2 * i)" "take 2 (drop (2 * i) digit_pairs) ! 1 = digit_pairs ! (2 * i + 1)"
    using assms by simp_all
  then show ?thesis unfolding t by (simp add: mult.commute)
qed

lemma decimal_step: "10 \<le> n \<Longrightarrow> decimal n = decimal (n div 10) @ [48 + of_nat (n mod 10)]"
  by (subst decimal.simps) simp

lemma decimal_pair: "100 \<le> n \<Longrightarrow> decimal n = decimal (n div 100) @ [48 + of_nat (n mod 100 div 10), 48 + of_nat (n mod 10)]"
proof -
  assume n: "100 \<le> n"
  have e: "n div 10 div 10 = n div 100" "n div 10 mod 10 = n mod 100 div 10"
    using div_mult2_eq [of n 10 10] mod_mult2_eq [of n 10 10] by simp_all
  have "10 \<le> n" "10 \<le> n div 10" using n div_le_mono [OF n, of 10] by simp_all
  then show ?thesis using decimal_step [of n] decimal_step [of "n div 10"] unfolding e by simp
qed

lemma decimal_one: "n < 10 \<Longrightarrow> decimal n = [48 + of_nat n]"
  by (subst decimal.simps) simp

lemma decimal_two: "10 \<le> n \<Longrightarrow> n < 100 \<Longrightarrow> decimal n = [48 + of_nat (n div 10), 48 + of_nat (n mod 10)]"
proof -
  assume n: "10 \<le> n" "n < 100"
  then have "n div 10 < 10" by (simp add: less_mult_imp_div_less)
  then show ?thesis using decimal_step [OF n(1)] decimal_one [of "n div 10"] by simp
qed

lemma update_last_two:
  assumes "k + 2 \<le> length dst"
  shows "drop k (dst[k + 1 := b, k := a]) = a # b # drop (k + 2) dst"
proof -
  have "drop k dst = dst ! k # dst ! (k + 1) # drop (k + 2) dst" using assms by (simp add: Cons_nth_drop_Suc)
  moreover have "drop k (dst[k + 1 := b, k := a]) = (drop k dst)[1 := b, 0 := a]" by (simp add: drop_update_swap)
  ultimately show ?thesis by simp
qed

lemma ull2string_loop_spec:
  assumes "length (decimal (unat v)) \<le> length dst"
  shows "ull2string_loop dst (length (decimal (unat v)) - 1) v = decimal (unat v) @ drop (length (decimal (unat v))) dst"
  using assms
proof (induction "unat v" arbitrary: v dst rule: less_induct)
  case less
  consider (big) "100 \<le> unat v" | (two) "10 \<le> unat v" "unat v < 100" | (one) "unat v < 10" by linarith
  then show ?case
  proof cases
    case big
    let ?w = "v div 100" and ?m = "unat v mod 100"
    have w: "unat ?w = unat v div 100" "unat (v mod 100) = ?m" by (simp_all add: unat_div unat_mod)
    let ?k = "length (decimal (unat ?w))"
    have d: "decimal (unat v) = decimal (unat ?w) @ [48 + of_nat (?m div 10), 48 + of_nat (?m mod 10)]"
      using decimal_pair [OF big] by (simp add: w(1) mod_mod_cancel)
    have k: "0 < ?k" using decimal_length [of "unat ?w" ?k] by simp
    have len: "?k + 2 \<le> length dst" using less.prems unfolding d by simp
    let ?dst = "dst[?k + 1 := 48 + of_nat (?m mod 10), ?k := 48 + of_nat (?m div 10)]"
    have "ull2string_loop dst (?k + 1) v = ull2string_loop ?dst (?k - 1) ?w"
      using big k digit_pairs_nth [of ?m] by (subst ull2string_loop.simps) (simp add: word_le_nat_alt w Let_def)
    also have "\<dots> = decimal (unat ?w) @ drop ?k ?dst"
      using big len by (intro less.hyps) (simp_all add: w)
    finally show ?thesis unfolding d using update_last_two [OF len] by simp
  next
    case two
    let ?m = "unat v"
    have d: "decimal ?m = [48 + of_nat (?m div 10), 48 + of_nat (?m mod 10)]" by (rule decimal_two [OF two])
    have "ull2string_loop dst 1 v = dst[1 := 48 + of_nat (?m mod 10), 0 := 48 + of_nat (?m div 10)]"
      using two digit_pairs_nth [OF two(2)] by (subst ull2string_loop.simps) (simp add: word_le_nat_alt word_less_nat_alt Let_def)
    then show ?thesis using less.prems update_last_two [of 0 dst] unfolding d by simp
  next
    case one
    have d: "decimal (unat v) = [48 + of_nat (unat v)]" using one by (rule decimal_one)
    have "ull2string_loop dst 0 v = dst[0 := 48 + of_nat (unat v)]"
      using one by (subst ull2string_loop.simps) (simp add: word_le_nat_alt word_less_nat_alt)
    then show ?thesis using less.prems unfolding d by (cases dst) simp_all
  qed
qed

lemma ull2string_spec:
  "ull2string dst v = (if length (decimal (unat v)) < length dst
     then (decimal (unat v) @ 0 # drop (length (decimal (unat v)) + 1) dst, length (decimal (unat v)))
     else (if length dst > 0 then dst[0 := 0] else dst, 0))"
proof -
  let ?k = "length (decimal (unat v))"
  have "drop ?k (dst[?k := 0]) = 0 # drop (?k + 1) dst" if "?k < length dst"
    using that by (simp add: Cons_nth_drop_Suc [symmetric])
  then show ?thesis using ull2string_loop_spec [of v "dst[?k := 0]"] by (auto simp: ull2string_def digits10_spec Let_def)
qed

lemma ll2string_spec:
  assumes "length (decimal_int (sint v)) < length dst"
  shows "ll2string dst v = (decimal_int (sint v) @ 0 # drop (length (decimal_int (sint v)) + 1) dst, length (decimal_int (sint v)))"
proof (cases "sint v < 0")
  case True
  let ?m = "if v \<noteq> 0x8000000000000000 then - v else 0x7FFFFFFFFFFFFFFF + 1"
  have "?m = - v" by simp
  moreover have u: "unat (- v) = nat (- sint v)"
  proof -
    have "- v = of_nat (nat (- sint v))" using True by simp
    moreover have "nat (- sint v) < 2 ^ 64" using sint_greater_eq [of v] by simp
    ultimately show ?thesis by (simp add: unat_of_nat_eq)
  qed
  moreover have "decimal (nat (- sint v)) \<noteq> []" using decimal_spec by (simp add: numeral_ok_def)
  moreover obtain c dst' where "dst = c # dst'" using assms by (cases dst) auto
  ultimately show ?thesis using assms True ull2string_spec [of dst' "- v"] unfolding ll2string_def Let_def
    by (auto simp: decimal_int_def)
next
  case False
  have u: "unat v = nat (sint v)"
  proof -
    have "v = of_nat (nat (sint v))" using False by simp
    moreover have "nat (sint v) < 2 ^ 64" using sint_less [of v] by simp
    ultimately show ?thesis using unat_of_nat_eq [where ?'a = 64, of "nat (sint v)"] by simp
  qed
  then show ?thesis using assms False ull2string_spec [of dst v] by (simp add: ll2string_def decimal_int_def)
qed

lemma decimal_int_short: "length (decimal_int (sint v)) \<le> 20" for v :: "64 word"
  using parse_spec_decimal [of "decimal_int (sint v)" v] parse_long [of "decimal_int (sint v)"] by (cases "length (decimal_int (sint v)) \<ge> 21") auto

text \<open>
  C12. The two parsers behind \<open>string2ll\<close>, the portable loop and the AVX-512 routine, return the same result
  for every byte string, and they accept a string exactly when it is the decimal notation of a 64-bit signed
  integer (no leading zero, plus sign, space or negative zero), which is then the value returned.
\<close>

theorem string2ll_exact:
  "string2llAVX512 s = string2llScalar s \<and> (string2llScalar s = Some v \<longleftrightarrow> s = decimal_int (sint v))"
  by (simp add: scalar_spec vector_spec parse_spec_decimal)

text \<open>
  C39. Printing and parsing are inverse: in a buffer of at least 21 bytes \<open>ll2string\<close> writes the decimal notation of
  the number, terminated by a zero byte, and \<open>string2ll\<close> of the bytes written is the number again.
\<close>

theorem ll2string_roundtrip:
  assumes "LONG_STR_SIZE \<le> length dst"
  shows "case ll2string dst v of (buf, n) \<Rightarrow>
    take n buf = decimal_int (sint v) \<and> buf ! n = 0 \<and> drop (n + 1) buf = drop (n + 1) dst \<and> string2llScalar (take n buf) = Some v"
proof -
  have "length (decimal_int (sint v)) < length dst" using assms decimal_int_short [of v] by (simp add: LONG_STR_SIZE_def)
  then show ?thesis using parse_spec_decimal [of "decimal_int (sint v)" v] by (simp add: ll2string_spec scalar_spec nth_append)
qed

theorem ll2string_roundtrip_witness:
  "LONG_STR_SIZE \<le> length (replicate 21 (7 :: u8)) \<and>
   (case ll2string (replicate 21 7) (- 120) of (buf, n) \<Rightarrow> string2llScalar (take n buf) = Some (- 120))"
  using ll2string_roundtrip [of "replicate 21 7" "- 120"] by (auto simp: LONG_STR_SIZE_def)

end
