(* ===== verification/Nex_Crdt_Cmd_Props.thy ===== *)
theory Nex_Crdt_Cmd_Props
  imports Nex_Crdt_Cmd Nex_Storage_Dual Nex_Util_Props
begin

text \<open>
  The replicated data types as they are stored: struct images and their round trips, what it means for
  stored bytes to be of a kind, a contract for read-modify-write callbacks that respects the kinds,
  and its consequences for the commands.
\<close>

subsection \<open>Images\<close>

lemma length_words_image: "length (words_image ws) = 8 * length ws"
  by (simp add: words_image_def length_concat_chunks)

lemma words_at_image:
  assumes "length pre = off" "length ws = CRDT_MAX_NODES"
  shows "words_at (pre @ words_image ws @ post) off = ws"
proof -
  have t: "take 8 (drop (8 * i) (words_image ws @ post)) = take 8 (drop (8 * i) (words_image ws))" if "i < CRDT_MAX_NODES" for i
    using that assms(2) by (simp add: length_words_image)
  have "map (\<lambda>i. le_dec (take 8 (drop (8 * i) (words_image ws)))) [0..<length ws] = ws"
    using concat_chunks [of ws "le_enc 8" 8 "le_dec :: bytes \<Rightarrow> u64"] by (simp add: words_image_def)
  moreover have d: "drop off (pre @ words_image ws @ post) = words_image ws @ post" using assms(1) by simp
  have "words_at (pre @ words_image ws @ post) off = map (\<lambda>i. le_dec (take 8 (drop (8 * i) (words_image ws)))) [0..<CRDT_MAX_NODES]"
    unfolding words_at_def d by (rule map_cong) (simp_all only: t set_upt atLeastLessThan_iff)
  ultimately show ?thesis using assms(2) by simp
qed

lemma u32_at_image: "length pre = off \<Longrightarrow> u32_at (pre @ le_enc 4 w @ post) off = w"
  by (simp add: u32_at_def)

definition gcounter_ok :: "GCounter \<Rightarrow> bool" where
  "gcounter_ok g \<longleftrightarrow> length (g_values g) = CRDT_MAX_NODES \<and> g_num_nodes g = int CRDT_MAX_NODES"

definition pncounter_ok :: "PNCounter \<Rightarrow> bool" where
  "pncounter_ok p \<longleftrightarrow> length (p_positive p) = CRDT_MAX_NODES \<and> length (p_negative p) = CRDT_MAX_NODES \<and> p_num_nodes p = int CRDT_MAX_NODES"

lemma gcounter_image_load:
  assumes "gcounter_ok g"
  shows "length (gcounter_image g) = sizeof_GCounter" "gcounter_of_image (gcounter_image g) = g"
proof -
  have l: "length (words_image (g_values g)) = 1024" "length (g_values g) = CRDT_MAX_NODES"
    using assms by (simp_all add: gcounter_ok_def length_words_image CRDT_MAX_NODES_def)
  show "length (gcounter_image g) = sizeof_GCounter" using l by (simp add: gcounter_image_def sizeof_GCounter_def)
  have v: "words_at (gcounter_image g) 0 = g_values g"
    using words_at_image [of "[]" 0 "g_values g"] l by (simp add: gcounter_image_def)
  have n: "u32_at (gcounter_image g) 1024 = of_int (g_num_nodes g)" using u32_at_image [OF l(1)] by (simp add: gcounter_image_def)
  have s: "u32_at (gcounter_image g) 1028 = g_self_node g"
    using u32_at_image [of "words_image (g_values g) @ le_enc 4 (of_int (g_num_nodes g) :: u32)" 1028 "g_self_node g" "[]"] l
    by (simp add: gcounter_image_def)
  have "sint (of_int (g_num_nodes g) :: u32) = g_num_nodes g" using assms by (simp add: gcounter_ok_def CRDT_MAX_NODES_def)
  then show "gcounter_of_image (gcounter_image g) = g" by (simp add: gcounter_of_image_def v n s)
qed

lemma pncounter_image_load:
  assumes "pncounter_ok p"
  shows "length (pncounter_image p) = sizeof_PNCounter" "pncounter_of_image (pncounter_image p) = p"
proof -
  let ?a = "words_image (p_positive p)" and ?b = "words_image (p_negative p)" and ?n = "le_enc 4 (of_int (p_num_nodes p) :: u32)"
  have l: "length ?a = 1024" "length ?b = 1024" "length (p_positive p) = CRDT_MAX_NODES" "length (p_negative p) = CRDT_MAX_NODES"
    using assms by (simp_all add: pncounter_ok_def length_words_image CRDT_MAX_NODES_def)
  show "length (pncounter_image p) = sizeof_PNCounter" using l by (simp add: pncounter_image_def sizeof_PNCounter_def)
  have a: "words_at (pncounter_image p) 0 = p_positive p"
    using words_at_image [of "[]" 0 "p_positive p"] l by (simp add: pncounter_image_def)
  have b: "words_at (pncounter_image p) 1024 = p_negative p"
    using words_at_image [of ?a 1024 "p_negative p"] l by (simp add: pncounter_image_def)
  have n: "u32_at (pncounter_image p) 2048 = of_int (p_num_nodes p)"
    using u32_at_image [of "?a @ ?b" 2048 "of_int (p_num_nodes p)"] l by (simp add: pncounter_image_def)
  have s: "u32_at (pncounter_image p) 2052 = p_self_node p"
    using u32_at_image [of "?a @ ?b @ ?n" 2052 "p_self_node p" "[]"] l by (simp add: pncounter_image_def)
  have "sint (of_int (p_num_nodes p) :: u32) = p_num_nodes p" using assms by (simp add: pncounter_ok_def CRDT_MAX_NODES_def)
  then show "pncounter_of_image (pncounter_image p) = p" by (simp add: pncounter_of_image_def a b n s)
qed

text \<open>Reading a field of a register after the fields were written: below, at or above the field.\<close>

lemma drop_buf_write_above: "off + length xs \<le> i \<Longrightarrow> off + length xs \<le> length buf \<Longrightarrow> drop i (buf_write buf off xs) = drop i buf"
  by (simp add: buf_write_def)

lemma take_drop_buf_write_below: "i + n \<le> off \<Longrightarrow> off \<le> length buf \<Longrightarrow> take n (drop i (buf_write buf off xs)) = take n (drop i buf)"
  using buf_read_write_below [of i n off buf xs] by (simp add: buf_read_def)

lemma take_drop_buf_write_in: "off \<le> length buf \<Longrightarrow> take (length xs) (drop off (buf_write buf off xs)) = xs"
  by (simp add: buf_write_def)

lemma lww_write_load:
  assumes l: "length bs = sizeof_LWWRegister" and v: "length (l_value r) \<le> 1023" and c: "length (l_clocks r) = CRDT_MAX_NODES"
    and n: "l_node_id r = l_node_id (lww_of_image bs)" "l_num_nodes r = l_num_nodes (lww_of_image bs)"
  shows "length (lww_write r bs) = sizeof_LWWRegister" "lww_of_image (lww_write r bs) = r"
proof -
  define b1 where "b1 = buf_write bs 0 (l_value r)"
  define b2 where "b2 = buf_write b1 1024 (le_enc 2 (of_nat (length (l_value r)) :: u16))"
  define b3 where "b3 = buf_write b2 1032 (le_enc 8 (l_timestamp_us r))"
  define b4 where "b4 = buf_write b3 1048 (words_image (l_clocks r))"
  have w: "lww_write r bs = b4" by (simp add: lww_write_def b1_def b2_def b3_def b4_def Let_def)
  have lc: "length (words_image (l_clocks r)) = 1024" using c by (simp add: length_words_image CRDT_MAX_NODES_def)
  have l1: "length b1 = 2120" using l v by (simp add: b1_def sizeof_LWWRegister_def)
  have l2: "length b2 = 2120" using l1 by (simp add: b2_def)
  have l3: "length b3 = 2120" using l2 by (simp add: b3_def)
  have l4: "length b4 = 2120" using l3 lc by (simp add: b4_def)
  show "length (lww_write r bs) = sizeof_LWWRegister" unfolding w using l4 by (simp add: sizeof_LWWRegister_def)
  have node: "take 4 (drop 1040 b4) = take 4 (drop 1040 bs)"
    using l v l1 l2 l3 by (simp add: b4_def take_drop_buf_write_below) (simp add: b3_def b2_def b1_def drop_buf_write_above sizeof_LWWRegister_def)
  have num: "take 4 (drop 2072 b4) = take 4 (drop 2072 bs)"
    using l v l1 l2 l3 lc by (simp add: b4_def b3_def b2_def b1_def drop_buf_write_above sizeof_LWWRegister_def)
  have time: "take 8 (drop 1032 b4) = le_enc 8 (l_timestamp_us r)"
    using l2 l3 take_drop_buf_write_in [of 1032 b2 "le_enc 8 (l_timestamp_us r)"] by (simp add: b4_def take_drop_buf_write_below) (simp add: b3_def)
  have len: "take 2 (drop 1024 b4) = le_enc 2 (of_nat (length (l_value r)) :: u16)"
    using l1 l2 l3 take_drop_buf_write_in [of 1024 b1 "le_enc 2 (of_nat (length (l_value r)) :: u16)"]
    by (simp add: b4_def take_drop_buf_write_below) (simp add: b3_def take_drop_buf_write_below b2_def)
  have "take (length (l_value r)) (drop 0 b4) = l_value r"
    using l v l1 l2 l3 take_drop_buf_write_in [of 0 bs "l_value r"]
    by (simp only: b4_def b3_def b2_def take_drop_buf_write_below) (simp add: take_drop_buf_write_below [where i = 0, simplified] b1_def)
  then have val: "take (length (l_value r)) (take 1024 b4) = l_value r" using v by (simp add: take_take)
  have clk: "words_at b4 1048 = l_clocks r"
    using words_at_image [of "take 1048 b3" 1048 "l_clocks r" "drop (1048 + 1024) b3"] l3 c by (simp add: b4_def buf_write_def lc)
  have "unat (of_nat (length (l_value r)) :: u16) = length (l_value r)" using v by (simp add: unat_of_nat_eq)
  then show "lww_of_image (lww_write r bs) = r"
    unfolding w using n val clk time len by (cases r) (simp add: lww_of_image_def u32_at_def node num)
qed

subsection \<open>Kinds\<close>

datatype CRDTType = CRDT_G_COUNTER | CRDT_PN_COUNTER | CRDT_OR_SET | CRDT_LWW_REG

definition orset_bytes :: "ORSet \<Rightarrow> bytes" where
  "orset_bytes s = snd (orset_serialize s (orset_serialized_size s))"

definition typed_image :: "CRDTType \<Rightarrow> bytes \<Rightarrow> bool" where
  "typed_image K bs \<longleftrightarrow>
     (case K of
        CRDT_G_COUNTER \<Rightarrow> \<exists>g. gcounter_ok g \<and> bs = gcounter_image g
      | CRDT_PN_COUNTER \<Rightarrow> \<exists>p. pncounter_ok p \<and> bs = pncounter_image p
      | CRDT_OR_SET \<Rightarrow> \<exists>s. (\<forall>e \<in> set (os_entries s). length (oe_value e) \<le> 255) \<and> length (os_entries s) < 2 ^ 32 \<and> bs = orset_bytes s
      | CRDT_LWW_REG \<Rightarrow> length bs = sizeof_LWWRegister \<and> l_num_nodes (lww_of_image bs) = 0)"

text \<open>What the bytes of a kind stand for.  Of a set that is its entries and the tag generator.\<close>

datatype crdt_val = VGCounter GCounter | VPNCounter PNCounter | VORSet "ORSetEntry list" u64 | VLWWRegister LWWRegister

definition crdt_decode :: "CRDTType \<Rightarrow> bytes \<Rightarrow> crdt_val" where
  "crdt_decode K bs =
     (case K of
        CRDT_G_COUNTER \<Rightarrow> VGCounter (gcounter_of_image bs)
      | CRDT_PN_COUNTER \<Rightarrow> VPNCounter (pncounter_of_image bs)
      | CRDT_OR_SET \<Rightarrow> let s = orset_deserialize bs 0 in VORSet (os_entries s) (os_next_tag s)
      | CRDT_LWW_REG \<Rightarrow> VLWWRegister (lww_of_image bs))"

lemma orset_bytes_load:
  assumes "\<forall>e \<in> set (os_entries s). length (oe_value e) \<le> 255" "length (os_entries s) < 2 ^ 32"
  shows "length (orset_bytes s) = 8 + 280 * length (os_entries s)"
    "orset_deserialize (orset_bytes s) node = \<lparr>os_entries = os_entries s,
       os_capacity = (if os_entries s = [] then 1 else of_nat (length (os_entries s))), os_next_tag = take_bit 32 (os_next_tag s), os_self_node = node\<rparr>"
proof -
  note l = orset_image_load [OF assms order_refl, of node]
  have "fst (orset_serialize s (orset_serialized_size s)) = 8 + 280 * length (os_entries s)"
    by (simp add: orset_serialize_def orset_serialized_size_def ORSET_ENTRY_SIZE_def Let_def)
  then show "length (orset_bytes s) = 8 + 280 * length (os_entries s)" using l by (simp add: orset_bytes_def)
  show "orset_deserialize (orset_bytes s) node = \<lparr>os_entries = os_entries s,
       os_capacity = (if os_entries s = [] then 1 else of_nat (length (os_entries s))), os_next_tag = take_bit 32 (os_next_tag s), os_self_node = node\<rparr>"
    using l by (simp add: orset_bytes_def)
qed

text \<open>The entry a callback is given, under a kind; its size is below two gigabytes.\<close>

definition typed_entry :: "CRDTType \<Rightarrow> NexEntry \<Rightarrow> bool" where
  "typed_entry K en \<longleftrightarrow> ne_ttl_ms en = - 1 \<and> ne_type en \<noteq> NEXDT_UNKNOWN \<and>
     (\<forall>v. ne_value en = Some v \<longrightarrow> ne_type en = NEXDT_CRDT \<and> typed_image K v \<and> length v < 2 ^ 31)"

definition entry_value :: "CRDTType \<Rightarrow> NexEntry \<Rightarrow> crdt_val option" where
  "entry_value K en = map_option (crdt_decode K) (ne_value en)"

text \<open>
  A callback that respects a kind: on an entry of the kind it accesses no memory out of bounds, and
  what it stores is of the kind and stands for what \<open>eff\<close> makes of the old value; \<open>eff\<close> also gives its output.  \<open>ready\<close> is what it needs of its arguments.
\<close>

locale crdt_callback =
  fixes K :: CRDTType
    and ready :: bool
    and cb :: "'o option rmw_callback"
    and eff :: "crdt_val option \<Rightarrow> crdt_val option \<times> 'o"
  assumes cb: "ready \<Longrightarrow> typed_entry K en \<Longrightarrow> \<exists>en' res. cb en = (en', res, Some (snd (eff (entry_value K en)))) \<and> ne_type en' \<noteq> NEXDT_UNKNOWN \<and>
      (res = NEXS_OK \<longleftrightarrow> fst (eff (entry_value K en)) \<noteq> None) \<and>
      (res = NEXS_OK \<longrightarrow> ne_ttl_ms en' = - 1 \<and> ne_type en' = NEXDT_CRDT \<and>
         (\<exists>bs. ne_value en' = Some bs \<and> typed_image K bs \<and> fst (eff (entry_value K en)) = Some (crdt_decode K bs)))"

text \<open>What the commands mean for the value of a key.\<close>

definition gcounter_of :: "u32 \<Rightarrow> crdt_val option \<Rightarrow> GCounter" where
  "gcounter_of node a = (case a of Some (VGCounter g) \<Rightarrow> g | _ \<Rightarrow> gcounter_create node (int CRDT_MAX_NODES))"

definition pncounter_of :: "u32 \<Rightarrow> crdt_val option \<Rightarrow> PNCounter" where
  "pncounter_of node a = (case a of Some (VPNCounter p) \<Rightarrow> p | _ \<Rightarrow> pncounter_create node (int CRDT_MAX_NODES))"

definition orset_of :: "u32 \<Rightarrow> crdt_val option \<Rightarrow> ORSet" where
  "orset_of node a =
     (case a of
        Some (VORSet es tag) \<Rightarrow> \<lparr>os_entries = es, os_capacity = (if es = [] then 1 else of_nat (length es)), os_next_tag = tag, os_self_node = node\<rparr>
      | _ \<Rightarrow> orset_create node)"

definition lww_of :: "crdt_val option \<Rightarrow> LWWRegister" where
  "lww_of a = (case a of Some (VLWWRegister r) \<Rightarrow> r | _ \<Rightarrow> lww_create 0 0)"

definition orset_saved :: "ORSet \<Rightarrow> crdt_val" where
  "orset_saved s = VORSet (os_entries s) (take_bit 32 (os_next_tag s))"

definition gincr_eff :: "u64 \<Rightarrow> u32 \<Rightarrow> crdt_val option \<Rightarrow> crdt_val option \<times> u64" where
  "gincr_eff delta node a = (let g = gcounter_increment (gcounter_of node a) delta in (Some (VGCounter g), gcounter_value g))"

definition pnincr_eff :: "int \<Rightarrow> u32 \<Rightarrow> crdt_val option \<Rightarrow> crdt_val option \<times> int" where
  "pnincr_eff delta node a =
     (let p = (if delta \<ge> 0 then pncounter_increment (pncounter_of node a) (of_int delta)
               else pncounter_decrement (pncounter_of node a) (of_int (- delta)))
      in (Some (VPNCounter p), pncounter_value p))"

definition orset_add_eff :: "bool \<Rightarrow> bool \<Rightarrow> u32 \<Rightarrow> bytes \<Rightarrow> crdt_val option \<Rightarrow> crdt_val option \<times> int" where
  "orset_add_eff set_ok can_grow node val a =
     (if \<not> set_ok then (None, 0)
      else case orset_add can_grow (orset_of node a) (Some (take 255 val)) of (rc, s) \<Rightarrow> (Some (orset_saved s), if rc = 0 then 1 else 0))"

definition orset_remove_eff :: "bool \<Rightarrow> u32 \<Rightarrow> bytes \<Rightarrow> crdt_val option \<Rightarrow> crdt_val option \<times> int" where
  "orset_remove_eff set_ok node val a =
     (if a = None \<or> \<not> set_ok then (None, 0)
      else case orset_remove (orset_of node a) (Some (cut16 val)) of (removed, s) \<Rightarrow> (Some (orset_saved s), removed))"

definition lww_set_eff :: "u64 \<Rightarrow> bytes \<Rightarrow> crdt_val option \<Rightarrow> crdt_val option \<times> unit" where
  "lww_set_eff now val a = (Some (VLWWRegister (snd (lww_set now (lww_of a) (Some (cut16 val))))), ())"

subsection \<open>The callbacks respect the kinds\<close>

lemma stored_struct_none: "ne_value en = None \<Longrightarrow> stored_struct en n = None"
  by (simp add: stored_struct_def)

lemma stored_struct_some: "ne_value en = Some v \<Longrightarrow> ne_type en = NEXDT_CRDT \<Longrightarrow> n \<le> length v \<Longrightarrow> stored_struct en n = Some v"
  by (simp add: stored_struct_def)

lemma full_in_bounds: "counter_in_bounds node (int CRDT_MAX_NODES)"
  by (auto simp: counter_in_bounds_def node_in_array_def CRDT_MAX_NODES_def word_le_nat_alt)

lemma crdt_entry_fields [simp]:
  "ne_ttl_ms (crdt_entry en bs) = ne_ttl_ms en" "ne_type (crdt_entry en bs) = NEXDT_CRDT" "ne_value (crdt_entry en bs) = Some bs"
  by (simp_all add: crdt_entry_def)

lemma gcounter_increment_ok: "gcounter_ok g \<Longrightarrow> gcounter_ok (gcounter_increment g delta)"
  by (simp add: gcounter_ok_def gcounter_increment_def saturating_add_def)

lemma pncounter_update_ok: "pncounter_ok p \<Longrightarrow> pncounter_ok (pncounter_increment p delta) \<and> pncounter_ok (pncounter_decrement p delta)"
  by (simp add: pncounter_ok_def pncounter_increment_def pncounter_decrement_def saturating_add_def)

interpretation gi: crdt_callback CRDT_G_COUNTER True "gincr_callback delta node" "gincr_eff delta node" for delta node
proof unfold_locales
  fix en
  assume en: "typed_entry CRDT_G_COUNTER en"
  let ?a = "entry_value CRDT_G_COUNTER en"
  have g: "gcounter_ok (gcounter_of node ?a) \<and> gincr_callback delta node en =
      (crdt_entry en (gcounter_image (gcounter_increment (gcounter_of node ?a) delta)), NEXS_OK,
       Some (gcounter_value (gcounter_increment (gcounter_of node ?a) delta)))"
  proof (cases "ne_value en")
    case None
    then show ?thesis
      by (simp add: gincr_callback_def stored_struct_none entry_value_def gcounter_of_def gcounter_create_def gcounter_ok_def full_in_bounds Let_def)
  next
    case (Some v)
    then obtain g where g: "gcounter_ok g" "v = gcounter_image g" "ne_type en = NEXDT_CRDT" using en by (auto simp: typed_entry_def typed_image_def)
    have "counter_in_bounds (g_self_node g) (g_num_nodes g)" using g(1) full_in_bounds by (simp add: gcounter_ok_def)
    then show ?thesis using Some g(1) gcounter_image_load [OF g(1)] stored_struct_some [OF Some g(3), of sizeof_GCounter]
      by (simp add: gincr_callback_def entry_value_def gcounter_of_def crdt_decode_def g(2) Let_def)
  qed
  then show "\<exists>en' res. gincr_callback delta node en = (en', res, Some (snd (gincr_eff delta node ?a))) \<and> ne_type en' \<noteq> NEXDT_UNKNOWN \<and>
      (res = NEXS_OK \<longleftrightarrow> fst (gincr_eff delta node ?a) \<noteq> None) \<and>
      (res = NEXS_OK \<longrightarrow> ne_ttl_ms en' = - 1 \<and> ne_type en' = NEXDT_CRDT \<and>
         (\<exists>bs. ne_value en' = Some bs \<and> typed_image CRDT_G_COUNTER bs \<and> fst (gincr_eff delta node ?a) = Some (crdt_decode CRDT_G_COUNTER bs)))"
    using en gcounter_increment_ok [of "gcounter_of node ?a" delta] gcounter_image_load(2)
    by (auto simp: gincr_eff_def typed_entry_def typed_image_def crdt_decode_def Let_def)
qed

text \<open>The negation of the smallest integer is excluded: it has no 64-bit result.\<close>

lemma pnincr_respects:
  assumes en: "typed_entry CRDT_PN_COUNTER en" and d: "delta \<noteq> - (2 ^ 63)"
  shows "pncounter_ok (pncounter_of node (entry_value CRDT_PN_COUNTER en))"
    "pnincr_callback delta node en = (crdt_entry en (pncounter_image (case pnincr_eff delta node (entry_value CRDT_PN_COUNTER en) of (Some (VPNCounter p), _) \<Rightarrow> p)),
       NEXS_OK, Some (snd (pnincr_eff delta node (entry_value CRDT_PN_COUNTER en))))"
proof -
  let ?a = "entry_value CRDT_PN_COUNTER en"
  show "pncounter_ok (pncounter_of node ?a)"
  proof (cases "ne_value en")
    case None
    then show ?thesis by (simp add: entry_value_def pncounter_of_def pncounter_create_def pncounter_ok_def)
  next
    case (Some v)
    then show ?thesis using en pncounter_image_load(2) by (auto simp: typed_entry_def typed_image_def entry_value_def pncounter_of_def crdt_decode_def)
  qed
  show "pnincr_callback delta node en = (crdt_entry en (pncounter_image (case pnincr_eff delta node ?a of (Some (VPNCounter p), _) \<Rightarrow> p)),
       NEXS_OK, Some (snd (pnincr_eff delta node ?a)))"
  proof (cases "ne_value en")
    case None
    then show ?thesis using d
      by (simp add: pnincr_callback_def pnincr_eff_def stored_struct_none entry_value_def pncounter_of_def pncounter_create_def full_in_bounds Let_def)
  next
    case (Some v)
    then obtain p where p: "pncounter_ok p" "v = pncounter_image p" "ne_type en = NEXDT_CRDT" using en by (auto simp: typed_entry_def typed_image_def)
    have "counter_in_bounds (p_self_node p) (p_num_nodes p)" using p(1) full_in_bounds by (simp add: pncounter_ok_def)
    then show ?thesis using d Some pncounter_image_load [OF p(1)] stored_struct_some [OF Some p(3), of sizeof_PNCounter]
      by (simp add: pnincr_callback_def pnincr_eff_def entry_value_def pncounter_of_def crdt_decode_def p(2) Let_def)
  qed
qed

interpretation pi: crdt_callback CRDT_PN_COUNTER "delta \<noteq> - (2 ^ 63)" "pnincr_callback delta node" "pnincr_eff delta node" for delta node
proof unfold_locales
  fix en
  assume d: "delta \<noteq> - (2 ^ 63)" and en: "typed_entry CRDT_PN_COUNTER en"
  let ?a = "entry_value CRDT_PN_COUNTER en"
  note r = pnincr_respects [OF en d, of node]
  let ?p = "if delta \<ge> 0 then pncounter_increment (pncounter_of node ?a) (of_int delta) else pncounter_decrement (pncounter_of node ?a) (of_int (- delta))"
  have e: "pnincr_eff delta node ?a = (Some (VPNCounter ?p), pncounter_value ?p)" by (simp add: pnincr_eff_def Let_def)
  have "pncounter_ok ?p" using pncounter_update_ok [OF r(1)] by simp
  then have "typed_image CRDT_PN_COUNTER (pncounter_image ?p)" "crdt_decode CRDT_PN_COUNTER (pncounter_image ?p) = VPNCounter ?p"
    using pncounter_image_load(2) by (auto simp: typed_image_def crdt_decode_def)
  then show "\<exists>en' res. pnincr_callback delta node en = (en', res, Some (snd (pnincr_eff delta node ?a))) \<and> ne_type en' \<noteq> NEXDT_UNKNOWN \<and>
      (res = NEXS_OK \<longleftrightarrow> fst (pnincr_eff delta node ?a) \<noteq> None) \<and>
      (res = NEXS_OK \<longrightarrow> ne_ttl_ms en' = - 1 \<and> ne_type en' = NEXDT_CRDT \<and>
         (\<exists>bs. ne_value en' = Some bs \<and> typed_image CRDT_PN_COUNTER bs \<and> fst (pnincr_eff delta node ?a) = Some (crdt_decode CRDT_PN_COUNTER bs)))"
    using en r(2) unfolding e by (simp add: typed_entry_def)
qed

lemma orset_load_of:
  assumes "typed_entry CRDT_OR_SET en"
  shows "orset_load node en = orset_of node (entry_value CRDT_OR_SET en)" (is ?load)
    and "\<forall>e \<in> set (os_entries (orset_of node (entry_value CRDT_OR_SET en))). length (oe_value e) \<le> 255" (is ?short)
    and "length (os_entries (orset_of node (entry_value CRDT_OR_SET en))) < 2 ^ 31" (is ?few)
proof -
  have "?load \<and> ?short \<and> ?few"
  proof (cases "ne_value en")
    case None
    then show ?thesis by (simp add: orset_load_def stored_struct_none entry_value_def orset_of_def orset_create_def)
  next
    case (Some v)
    then obtain s where s: "\<forall>e \<in> set (os_entries s). length (oe_value e) \<le> 255" "length (os_entries s) < 2 ^ 32" "v = orset_bytes s"
        "ne_type en = NEXDT_CRDT" "length v < 2 ^ 31"
      using assms by (auto simp: typed_entry_def typed_image_def)
    show ?thesis using Some s orset_bytes_load [OF s(1,2)] stored_struct_some [OF Some s(4), of 0]
      by (simp add: orset_load_def entry_value_def orset_of_def crdt_decode_def)
  qed
  then show ?load ?short ?few by blast+
qed

lemma orset_stored:
  assumes "\<forall>e \<in> set (os_entries s). length (oe_value e) \<le> 255" "length (os_entries s) < 2 ^ 32"
  shows "typed_image CRDT_OR_SET (orset_bytes s)" "crdt_decode CRDT_OR_SET (orset_bytes s) = orset_saved s"
  using assms orset_bytes_load [OF assms] by (auto simp: typed_image_def crdt_decode_def orset_saved_def)

interpretation oa: crdt_callback CRDT_OR_SET True "\<lambda>en. apsnd (apsnd Some) (orset_callback set_ok can_grow node val en)"
    "orset_add_eff set_ok can_grow node val" for set_ok can_grow node val
proof unfold_locales
  fix en
  assume en: "typed_entry CRDT_OR_SET en"
  let ?a = "entry_value CRDT_OR_SET en" and ?E = "orset_add_eff set_ok can_grow node val"
  let ?s = "orset_of node ?a"
  obtain rc s where a: "orset_add can_grow ?s (Some (take 255 val)) = (rc, s)" by (cases "orset_add can_grow ?s (Some (take 255 val))")
  note l = orset_load_of [OF en, of node]
  have "\<forall>e \<in> set (os_entries s). length (oe_value e) \<le> 255" "length (os_entries s) < 2 ^ 32"
    using a l(2,3) by (auto simp: orset_add_def orset_reserve_def split: if_splits option.splits)
  then show "\<exists>en' res. apsnd (apsnd Some) (orset_callback set_ok can_grow node val en) = (en', res, Some (snd (?E ?a))) \<and> ne_type en' \<noteq> NEXDT_UNKNOWN \<and>
      (res = NEXS_OK \<longleftrightarrow> fst (?E ?a) \<noteq> None) \<and>
      (res = NEXS_OK \<longrightarrow> ne_ttl_ms en' = - 1 \<and> ne_type en' = NEXDT_CRDT \<and>
         (\<exists>bs. ne_value en' = Some bs \<and> typed_image CRDT_OR_SET bs \<and> fst (?E ?a) = Some (crdt_decode CRDT_OR_SET bs)))"
    using en l(1) a orset_stored [of s] by (simp add: orset_callback_def orset_add_eff_def typed_entry_def orset_bytes_def)
qed

interpretation orm: crdt_callback CRDT_OR_SET True "\<lambda>en. apsnd (apsnd Some) (orset_remove_callback set_ok node val en)"
    "orset_remove_eff set_ok node val" for set_ok node val
proof unfold_locales
  fix en
  assume en: "typed_entry CRDT_OR_SET en"
  let ?a = "entry_value CRDT_OR_SET en" and ?E = "orset_remove_eff set_ok node val"
  let ?s = "orset_of node ?a"
  obtain rc s where a: "orset_remove ?s (Some (cut16 val)) = (rc, s)" by (cases "orset_remove ?s (Some (cut16 val))")
  note l = orset_load_of [OF en, of node]
  have k: "\<forall>e \<in> set (os_entries s). length (oe_value e) \<le> 255" "length (os_entries s) < 2 ^ 32"
    using a l(2,3) by (auto simp: orset_remove_def split: if_splits)
  show "\<exists>en' res. apsnd (apsnd Some) (orset_remove_callback set_ok node val en) = (en', res, Some (snd (?E ?a))) \<and> ne_type en' \<noteq> NEXDT_UNKNOWN \<and>
      (res = NEXS_OK \<longleftrightarrow> fst (?E ?a) \<noteq> None) \<and>
      (res = NEXS_OK \<longrightarrow> ne_ttl_ms en' = - 1 \<and> ne_type en' = NEXDT_CRDT \<and>
         (\<exists>bs. ne_value en' = Some bs \<and> typed_image CRDT_OR_SET bs \<and> fst (?E ?a) = Some (crdt_decode CRDT_OR_SET bs)))"
  proof (cases "ne_value en")
    case None
    then show ?thesis using en by (simp add: orset_remove_callback_def orset_remove_eff_def stored_struct_none entry_value_def typed_entry_def)
  next
    case (Some v)
    then have v: "stored_struct en 0 = Some v" using en stored_struct_some [of en v 0] by (simp add: typed_entry_def)
    then have "orset_deserialize v node = ?s" using l(1) by (simp add: orset_load_def)
    then show ?thesis using Some v en a orset_stored [OF k] by (simp add: orset_remove_callback_def orset_remove_eff_def typed_entry_def orset_bytes_def entry_value_def)
  qed
qed

lemma lww_zero: "lww_of_image (replicate sizeof_LWWRegister 0) = lww_create 0 0"
proof -
  have z: "le_dec (replicate n 0) = (0 :: 'a::len word)" for n by (induction n) simp_all
  have "words_at (replicate 2120 0) 1048 = replicate CRDT_MAX_NODES 0"
    by (rule nth_equalityI) (simp_all add: words_at_def z CRDT_MAX_NODES_def)
  then show ?thesis by (simp add: lww_of_image_def lww_create_def u32_at_def sizeof_LWWRegister_def z CRDT_MAX_NODES_def)
qed

lemma length_words_at: "length (l_clocks (lww_of_image bs)) = CRDT_MAX_NODES"
  by (simp add: lww_of_image_def words_at_def)

interpretation ls: crdt_callback CRDT_LWW_REG True "lww_callback now val" "lww_set_eff now val" for now val
proof unfold_locales
  fix en
  assume en: "typed_entry CRDT_LWW_REG en"
  let ?a = "entry_value CRDT_LWW_REG en"
  define old where "old = (case stored_struct en 0 of Some v \<Rightarrow> v | None \<Rightarrow> replicate sizeof_LWWRegister 0)"
  have old: "length old = sizeof_LWWRegister \<and> l_num_nodes (lww_of_image old) = 0 \<and> lww_of ?a = lww_of_image old"
  proof (cases "ne_value en")
    case None
    then show ?thesis using lww_zero by (simp add: old_def stored_struct_none entry_value_def lww_of_def) (simp add: lww_create_def CRDT_MAX_NODES_def)
  next
    case (Some v)
    then have "stored_struct en 0 = Some v" using en stored_struct_some [of en v 0] by (simp add: typed_entry_def)
    then show ?thesis using Some en by (simp add: old_def entry_value_def lww_of_def crdt_decode_def typed_entry_def typed_image_def)
  qed
  let ?r = "lww_of_image old"
  obtain rc r where s: "lww_set now ?r (Some (cut16 val)) = (rc, r)" by (cases "lww_set now ?r (Some (cut16 val))")
  define bs where "bs = (if rc = 0 then lww_write r old else old)"
  have bs: "length bs = sizeof_LWWRegister \<and> l_num_nodes (lww_of_image bs) = 0 \<and> lww_of_image bs = r"
  proof (cases "rc = 0")
    case True
    then have "length (l_value r) \<le> 1023" "length (l_clocks r) = CRDT_MAX_NODES" "l_node_id r = l_node_id ?r" "l_num_nodes r = l_num_nodes ?r"
      using s old length_words_at [of old] by (auto simp: lww_set_def split: if_splits)
    then show ?thesis using lww_write_load [of old r] old True by (simp add: bs_def)
  next
    case False
    then show ?thesis using old s by (auto simp: bs_def lww_set_def split: if_splits)
  qed
  have "take sizeof_LWWRegister old = old" "\<not> l_node_id ?r < of_int (l_num_nodes ?r)" using old by simp_all
  then have "lww_callback now val en = (crdt_entry en bs, NEXS_OK, Some ())"
    using s old by (simp add: lww_callback_def old_def [symmetric] Let_def bs_def)
  then show "\<exists>en' res. lww_callback now val en = (en', res, Some (snd (lww_set_eff now val ?a))) \<and> ne_type en' \<noteq> NEXDT_UNKNOWN \<and>
      (res = NEXS_OK \<longleftrightarrow> fst (lww_set_eff now val ?a) \<noteq> None) \<and>
      (res = NEXS_OK \<longrightarrow> ne_ttl_ms en' = - 1 \<and> ne_type en' = NEXDT_CRDT \<and>
         (\<exists>bs. ne_value en' = Some bs \<and> typed_image CRDT_LWW_REG bs \<and> fst (lww_set_eff now val ?a) = Some (crdt_decode CRDT_LWW_REG bs)))"
    using en bs old s by (auto simp: lww_set_eff_def typed_entry_def typed_image_def crdt_decode_def)
qed

subsection \<open>A store of kinds\<close>

text \<open>Every value of a key that has a kind is of that kind, and has no lifetime; from a time on.\<close>

definition store_typed :: "(bytes \<rightharpoonup> CRDTType) \<Rightarrow> u64 \<Rightarrow> NdStore \<Rightarrow> bool" where
  "store_typed \<Gamma> t ob \<longleftrightarrow> (\<forall>now \<ge> t. \<forall>k K x. \<Gamma> k = Some K \<longrightarrow> st_value ob now k = Some x \<longrightarrow>
     nv_type x = NEXDT_CRDT \<and> nv_expire_us x < 0 \<and> typed_image K (nv_data x))"

text \<open>What a key of a kind stands for at a time.\<close>

definition crdt_view :: "CRDTType \<Rightarrow> NdStore \<Rightarrow> u64 \<Rightarrow> bytes \<Rightarrow> crdt_val option" where
  "crdt_view K ob now k = map_option (\<lambda>x. crdt_decode K (nv_data x)) (st_value ob now k)"

definition small_value :: "NdStore \<Rightarrow> u64 \<Rightarrow> bytes \<Rightarrow> bool" where
  "small_value ob now k \<longleftrightarrow> (\<forall>x. st_value ob now k = Some x \<longrightarrow> length (nv_data x) < 2 ^ 31)"

lemma rmw_entry_typed:
  assumes "store_typed \<Gamma> t ob" "t \<le> now" "\<Gamma> k = Some K" "small_value ob now k"
  shows "typed_entry K (nd_rmw_entry now' (st_value ob now k))" "entry_value K (nd_rmw_entry now' (st_value ob now k)) = crdt_view K ob now k"
  using assms by (auto simp: store_typed_def small_value_def typed_entry_def entry_value_def nd_rmw_entry_def crdt_view_def nd_remaining_def split: option.splits)

text \<open>Memory, and a slot for the key.\<close>

definition has_room :: "StorageEnv \<Rightarrow> NdStore \<Rightarrow> bytes \<Rightarrow> bool" where
  "has_room e ob k \<longleftrightarrow> (\<forall>h. dom h \<subseteq> dom (ns_heap ob) \<longrightarrow> ev_malloc e h \<noteq> None) \<and> (nd_space e ob k \<or> st_value ob (ev_clock e 5) k \<noteq> None)"

context crdt_callback
begin

lemma rmw_command_spec:
  assumes s: "store_ok (object_backend ns)" and e: "env_ok e" and ty: "store_typed \<Gamma> (ev_clock e 0) (object_backend ns)" and G: "\<Gamma> key = Some K"
    and small: "small_value (object_backend ns) (ev_clock e 0) key" and adm: "nd_admits (object_backend ns) key NEXDT_CRDT" and r: ready
  shows "\<exists>ns' rep. rmw_command e (Some ns) key cb out0 ok = Some (Some ns', rep) \<and> main_api ns' = main_api ns \<and> main_backend ns' = main_backend ns \<and>
    store_ok (object_backend ns') \<and> store_typed \<Gamma> (ev_clock e 5) (object_backend ns') \<and>
    (case eff (crdt_view K (object_backend ns) (ev_clock e 0) key) of (new, out) \<Rightarrow>
       (rep = ReplyError \<and> (new = None \<or> \<not> has_room e (object_backend ns) key) \<and>
          (\<forall>now \<ge> ev_clock e 5. st_value (object_backend ns') now = st_value (object_backend ns) now)) \<or>
       (new \<noteq> None \<and> rep = ok out \<and> (\<forall>now \<ge> ev_clock e 5. crdt_view K (object_backend ns') now key = new \<and>
          (\<forall>k. k \<noteq> key \<longrightarrow> st_value (object_backend ns') now k = st_value (object_backend ns) now k))))"
proof -
  let ?ob = "object_backend ns" and ?t = "ev_clock e 0"
  let ?en = "nd_rmw_entry (ev_clock e 1) (st_value ?ob ?t key)" and ?a = "crdt_view K ?ob ?t key"
  note en = rmw_entry_typed [OF ty order_refl G small, of "ev_clock e 1"]
  obtain en' res where c: "cb ?en = (en', res, Some (snd (eff ?a)))" "ne_type en' \<noteq> NEXDT_UNKNOWN" "res = NEXS_OK \<longleftrightarrow> fst (eff ?a) \<noteq> None"
      "res = NEXS_OK \<longrightarrow> ne_ttl_ms en' = - 1 \<and> ne_type en' = NEXDT_CRDT \<and> (\<exists>bs. ne_value en' = Some bs \<and> typed_image K bs \<and> fst (eff ?a) = Some (crdt_decode K bs))"
    using cb [OF r en(1)] unfolding en(2) by blast
  have clk: "?t \<le> ev_clock e 5" and m: "malloc_ok e" using e by (simp_all add: env_ok_def)
  have adm': "nd_admits ?ob key (ne_type en')" using adm c(2) by (simp add: nd_admits_def)
  obtain ob' r' where w: "ndapi_rmw e ?ob key cb (Some out0) = Some (ob', r', Some (snd (eff ?a)))" "store_ok ob'" "res \<noteq> NEXS_OK \<longrightarrow> r' = res"
      "res = NEXS_OK \<and> has_room e ?ob key \<longrightarrow> r' = NEXS_OK"
      "\<forall>now \<ge> ev_clock e 5. st_value ob' now =
       (if r' = NEXS_OK then (st_value ?ob now)(key :=
          if 0 \<le> ne_ttl_ms en' \<and> deadline_passed (nd_deadline (ev_clock e 4) (ne_ttl_ms en')) now then None
          else Some (nd_new_value e (case ne_value en' of None \<Rightarrow> [] | Some v \<Rightarrow> v) (ne_type en') (ne_ttl_ms en')))
        else st_value ?ob now)"
    using ndapi_rmw_effect [OF s m adm' clk, of cb res "Some (snd (eff ?a))" "Some out0", OF c(1)] unfolding has_room_def by blast
  have cmd: "rmw_command e (Some ns) key cb out0 ok = Some (Some (ns\<lparr>object_backend := ob'\<rparr>), if r' = NEXS_OK then ok (snd (eff ?a)) else ReplyError)"
    using w(1) by (simp add: rmw_command_def nexstorage_rmw_def)
  obtain new out where ea: "eff ?a = (new, out)" by (cases "eff ?a")
  show ?thesis
  proof (cases "r' = NEXS_OK")
    case False
    then have "\<forall>now \<ge> ev_clock e 5. st_value ob' now = st_value ?ob now" using w(5) by simp
    moreover have "new = None \<or> \<not> has_room e ?ob key" using w(3,4) c(3) False ea by auto
    moreover from calculation(1) have "store_typed \<Gamma> (ev_clock e 5) ob'" using ty clk unfolding store_typed_def by (metis order_trans)
    ultimately show ?thesis using cmd w(2) False ea by simp
  next
    case True
    then obtain bs where b: "ne_ttl_ms en' = - 1" "ne_type en' = NEXDT_CRDT" "ne_value en' = Some bs" "typed_image K bs" "new = Some (crdt_decode K bs)"
      using c(4) w(3) ea by auto
    have v: "st_value ob' now = (st_value ?ob now)(key \<mapsto> nd_new_value e bs NEXDT_CRDT (- 1))" if "ev_clock e 5 \<le> now" for now
      using w(5) that True b(1-3) by simp
    have ty': "store_typed \<Gamma> (ev_clock e 5) ob'" unfolding store_typed_def
    proof (intro allI impI)
      fix now k K' x
      assume n: "ev_clock e 5 \<le> now" and k: "\<Gamma> k = Some K'" "st_value ob' now k = Some x"
      then have t: "?t \<le> now" using clk by order
      show "nv_type x = NEXDT_CRDT \<and> nv_expire_us x < 0 \<and> typed_image K' (nv_data x)"
        using k v [OF n] ty t G b(4) by (auto simp: store_typed_def nd_new_value_def split: if_splits)
    qed
    have "\<forall>now \<ge> ev_clock e 5. crdt_view K ob' now key = new \<and> (\<forall>k. k \<noteq> key \<longrightarrow> st_value ob' now k = st_value ?ob now k)"
      using v b(5) by (simp add: crdt_view_def nd_new_value_def)
    then show ?thesis using cmd w(2) ty' True ea b(5) by simp
  qed
qed

end

text \<open>A reading command sees what the object store holds, unless the main store has a live value for the key.\<close>

context storage_backend
begin

lemma get_command_spec:
  assumes api: "api_get (main_api ns) = get" and m: "inv (main_backend ns)" and ob: "store_ok (object_backend ns)"
    and k: "length key \<le> 255" and none: "val (main_backend ns) e key = None"
  shows "\<exists>ns'. get_command e (Some ns) key missing shown = map_option (\<lambda>r. (Some ns', r))
      (case st_value (object_backend ns) (ev_clock e 0) key of
         None \<Rightarrow> Some missing
       | Some x \<Rightarrow> if length (nv_data x) > 1024 * 1024 then Some ReplyError
                   else if nv_type x = NEXDT_CRDT then shown (nv_data x) else Some ReplyError) \<and>
    main_api ns' = main_api ns \<and> inv (main_backend ns') \<and> store_ok (object_backend ns') \<and>
    (\<forall>now \<ge> ev_clock e 0. st_value (object_backend ns') now = st_value (object_backend ns) now)"
proof -
  have k': "length key \<le> 65535" using k by simp
  obtain s' r en where g: "get e (main_backend ns) key = Some (s', r, en)" "inv s'" "r \<noteq> NEXS_OK"
    using get [OF m k', of e] none by auto
  obtain o' where h: "ndapi_get e (object_backend ns) key = Some (o', case st_value (object_backend ns) (ev_clock e 0) key of
        None \<Rightarrow> (NEXS_NOT_FOUND, None)
      | Some v \<Rightarrow> if length (nv_data v) > 1024 * 1024 then (NEXS_TOO_LARGE, None)
                  else (NEXS_OK, Some \<lparr>ne_value = Some (nv_data v), ne_type = nv_type v,
                          ne_ttl_ms = nd_remaining (ev_clock e 1) (nv_expire_us v), ne_version = nv_version v\<rparr>))"
      "store_ok o'" "\<forall>now \<ge> ev_clock e 0. st_value o' now = st_value (object_backend ns) now"
    using ndapi_get_effect [OF ob, of e key] k by auto
  let ?ns = "ns\<lparr>main_backend := s', object_backend := o'\<rparr>"
  have n: "nexstorage_get e ns key = Some (?ns, case st_value (object_backend ns) (ev_clock e 0) key of
        None \<Rightarrow> (NEXS_NOT_FOUND, None)
      | Some v \<Rightarrow> if length (nv_data v) > 1024 * 1024 then (NEXS_TOO_LARGE, None)
                  else (NEXS_OK, Some \<lparr>ne_value = Some (nv_data v), ne_type = nv_type v,
                          ne_ttl_ms = nd_remaining (ev_clock e 1) (nv_expire_us v), ne_version = nv_version v\<rparr>))"
    using g h(1) by (simp add: nexstorage_get_def api NexDashTableAPI_def split_beta)
  show ?thesis by (rule exI [of _ ?ns]) (use g(2) h(2,3) in \<open>auto simp: get_command_def n split: option.splits\<close>)
qed

end

subsection \<open>The commands\<close>

datatype crdt_cmd = GIncr bytes | GGet | PNIncr bytes | PNGet | ORAdd bytes | ORRemove bytes | ORMembers | LWWSet bytes | LWWGet

fun cmd_kind :: "crdt_cmd \<Rightarrow> CRDTType" where
  "cmd_kind (GIncr arg) = CRDT_G_COUNTER"
| "cmd_kind GGet = CRDT_G_COUNTER"
| "cmd_kind (PNIncr arg) = CRDT_PN_COUNTER"
| "cmd_kind PNGet = CRDT_PN_COUNTER"
| "cmd_kind (ORAdd val) = CRDT_OR_SET"
| "cmd_kind (ORRemove val) = CRDT_OR_SET"
| "cmd_kind ORMembers = CRDT_OR_SET"
| "cmd_kind (LWWSet val) = CRDT_LWW_REG"
| "cmd_kind LWWGet = CRDT_LWW_REG"

text \<open>The node, the clock of \<open>lww_set\<close> and the outcomes of allocations.\<close>

record cmd_env =
  ce_node :: u32
  ce_now :: u64
  ce_set_ok :: bool
  ce_can_grow :: bool

fun crdt_command :: "cmd_env \<Rightarrow> StorageEnv \<Rightarrow> 'b NexStorage option \<Rightarrow> bytes \<Rightarrow> crdt_cmd \<Rightarrow> ('b NexStorage option \<times> reply) option" where
  "crdt_command ce e ns key (GIncr arg) = gincrCommand (ce_node ce) e ns key arg"
| "crdt_command ce e ns key GGet = gcounterGetCommand e ns key"
| "crdt_command ce e ns key (PNIncr arg) = pnincrCommand (ce_node ce) e ns key arg"
| "crdt_command ce e ns key PNGet = pncounterGetCommand e ns key"
| "crdt_command ce e ns key (ORAdd val) = orsetAddCommand (ce_set_ok ce) (ce_can_grow ce) (ce_node ce) e ns key val"
| "crdt_command ce e ns key (ORRemove val) = orsetRemoveCommand (ce_set_ok ce) (ce_node ce) e ns key val"
| "crdt_command ce e ns key ORMembers = orsetMembersCommand (ce_set_ok ce) (ce_node ce) e ns key"
| "crdt_command ce e ns key (LWWSet val) = lwwSetCommand (ce_now ce) e ns key val"
| "crdt_command ce e ns key LWWGet = lwwGetCommand e ns key"

text \<open>What a command does to the value of its key and what it replies, when nothing obstructs it.\<close>

fun cmd_effect :: "cmd_env \<Rightarrow> crdt_cmd \<Rightarrow> crdt_val option \<Rightarrow> crdt_val option \<times> reply" where
  "cmd_effect ce (GIncr arg) a = (case string2llScalar arg of None \<Rightarrow> (a, ReplyError)
     | Some d \<Rightarrow> apsnd (\<lambda>v. ReplyLongLong (sint v)) (gincr_eff d (ce_node ce) a))"
| "cmd_effect ce GGet a = (a, ReplyLongLong (if a = None then 0 else sint (gcounter_value (gcounter_of 0 a))))"
| "cmd_effect ce (PNIncr arg) a = (case string2llScalar arg of None \<Rightarrow> (a, ReplyError)
     | Some d \<Rightarrow> apsnd ReplyLongLong (pnincr_eff (sint d) (ce_node ce) a))"
| "cmd_effect ce PNGet a = (a, ReplyLongLong (if a = None then 0 else pncounter_value (pncounter_of 0 a)))"
| "cmd_effect ce (ORAdd val) a = (fst (orset_add_eff True (ce_can_grow ce) (ce_node ce) val a), ReplyLongLong 1)"
| "cmd_effect ce (ORRemove val) a =
     (if a = None then (None, ReplyError) else apsnd ReplyLongLong (orset_remove_eff True (ce_node ce) val a))"
| "cmd_effect ce ORMembers a = (a, ReplyArray (map oe_value (filter (\<lambda>x. \<not> oe_is_removed x) (os_entries (orset_of 0 a)))))"
| "cmd_effect ce (LWWSet val) a = (fst (lww_set_eff (ce_now ce) val a), ReplyOK)"
| "cmd_effect ce LWWGet a = (a, if a = None then ReplyNull else ReplyBulk (l_value (lww_of a)))"

fun is_update :: "crdt_cmd \<Rightarrow> bool" where
  "is_update (GIncr arg) \<longleftrightarrow> True"
| "is_update (PNIncr arg) \<longleftrightarrow> True"
| "is_update (ORAdd val) \<longleftrightarrow> True"
| "is_update (ORRemove val) \<longleftrightarrow> True"
| "is_update (LWWSet val) \<longleftrightarrow> True"
| "is_update c \<longleftrightarrow> False"

text \<open>What a command needs: a store in order whose keys have kinds, the key used with its kind, and no string under the key.\<close>

definition cmd_ready :: "(bytes \<rightharpoonup> CRDTType) \<Rightarrow> StorageEnv \<Rightarrow> NexSegcache NexStorage \<Rightarrow> bytes \<Rightarrow> crdt_cmd \<Rightarrow> bool" where
  "cmd_ready \<Gamma> e ns key c \<longleftrightarrow> env_ok e \<and> \<Gamma> key = Some (cmd_kind c) \<and> c \<noteq> PNIncr (decimal_int (- (2 ^ 63))) \<and>
     small_value (object_backend ns) (ev_clock e 0) key \<and> nd_admits (object_backend ns) key NEXDT_CRDT \<and> seg_val (main_backend ns) e key = None"

text \<open>
  What can keep a command with arguments in order from its effect: a set that cannot be allocated, no room for a new value, a stored value above
  the size of the buffer that readers are given.
\<close>

definition cmd_obstructed :: "cmd_env \<Rightarrow> StorageEnv \<Rightarrow> NdStore \<Rightarrow> bytes \<Rightarrow> crdt_cmd \<Rightarrow> bool" where
  "cmd_obstructed ce e ob key c \<longleftrightarrow> \<not> ce_set_ok ce \<or>
     (if is_update c then \<not> has_room e ob key else (\<exists>x. st_value ob (ev_clock e 0) key = Some x \<and> length (nv_data x) > 1024 * 1024))"

text \<open>
  The outcome: the store is in order and typed; either nothing has changed and the reply is an error or that of a reader,
  or the value of the key and the reply are those of the command's effect and no other key has changed.
\<close>

definition cmd_outcome ::
    "(bytes \<rightharpoonup> CRDTType) \<Rightarrow> cmd_env \<Rightarrow> StorageEnv \<Rightarrow> NexSegcache NexStorage \<Rightarrow> bytes \<Rightarrow> crdt_cmd \<Rightarrow> NexSegcache NexStorage \<Rightarrow> reply \<Rightarrow> bool" where
  "cmd_outcome \<Gamma> ce e ns key c ns' rep \<longleftrightarrow>
     seg_storage_ok ns' \<and> store_typed \<Gamma> (ev_clock e 5) (object_backend ns') \<and>
     (case cmd_effect ce c (crdt_view (cmd_kind c) (object_backend ns) (ev_clock e 0) key) of (new, r) \<Rightarrow>
        (\<forall>now \<ge> ev_clock e 5. st_value (object_backend ns') now = st_value (object_backend ns) now) \<and> 
          (rep = ReplyError \<and> (r = ReplyError \<or> cmd_obstructed ce e (object_backend ns) key c) \<or> \<not> is_update c \<and> rep = r) \<or>
        is_update c \<and> rep = r \<and>
        (\<forall>now \<ge> ev_clock e 5. crdt_view (cmd_kind c) (object_backend ns') now key = new \<and>
           (\<forall>k. k \<noteq> key \<longrightarrow> st_value (object_backend ns') now k = st_value (object_backend ns) now k)))"

lemma store_typed_later: "store_typed \<Gamma> t ob \<Longrightarrow> t \<le> t' \<Longrightarrow> (\<forall>now \<ge> t'. st_value ob' now = st_value ob now) \<Longrightarrow> store_typed \<Gamma> t' ob'"
  unfolding store_typed_def by (metis order_trans)

lemma update_outcome:
  assumes ok: "seg_storage_ok ns" and u: "is_update c"
    and r: "\<exists>ns' rep. crdt_command ce e (Some ns) key c = Some (Some ns', rep) \<and> main_api ns' = main_api ns \<and> main_backend ns' = main_backend ns \<and>
      store_ok (object_backend ns') \<and> store_typed \<Gamma> (ev_clock e 5) (object_backend ns') \<and>
      (case ef of (new, out) \<Rightarrow>
         (rep = ReplyError \<and> (new = None \<or> \<not> has_room e (object_backend ns) key) \<and>
            (\<forall>now \<ge> ev_clock e 5. st_value (object_backend ns') now = st_value (object_backend ns) now)) \<or>
         (new \<noteq> None \<and> rep = okr out \<and> (\<forall>now \<ge> ev_clock e 5. crdt_view (cmd_kind c) (object_backend ns') now key = new \<and>
            (\<forall>k. k \<noteq> key \<longrightarrow> st_value (object_backend ns') now k = st_value (object_backend ns) now k))))"
    and ce: "fst ef \<noteq> None \<Longrightarrow> cmd_effect ce c (crdt_view (cmd_kind c) (object_backend ns) (ev_clock e 0) key) = (fst ef, okr (snd ef))"
    and cn: "fst ef = None \<Longrightarrow> snd (cmd_effect ce c (crdt_view (cmd_kind c) (object_backend ns) (ev_clock e 0) key)) = ReplyError \<or> \<not> ce_set_ok ce"
  shows "\<exists>ns' rep. crdt_command ce e (Some ns) key c = Some (Some ns', rep) \<and> cmd_outcome \<Gamma> ce e ns key c ns' rep"
proof -
  obtain ns' rep where n: "crdt_command ce e (Some ns) key c = Some (Some ns', rep)" "main_api ns' = main_api ns" "main_backend ns' = main_backend ns"
      "store_ok (object_backend ns')" "store_typed \<Gamma> (ev_clock e 5) (object_backend ns')"
      "(rep = ReplyError \<and> (fst ef = None \<or> \<not> has_room e (object_backend ns) key) \<and>
            (\<forall>now \<ge> ev_clock e 5. st_value (object_backend ns') now = st_value (object_backend ns) now)) \<or>
         (fst ef \<noteq> None \<and> rep = okr (snd ef) \<and> (\<forall>now \<ge> ev_clock e 5. crdt_view (cmd_kind c) (object_backend ns') now key = fst ef \<and>
            (\<forall>k. k \<noteq> key \<longrightarrow> st_value (object_backend ns') now k = st_value (object_backend ns) now k)))"
    using r by (auto simp: split_beta)
  have "seg_storage_ok ns'" using ok n(2-4) by (simp add: seg_storage_ok_def)
  then show ?thesis using n ce cn u by (auto simp: cmd_outcome_def cmd_obstructed_def split_beta)
qed

lemma read_outcome:
  assumes ok: "seg_storage_ok ns" and u: "\<not> is_update c" and ty: "store_typed \<Gamma> (ev_clock e 0) (object_backend ns)" and rd: "cmd_ready \<Gamma> e ns key c"
    and c: "crdt_command ce e (Some ns) key c = get_command e (Some ns) key missing shown"
    and m: "snd (cmd_effect ce c None) = missing"
    and v: "\<And>bs. typed_image (cmd_kind c) bs \<Longrightarrow> \<not> ce_set_ok ce \<and> shown bs = Some ReplyError \<or> shown bs = Some (snd (cmd_effect ce c (Some (crdt_decode (cmd_kind c) bs))))"
  shows "\<exists>ns' rep. crdt_command ce e (Some ns) key c = Some (Some ns', rep) \<and> cmd_outcome \<Gamma> ce e ns key c ns' rep"
proof -
  note d = seg_storageD [OF ok]
  have k: "length key \<le> 255" and none: "seg_val (main_backend ns) e key = None" and G: "\<Gamma> key = Some (cmd_kind c)" and clk: "ev_clock e 0 \<le> ev_clock e 5"
    using rd by (simp_all add: cmd_ready_def nd_admits_def env_ok_def)
  obtain ns' where g: "get_command e (Some ns) key missing shown = map_option (\<lambda>r. (Some ns', r))
      (case st_value (object_backend ns) (ev_clock e 0) key of
         None \<Rightarrow> Some missing
       | Some x \<Rightarrow> if length (nv_data x) > 1024 * 1024 then Some ReplyError
                   else if nv_type x = NEXDT_CRDT then shown (nv_data x) else Some ReplyError)"
      "main_api ns' = main_api ns" "seg_inv (main_backend ns')" "store_ok (object_backend ns')"
      "\<forall>now \<ge> ev_clock e 0. st_value (object_backend ns') now = st_value (object_backend ns) now"
    using sb.get_command_spec [OF d(1,4,5) k none, of missing shown] by blast
  have s5: "\<forall>now \<ge> ev_clock e 5. st_value (object_backend ns') now = st_value (object_backend ns) now"
    using g(5) clk by (meson order_trans)
  have ok': "seg_storage_ok ns'" "store_typed \<Gamma> (ev_clock e 5) (object_backend ns')"
    using ok g(2-4) store_typed_later [OF ty clk s5] by (simp_all add: seg_storage_ok_def)
  let ?x = "st_value (object_backend ns) (ev_clock e 0) key"
  have "\<exists>rep. (case ?x of None \<Rightarrow> Some missing
       | Some x \<Rightarrow> if length (nv_data x) > 1024 * 1024 then Some ReplyError
                   else if nv_type x = NEXDT_CRDT then shown (nv_data x) else Some ReplyError) = Some rep \<and>
      (rep = ReplyError \<and> cmd_obstructed ce e (object_backend ns) key c \<or> rep = snd (cmd_effect ce c (crdt_view (cmd_kind c) (object_backend ns) (ev_clock e 0) key)))"
  proof (cases ?x)
    case None
    then show ?thesis using m by (simp add: crdt_view_def)
  next
    case (Some x)
    then have "typed_image (cmd_kind c) (nv_data x)" "nv_type x = NEXDT_CRDT" using ty G by (auto simp: store_typed_def)
    then show ?thesis using Some u v [of "nv_data x"] by (auto simp: crdt_view_def cmd_obstructed_def)
  qed
  then show ?thesis using c g(1) ok' s5 u by (auto simp: cmd_outcome_def split_beta)
qed

lemma counter_eff_some [simp]: "fst (gincr_eff delta node a) \<noteq> None" "fst (pnincr_eff d node a) \<noteq> None" "fst (lww_set_eff now val a) \<noteq> None"
  by (simp_all add: gincr_eff_def pnincr_eff_def lww_set_eff_def Let_def)

lemma update_command_outcome:
  assumes ok: "seg_storage_ok ns" and ty: "store_typed \<Gamma> (ev_clock e 0) (object_backend ns)" and rd: "cmd_ready \<Gamma> e ns key c" and u: "is_update c"
  shows "\<exists>ns' rep. crdt_command ce e (Some ns) key c = Some (Some ns', rep) \<and> cmd_outcome \<Gamma> ce e ns key c ns' rep"
proof -
  note d = seg_storageD(5) [OF ok]
  have e: "env_ok e" and sm: "small_value (object_backend ns) (ev_clock e 0) key" and adm: "nd_admits (object_backend ns) key NEXDT_CRDT"
    and G: "\<Gamma> key = Some (cmd_kind c)" and clk: "ev_clock e 0 \<le> ev_clock e 5" using rd by (simp_all add: cmd_ready_def env_ok_def)
  have parse: "\<exists>ns' rep. crdt_command ce e (Some ns) key c = Some (Some ns', rep) \<and> cmd_outcome \<Gamma> ce e ns key c ns' rep"
    if "crdt_command ce e (Some ns) key c = Some (Some ns, ReplyError)"
      "snd (cmd_effect ce c (crdt_view (cmd_kind c) (object_backend ns) (ev_clock e 0) key)) = ReplyError"
    using that ok store_typed_later [OF ty clk, of "object_backend ns"] by (auto simp: cmd_outcome_def split_beta)
  show ?thesis
  proof (cases c)
    case (GIncr arg)
    show ?thesis
    proof (cases "string2llScalar arg")
      case None
      then show ?thesis using GIncr parse by (simp add: gincrCommand_def getLongLongFromObjectOrReply_def)
    next
      case (Some delta)
      show ?thesis using gi.rmw_command_spec [OF d e ty _ sm adm, of delta "ce_node ce" 0 "\<lambda>v. ReplyLongLong (sint v)"] G Some
        by (intro update_outcome [OF ok u, where okr = "\<lambda>v. ReplyLongLong (sint v)" and ef = "gincr_eff delta (ce_node ce) (crdt_view CRDT_G_COUNTER (object_backend ns) (ev_clock e 0) key)"])
          (simp_all add: GIncr gincrCommand_def getLongLongFromObjectOrReply_def apsnd_def map_prod_def split_beta)
    qed
  next
    case (PNIncr arg)
    show ?thesis
    proof (cases "string2llScalar arg")
      case None
      then show ?thesis using PNIncr parse by (simp add: pnincrCommand_def getLongLongFromObjectOrReply_def)
    next
      case (Some delta)
      then have "arg = decimal_int (sint delta)" by (simp add: scalar_spec parse_spec_decimal)
      then have nm: "sint delta \<noteq> - (2 ^ 63)" using rd PNIncr by (auto simp: cmd_ready_def)
      show ?thesis using pi.rmw_command_spec [OF d e ty _ sm adm nm, of "ce_node ce" 0 ReplyLongLong] G Some
        by (intro update_outcome [OF ok u, where okr = ReplyLongLong and ef = "pnincr_eff (sint delta) (ce_node ce) (crdt_view CRDT_PN_COUNTER (object_backend ns) (ev_clock e 0) key)"])
          (simp_all add: PNIncr pnincrCommand_def getLongLongFromObjectOrReply_def apsnd_def map_prod_def split_beta)
    qed
  next
    case (ORAdd val)
    show ?thesis using oa.rmw_command_spec [OF d e ty _ sm adm, of "ce_set_ok ce" "ce_can_grow ce" "ce_node ce" val 0 "\<lambda>_. ReplyLongLong 1"] G
      by (intro update_outcome [OF ok u, where okr = "\<lambda>_. ReplyLongLong 1" and ef = "orset_add_eff (ce_set_ok ce) (ce_can_grow ce) (ce_node ce) val (crdt_view CRDT_OR_SET (object_backend ns) (ev_clock e 0) key)"])
        (simp_all add: ORAdd orsetAddCommand_def orset_add_eff_def split_beta split: if_splits)
  next
    case (ORRemove val)
    show ?thesis using orm.rmw_command_spec [OF d e ty _ sm adm, of "ce_set_ok ce" "ce_node ce" val 0 ReplyLongLong] G
      by (intro update_outcome [OF ok u, where okr = ReplyLongLong and ef = "orset_remove_eff (ce_set_ok ce) (ce_node ce) val (crdt_view CRDT_OR_SET (object_backend ns) (ev_clock e 0) key)"])
        (simp_all add: ORRemove orsetRemoveCommand_def orset_remove_eff_def split_beta split: if_splits, auto)
  next
    case (LWWSet val)
    show ?thesis using ls.rmw_command_spec [OF d e ty _ sm adm, of "ce_now ce" val "()" "\<lambda>_. ReplyOK"] G
      by (intro update_outcome [OF ok u, where okr = "\<lambda>_. ReplyOK" and ef = "lww_set_eff (ce_now ce) val (crdt_view CRDT_LWW_REG (object_backend ns) (ev_clock e 0) key)"])
        (simp_all add: LWWSet lwwSetCommand_def)
  qed (use u in simp_all)
qed

lemma command_outcome:
  assumes ok: "seg_storage_ok ns" and ty: "store_typed \<Gamma> (ev_clock e 0) (object_backend ns)" and rd: "cmd_ready \<Gamma> e ns key c"
  shows "\<exists>ns' rep. crdt_command ce e (Some ns) key c = Some (Some ns', rep) \<and> cmd_outcome \<Gamma> ce e ns key c ns' rep"
proof (cases "is_update c")
  case True
  then show ?thesis by (rule update_command_outcome [OF ok ty rd])
next
  case u: False
  note rule = read_outcome [OF ok u ty rd]
  show ?thesis
  proof (cases c)
    case GGet
    show ?thesis by (rule rule, unfold GGet crdt_command.simps gcounterGetCommand_def, rule refl)
      (use gcounter_image_load in \<open>auto simp: typed_image_def gcounter_ok_def crdt_decode_def gcounter_of_def Let_def\<close>)
  next
    case PNGet
    show ?thesis by (rule rule, unfold PNGet crdt_command.simps pncounterGetCommand_def, rule refl)
      (use pncounter_image_load in \<open>auto simp: typed_image_def pncounter_ok_def crdt_decode_def pncounter_of_def Let_def\<close>)
  next
    case ORMembers
    have short: "list_all (\<lambda>x. length (oe_value x) \<le> 256) (filter (\<lambda>x. \<not> oe_is_removed x) es)" if "\<forall>x \<in> set es. length (oe_value x) \<le> 255" for es
      using that by (auto simp: list_all_iff dest!: bspec)
    show ?thesis by (rule rule, unfold ORMembers crdt_command.simps orsetMembersCommand_def, rule refl)
      (auto simp: typed_image_def crdt_decode_def orset_of_def orset_create_def Let_def orset_bytes_load(2) short)
  next
    case LWWGet
    have "length (l_value (lww_of_image bs)) \<le> 1024" for bs by (simp add: lww_of_image_def)
    then have get: "lww_get (lww_of_image bs) 1024 = l_value (lww_of_image bs)" for bs by (simp add: lww_get_def not_less)
    show ?thesis by (rule rule, unfold LWWGet crdt_command.simps lwwGetCommand_def, rule refl)
      (auto simp: typed_image_def crdt_decode_def lww_of_def get)
  qed (use u in simp_all)
qed

text \<open>
  The runs: a fresh storage, in which no key has a value, and commands on keys of their kinds, with the
  clock not running backwards.
\<close>

inductive crdt_run :: "(bytes \<rightharpoonup> CRDTType) \<Rightarrow> u64 \<Rightarrow> NexSegcache NexStorage \<Rightarrow> bool" for \<Gamma> where
  run_start: "seg_storage_ok ns \<Longrightarrow> (\<And>now k. st_value (object_backend ns) now k = None) \<Longrightarrow> crdt_run \<Gamma> t ns"
| run_step: "crdt_run \<Gamma> t ns \<Longrightarrow> t \<le> ev_clock e 0 \<Longrightarrow> cmd_ready \<Gamma> e ns key c \<Longrightarrow> crdt_command ce e (Some ns) key c = Some (Some ns', rep) \<Longrightarrow>
    crdt_run \<Gamma> (ev_clock e 5) ns'"

lemma crdt_run_typed: "crdt_run \<Gamma> t ns \<Longrightarrow> seg_storage_ok ns \<and> store_typed \<Gamma> t (object_backend ns)"
proof (induction rule: crdt_run.induct)
  case (run_start ns t)
  then show ?case by (simp add: store_typed_def)
next
  case (run_step t ns e key c ce ns' rep)
  have "store_typed \<Gamma> (ev_clock e 0) (object_backend ns)" using run_step.IH run_step.hyps(2) by (auto intro: store_typed_later)
  then show ?case using command_outcome [of ns \<Gamma> e key c ce] run_step by (auto simp: cmd_outcome_def)
qed

text \<open>A fresh storage, and a counter in it.\<close>

definition sample_kinds :: "bytes \<rightharpoonup> CRDTType" where
  "sample_kinds = [[107] \<mapsto> CRDT_G_COUNTER]"

definition sample_cmd_env :: cmd_env where
  "sample_cmd_env = \<lparr>ce_node = 3, ce_now = 5, ce_set_ok = True, ce_can_grow = True\<rparr>"

lemma sample_storage:
  obtains ns where "crdt_run sample_kinds 5 ns" "cmd_ready sample_kinds (sample_env 5) ns [107] (GIncr [53])" "has_room (sample_env 5) (object_backend ns) [107]"
    "crdt_view CRDT_G_COUNTER (object_backend ns) 5 [107] = None"
proof -
  obtain sc where c: "segcache_create True 0 SEG_DEFAULT_SIZE = Some sc" by (simp add: segcache_create_def Let_def)
  note i = segcache_create_inv [OF c, simplified]
  have m: "seg_inv sc" using i(1) i(2) [of 131078] by (simp add: seg_inv_def SEG_DEFAULT_SIZE_def)
  have v: "seg_val sc (sample_env 5) [107] = None" using i(6) by (simp add: seg_val_def sc_answer_def SEG_DEFAULT_SIZE_def)
  let ?ns = "\<lparr>main_api = NexSegcacheAPI, main_backend = sc, object_backend = sample_store\<rparr>"
  have "seg_storage_ok ?ns" using m sample_store_ok(1) by (simp add: seg_storage_ok_def)
  then have "crdt_run sample_kinds 5 ?ns" by (intro run_start) (simp_all add: sample_store_empty)
  moreover have "nd_admits sample_store [107] NEXDT_CRDT" by (rule sample_store_admits) simp_all
  then have "cmd_ready sample_kinds (sample_env 5) ?ns [107] (GIncr [53])"
    using v sample_envs(1) by (simp add: cmd_ready_def sample_kinds_def small_value_def sample_store_empty)
  moreover have "ev_malloc (sample_env 5) h \<noteq> None" if "dom h \<subseteq> dom (ns_heap sample_store)" for h
    using that by (auto simp: sample_env_def sample_store_def)
  then have "has_room (sample_env 5) sample_store [107]" using sample_store_space [of "[107]" 5] by (simp add: has_room_def)
  ultimately show thesis using that [of ?ns] by (simp add: crdt_view_def sample_store_empty)
qed

lemma sample_effect: "cmd_effect sample_cmd_env (GIncr [53]) None = (Some (VGCounter (gcounter_increment (gcounter_create 3 128) 5)), ReplyLongLong 5)"
  by code_simp





text \<open>
  C40. Kinds are not checked: LWW.SET on a key that holds a counter copies the 2120 bytes of a register out of a block of
  1032 or 2056 bytes, beyond its end.
\<close>

theorem lww_set_overreads_counter:
  assumes "crdt_run \<Gamma> t ns" and "t \<le> ev_clock e 0" and "length key \<le> 255"
    and "\<Gamma> key = Some CRDT_G_COUNTER \<or> \<Gamma> key = Some CRDT_PN_COUNTER" and "st_value (object_backend ns) (ev_clock e 0) key \<noteq> None"
  shows "lwwSetCommand now e (Some ns) key val = None"
proof -
  let ?ob = "object_backend ns"
  have s: "store_ok ?ob" "store_typed \<Gamma> t ?ob" using crdt_run_typed [OF assms(1)] by (auto simp: seg_storage_ok_def)
  obtain x where x: "st_value ?ob (ev_clock e 0) key = Some x" using assms(5) by auto
  have ty: "nv_type x = NEXDT_CRDT \<and> (typed_image CRDT_G_COUNTER (nv_data x) \<or> typed_image CRDT_PN_COUNTER (nv_data x))"
    using s(2) x assms(2,4) unfolding store_typed_def by blast
  then have v: "nv_type x = NEXDT_CRDT" "length (nv_data x) < sizeof_LWWRegister"
    using gcounter_image_load(1) pncounter_image_load(1)
    by (auto simp: typed_image_def sizeof_GCounter_def sizeof_PNCounter_def sizeof_LWWRegister_def)
  obtain en' where c: "lww_callback now val (nd_rmw_entry (ev_clock e 1) (Some x)) = (en', NEXS_OK, None)"
    using v by (simp add: lww_callback_def stored_struct_def nd_rmw_entry_def Let_def split_beta)
  obtain tb s1 where g: "nexdash_get_nolock (ev_clock e 0) (ns_table ?ob) (Some key) = (tb, nd_value (ns_table ?ob) (ev_clock e 0) key)"
      "nd_commit ?ob tb = Some s1"
      "case nd_value (ns_table ?ob) (ev_clock e 0) key of None \<Rightarrow> st_value ?ob (ev_clock e 0) key = None
       | Some (a, ty) \<Rightarrow> a \<noteq> 0 \<and> (\<exists>x. ns_heap s1 a = Some x \<and> st_value ?ob (ev_clock e 0) key = Some x)"
    using table_get [OF s(1), of "ev_clock e 0" key] by blast
  have "ndapi_rmw e ?ob key (lww_callback now val) (Some ()) = nd_rmw_update e s1 key (lww_callback now val) (Some x)"
    using g x assms(3) by (auto simp: ndapi_rmw_def ND_MAX_KEY_LEN_def split: option.splits)
  then show ?thesis
    by (auto simp: lwwSetCommand_def rmw_command_def nexstorage_rmw_def nd_rmw_update_def c [unfolded One_nat_def] split: option.splits)
qed

theorem lww_set_overreads_counter_witness:
  "\<exists>ns. crdt_run sample_kinds 5 ns \<and> st_value (object_backend ns) 6 [107] \<noteq> None \<and> lwwSetCommand 6 (sample_env 6) (Some ns) [107] [1] = None"
proof -
  obtain ns where n: "crdt_run sample_kinds 5 ns" "cmd_ready sample_kinds (sample_env 5) ns [107] (GIncr [53])"
      "has_room (sample_env 5) (object_backend ns) [107]" "crdt_view CRDT_G_COUNTER (object_backend ns) 5 [107] = None" using sample_storage by blast
  have clk: "ev_clock (sample_env t) i = t" for t i by (simp add: sample_env_def)
  have ty: "seg_storage_ok ns" "store_typed sample_kinds (ev_clock (sample_env 5) 0) (object_backend ns)" using crdt_run_typed [OF n(1)] by (simp_all add: clk)
  obtain ns' rep where c: "crdt_command sample_cmd_env (sample_env 5) (Some ns) [107] (GIncr [53]) = Some (Some ns', rep)"
      "cmd_outcome sample_kinds sample_cmd_env (sample_env 5) ns [107] (GIncr [53]) ns' rep" using command_outcome [OF ty n(2)] by blast
  have ob: "\<not> cmd_obstructed sample_cmd_env (sample_env 5) (object_backend ns) [107] (GIncr [53])"
    using n(3) by (simp add: cmd_obstructed_def sample_cmd_env_def)
  have "crdt_view CRDT_G_COUNTER (object_backend ns') 6 [107] \<noteq> None"
    using c(2) n(4) ob by (auto simp: cmd_outcome_def clk sample_effect simp del: cmd_effect.simps)
  then have v: "st_value (object_backend ns') 6 [107] \<noteq> None" by (auto simp: crdt_view_def)
  have r: "crdt_run sample_kinds 5 ns'" using run_step [OF n(1) _ n(2) c(1)] by (simp add: clk)
  show ?thesis using lww_set_overreads_counter [OF r, of "sample_env 6" "[107]" 6 "[1]"] r v by (auto simp: clk sample_kinds_def)
qed

end
