(* ===== verification/Nex_Engine.thy ===== *)
theory Nex_Engine
  imports Nex_Mpsc Nex_Storage Nex_Util_Props
begin

text \<open>
  The worker engine of \<open>core/engine.c\<close>: commands are routed by a hash of their key to one of up to 16
  workers, each of which takes commands from its own queue, runs them against the shared storage and
  formats the reply into the buffer that the command carries.

  A command is known by the number of its queue node.  The queues are those of \<open>vera_lockfree.h\<close>; one
  iteration of a worker, from taking a command to its completion, is one step, the storage being
  protected by its own locks.  Spinning and sleeping on an empty queue, latencies, CPU affinity, the thread
  calls, the arenas, the listening address, the lock manager handle and the ring of the scheduler are left out.  A reply written beyond its buffer has no result.
\<close>

subsection \<open>State\<close>

datatype NexCmdType =
  NEX_CMD_GET | NEX_CMD_SET | NEX_CMD_DEL | NEX_CMD_MGET | NEX_CMD_MSET | NEX_CMD_INCR | NEX_CMD_DECR | NEX_CMD_EXPIRE | NEX_CMD_TTL
  | NEX_CMD_TYPE | NEX_CMD_EXISTS | NEX_CMD_VADD | NEX_CMD_VSIM | NEX_CMD_SCADD | NEX_CMD_SCGET | NEX_CMD_SHUTDOWN

text \<open>The arguments with their lengths are a list; the capacity of the reply buffer is its length.\<close>

record NexCmd =
  cmd_type :: NexCmdType
  cmd_argv :: "bytes list"
  cmd_reply_buf :: "bytes option"
  cmd_reply_len :: nat

record NexWorker =
  w_id :: nat
  w_slot_start :: nat
  w_slot_end :: nat
  w_cmd_queue :: mpsc_queue
  w_cmds_processed :: u64
  w_cache_hits :: u64
  w_cache_misses :: u64
  w_running :: bool

record NexEngine =
  eng_workers :: "NexWorker list"
  eng_running :: bool
  eng_total_commands :: u64

definition NEX_MAX_WORKERS :: int where
  "NEX_MAX_WORKERS = 16"

definition NEX_HASH_SLOTS :: nat where
  "NEX_HASH_SLOTS = 16384"

definition engine_auto_workers :: int where
  "engine_auto_workers = 8"

subsection \<open>Life cycle\<close>

text \<open>The outcomes of the allocations: the engine, the global arena, the arena of each worker.\<close>

definition new_worker :: "nat \<Rightarrow> nat \<Rightarrow> nat \<Rightarrow> NexWorker" where
  "new_worker num_workers slots_per_worker i =
     \<lparr>w_id = i, w_slot_start = i * slots_per_worker,
      w_slot_end = (if i = num_workers - 1 then NEX_HASH_SLOTS else (i + 1) * slots_per_worker),
      w_cmd_queue = mpsc_init \<lparr>mq_next = (\<lambda>n. None), mq_head = Stub, mq_tail = Stub\<rparr>,
      w_cmds_processed = 0, w_cache_hits = 0, w_cache_misses = 0, w_running = False\<rparr>"

definition engine_create :: "bool \<Rightarrow> bool \<Rightarrow> (nat \<Rightarrow> bool) \<Rightarrow> int \<Rightarrow> NexEngine option" where
  "engine_create alloc_ok arena_ok worker_arena_ok num_workers =
     (if \<not> alloc_ok then None
      else let n1 = (if num_workers \<le> 0 then engine_auto_workers else num_workers);
               n = nat (if n1 > NEX_MAX_WORKERS then NEX_MAX_WORKERS else n1)
           in if \<not> arena_ok then None
              else if list_ex (\<lambda>i. \<not> worker_arena_ok i) [0..<n] then None
              else Some \<lparr>eng_workers = map (new_worker n (NEX_HASH_SLOTS div n)) [0..<n], eng_running = False, eng_total_commands = 0\<rparr>)"

definition engine_start :: "(nat \<Rightarrow> bool) \<Rightarrow> NexEngine \<Rightarrow> NexEngine \<times> int" where
  "engine_start thread_ok eng =
     (case find (\<lambda>i. \<not> thread_ok i) [0..<length (eng_workers eng)] of
        None \<Rightarrow> (eng\<lparr>eng_running := True, eng_workers := map (\<lambda>w. w\<lparr>w_running := True\<rparr>) (eng_workers eng)\<rparr>, 0)
      | Some i \<Rightarrow>
          (eng\<lparr>eng_running := True,
             eng_workers := map (\<lambda>j. let w = eng_workers eng ! j in if j < i then w\<lparr>w_running := False\<rparr> else if j = i then w\<lparr>w_running := True\<rparr> else w)
                              [0..<length (eng_workers eng)]\<rparr>, - 1))"

definition engine_stop :: "NexEngine \<Rightarrow> NexEngine" where
  "engine_stop eng = eng\<lparr>eng_running := False, eng_workers := map (\<lambda>w. w\<lparr>w_running := False\<rparr>) (eng_workers eng)\<rparr>"

subsection \<open>Routing\<close>

text \<open>The bytes of the key are added as signed characters.\<close>

definition djb2 :: "bytes \<Rightarrow> u32" where
  "djb2 key = foldl (\<lambda>hash c. (push_bit 5 hash + hash) + scast c) 5381 key"

definition engine_worker_for_key :: "NexEngine \<Rightarrow> bytes option \<Rightarrow> nat" where
  "engine_worker_for_key eng key =
     (case key of None \<Rightarrow> 0
      | Some k \<Rightarrow> if k = [] then 0 else unat (djb2 k mod of_nat (length (eng_workers eng))))"

definition engine_dispatch_cmd :: "NexEngine \<Rightarrow> nat \<Rightarrow> bytes option \<Rightarrow> NexEngine \<times> int" where
  "engine_dispatch_cmd eng cmd key =
     (let i = engine_worker_for_key eng key; w = eng_workers eng ! i
      in (eng\<lparr>eng_workers := (eng_workers eng)[i := w\<lparr>w_cmd_queue := mpsc_enqueue (w_cmd_queue w) (Node cmd)\<rparr>],
              eng_total_commands := eng_total_commands eng + 1\<rparr>, 0))"

subsection \<open>Replies\<close>

text \<open>\<open>strncpy\<close> with one byte less than the buffer has; for a buffer of no bytes that is an unbounded length.\<close>

definition reply_strncpy :: "bytes \<Rightarrow> bytes \<Rightarrow> bytes option" where
  "reply_strncpy buf s =
     (if buf = [] then None
      else Some (take (length buf - 1) (s @ replicate (length buf) 0) @ drop (length buf - 1) buf))"

definition set_reply :: "NexCmd \<Rightarrow> bytes \<Rightarrow> NexCmd option" where
  "set_reply cmd s =
     (case cmd_reply_buf cmd of None \<Rightarrow> Some cmd
      | Some buf \<Rightarrow> map_option (\<lambda>b. cmd\<lparr>cmd_reply_buf := Some b, cmd_reply_len := length s\<rparr>) (reply_strncpy buf s))"

text \<open>\<open>snprintf\<close>: what fits, terminated; the result is the length of the whole text.\<close>

definition reply_snprintf :: "bytes \<Rightarrow> bytes \<Rightarrow> bytes" where
  "reply_snprintf buf s =
     (if buf = [] then buf else let t = take (length buf - 1) s in t @ 0 # drop (length t + 1) buf)"

definition bulk_reply :: "NexCmd \<Rightarrow> bytes \<Rightarrow> NexCmd" where
  "bulk_reply cmd v =
     (case cmd_reply_buf cmd of None \<Rightarrow> cmd
      | Some buf \<Rightarrow>
          let h = str ''$'' @ decimal (unat (of_nat (length v) :: u32)) @ [13, 10]; n = length h; b = reply_snprintf buf h
          in if n + length v + 2 \<le> length buf
             then cmd\<lparr>cmd_reply_buf := Some (buf_write (buf_write b n v) (n + length v) [13, 10]), cmd_reply_len := n + length v + 2\<rparr>
             else cmd\<lparr>cmd_reply_buf := Some b\<rparr>)"

subsection \<open>Workers\<close>

text \<open>Lengths are passed on as 32-bit numbers.\<close>

definition cut32 :: "bytes \<Rightarrow> bytes" where
  "cut32 bs = take (unat (of_nat (length bs) :: u32)) bs"

text \<open>
  Running one command: the storage, the command with its reply, and whether the read found a value.
\<close>

definition exec_cmd :: "StorageEnv \<Rightarrow> 'b NexStorage option \<Rightarrow> NexCmd \<Rightarrow> ('b NexStorage option \<times> NexCmd \<times> bool option) option" where
  "exec_cmd e global_nexstorage cmd =
     (case cmd_type cmd of
        NEX_CMD_GET \<Rightarrow>
          (case global_nexstorage of
             None \<Rightarrow> Some (None, cmd, None)
           | Some ns \<Rightarrow>
               if length (cmd_argv cmd) \<ge> 2
               then case nexstorage_get e ns (cut32 (cmd_argv cmd ! 1)) of
                      None \<Rightarrow> None
                    | Some (ns', res, en) \<Rightarrow>
                        if res = NEXS_OK
                        then (case en of
                                Some x \<Rightarrow> (case ne_value x of Some v \<Rightarrow> Some (Some ns', bulk_reply cmd v, Some True) | None \<Rightarrow> None)
                              | None \<Rightarrow> None)
                        else map_option (\<lambda>c. (Some ns', c, Some False)) (set_reply cmd (str ''$-1'' @ [13, 10]))
               else Some (global_nexstorage, cmd, None))
      | NEX_CMD_SET \<Rightarrow>
          (case global_nexstorage of
             None \<Rightarrow> Some (None, cmd, None)
           | Some ns \<Rightarrow>
               if length (cmd_argv cmd) \<ge> 3
               then case nexstorage_set e ns (cut32 (cmd_argv cmd ! 1)) (cut32 (cmd_argv cmd ! 2)) NEXDT_STRING (- 1) of
                      None \<Rightarrow> None
                    | Some (ns', res) \<Rightarrow>
                        map_option (\<lambda>c. (Some ns', c, None))
                          (set_reply cmd (if res = NEXS_OK then str ''+OK'' @ [13, 10] else str ''-ERR storage error'' @ [13, 10]))
               else Some (global_nexstorage, cmd, None))
      | NEX_CMD_DEL \<Rightarrow>
          (case global_nexstorage of
             None \<Rightarrow> Some (None, cmd, None)
           | Some ns \<Rightarrow>
               if length (cmd_argv cmd) \<ge> 2
               then case nexstorage_del e ns (cut32 (cmd_argv cmd ! 1)) of
                      None \<Rightarrow> None
                    | Some (ns', res) \<Rightarrow>
                        map_option (\<lambda>c. (Some ns', c, None))
                          (set_reply cmd (if res = NEXS_OK then str '':1'' @ [13, 10] else str '':0'' @ [13, 10]))
               else Some (global_nexstorage, cmd, None))
      | _ \<Rightarrow> map_option (\<lambda>c. (global_nexstorage, c, None)) (set_reply cmd (str ''-ERR unknown command'' @ [13, 10])))"

text \<open>
  The engine at work: the commands by their numbers, the storage, and the completed commands in order.
\<close>

record 'b engine_state =
  es_engine :: NexEngine
  es_cmds :: "nat \<Rightarrow> NexCmd"
  es_storage :: "'b NexStorage option"
  es_completed :: "nat list"

text \<open>One iteration of the loop of worker \<open>i\<close>.\<close>

definition worker_step :: "StorageEnv \<Rightarrow> nat \<Rightarrow> 'b engine_state \<Rightarrow> 'b engine_state option" where
  "worker_step e i st =
     (let eng = es_engine st; w = eng_workers eng ! i;
          put = (\<lambda>w'. eng\<lparr>eng_workers := (eng_workers eng)[i := w']\<rparr>)
      in case mpsc_dequeue (w_cmd_queue w) of
           (q, Some (Node c)) \<Rightarrow>
             let w1 = w\<lparr>w_cmd_queue := q\<rparr>; cmd = es_cmds st c
             in if cmd_type cmd = NEX_CMD_SHUTDOWN then Some (st\<lparr>es_engine := put (w1\<lparr>w_running := False\<rparr>)\<rparr>)
                else map_option (\<lambda>(ns, cmd', hit).
                       st\<lparr>es_engine := put (w1\<lparr>w_cmds_processed := w_cmds_processed w1 + 1,
                            w_cache_hits := (if hit = Some True then w_cache_hits w1 + 1 else w_cache_hits w1),
                            w_cache_misses := (if hit = Some False then w_cache_misses w1 + 1 else w_cache_misses w1)\<rparr>),
                          es_cmds := (es_cmds st)(c := cmd'), es_storage := ns, es_completed := es_completed st @ [c]\<rparr>)
                       (exec_cmd e (es_storage st) cmd)
         | (q, _) \<Rightarrow> Some (st\<lparr>es_engine := put (w\<lparr>w_cmd_queue := q\<rparr>)\<rparr>))"

end
