(* ===== verification/Nex_Engine_Props.thy ===== *)
theory Nex_Engine_Props
  imports Nex_Engine Nex_Storage_Dual "HOL-Library.Sublist"
begin

text \<open>
  Runs of the engine, with dispatching threads and workers interleaved in any way: every command of a key goes through
  one queue, so the commands of a key complete in the order of their dispatch.
\<close>

subsection \<open>Workers\<close>

lemma worker_for_key_less: "0 < length (eng_workers eng) \<Longrightarrow> length (eng_workers eng) \<le> 16 \<Longrightarrow> engine_worker_for_key eng key < length (eng_workers eng)"
proof -
  assume n: "0 < length (eng_workers eng)" "length (eng_workers eng) \<le> 16"
  then have u: "unat (of_nat (length (eng_workers eng)) :: u32) = length (eng_workers eng)" by (intro unat_of_nat_eq) simp
  show ?thesis using n by (auto simp: engine_worker_for_key_def unat_mod u split: option.splits)
qed

text \<open>The slots of the workers divide the slots of the cluster among them; routing does not use them.\<close>

lemma engine_create_workers:
  assumes "engine_create a b f num = Some eng"
  shows "0 < length (eng_workers eng)" "length (eng_workers eng) \<le> 16"
    "\<forall>w \<in> set (eng_workers eng). mq_rep (w_cmd_queue w) []"
    "\<forall>s < NEX_HASH_SLOTS. \<exists>!i. i < length (eng_workers eng) \<and> w_slot_start (eng_workers eng ! i) \<le> s \<and> s < w_slot_end (eng_workers eng ! i)"
proof -
  define n where "n = nat (let n1 = if num \<le> 0 then engine_auto_workers else num in if n1 > NEX_MAX_WORKERS then NEX_MAX_WORKERS else n1)"
  let ?q = "NEX_HASH_SLOTS div n"
  have n: "0 < n" "n \<le> 16" by (auto simp: n_def Let_def NEX_MAX_WORKERS_def engine_auto_workers_def)
  have w: "eng_workers eng = map (new_worker n ?q) [0..<n]"
    using assms by (auto simp: engine_create_def n_def Let_def split: if_splits)
  show "0 < length (eng_workers eng)" "length (eng_workers eng) \<le> 16" using n w by simp_all
  have "mq_rep (mpsc_init \<lparr>mq_next = (\<lambda>n. None), mq_head = Stub, mq_tail = Stub\<rparr>) []"
    unfolding mq_rep_def by (intro exI [of _ "[]"]) (simp add: mpsc_init_def linked_def)
  then show "\<forall>w \<in> set (eng_workers eng). mq_rep (w_cmd_queue w) []" using w by (auto simp: new_worker_def)
  show "\<forall>s < NEX_HASH_SLOTS. \<exists>!i. i < length (eng_workers eng) \<and> w_slot_start (eng_workers eng ! i) \<le> s \<and> s < w_slot_end (eng_workers eng ! i)"
  proof (intro allI impI)
    fix s
    assume s: "s < NEX_HASH_SLOTS"
    have q: "0 < ?q" "n * ?q \<le> NEX_HASH_SLOTS" using n by (simp_all add: NEX_HASH_SLOTS_def div_greater_zero_iff)
    have p: "i < n \<and> i * ?q \<le> s \<and> s < (if i = n - 1 then NEX_HASH_SLOTS else (i + 1) * ?q) \<longleftrightarrow> i = min (s div ?q) (n - 1)" for i
    proof
      assume i: "i < n \<and> i * ?q \<le> s \<and> s < (if i = n - 1 then NEX_HASH_SLOTS else (i + 1) * ?q)"
      then have "i \<le> s div ?q" using q(1) by (simp add: less_eq_div_iff_mult_less_eq)
      moreover have "i \<noteq> n - 1 \<Longrightarrow> s div ?q < i + 1" using i by (simp add: less_mult_imp_div_less)
      ultimately show "i = min (s div ?q) (n - 1)" using i by linarith
    next
      assume i: "i = min (s div ?q) (n - 1)"
      then have "i * ?q \<le> s div ?q * ?q" by (intro mult_right_mono) simp_all
      then have "i * ?q \<le> s" by (rule order_trans) simp
      moreover have "s < (i + 1) * ?q" if "i \<noteq> n - 1"
      proof -
        have "i = s div ?q" using i that by linarith
        then show ?thesis using dividend_less_div_times [OF q(1), of s] by (simp add: add.commute)
      qed
      ultimately show "i < n \<and> i * ?q \<le> s \<and> s < (if i = n - 1 then NEX_HASH_SLOTS else (i + 1) * ?q)" using n s i by auto
    qed
    have "i < length (eng_workers eng) \<and> w_slot_start (eng_workers eng ! i) \<le> s \<and> s < w_slot_end (eng_workers eng ! i) \<longleftrightarrow> i = min (s div ?q) (n - 1)" for i
      using p [of i] unfolding w by (auto simp: new_worker_def)
    then show "\<exists>!i. i < length (eng_workers eng) \<and> w_slot_start (eng_workers eng ! i) \<le> s \<and> s < w_slot_end (eng_workers eng ! i)" by simp
  qed
qed

subsection \<open>Runs\<close>

text \<open>
  A run: the engine has been created and started; commands, each with a number of its own, are dispatched under
  their keys, and running workers make steps.  \<open>sent\<close> lists the commands dispatched.

  What the callers of the engine see to: a command with a key is dispatched under it, its arguments are at most 65535 bytes long,
  and a reply buffer, if there is one, is not empty.
\<close>

definition cmd_fits :: "NexCmd \<Rightarrow> bytes option \<Rightarrow> bool" where
  "cmd_fits cmd key \<longleftrightarrow> (length (cmd_argv cmd) \<ge> 2 \<longrightarrow> key = Some (cmd_argv cmd ! 1)) \<and>
     (\<forall>a \<in> set (cmd_argv cmd). length a \<le> 65535) \<and> cmd_reply_buf cmd \<noteq> Some []"

inductive engine_run ::
    "NexSegcache engine_state \<Rightarrow> (nat \<Rightarrow> bytes option) \<Rightarrow> NexSegcache engine_state \<Rightarrow> nat list \<Rightarrow> bool" for st0 key where
  eng_start: "engine_run st0 key st0 []"
| eng_dispatch: "engine_run st0 key st sent \<Longrightarrow> c \<notin> set sent \<Longrightarrow> cmd_fits (es_cmds st0 c) (key c) \<Longrightarrow>
    engine_run st0 key (st\<lparr>es_engine := fst (engine_dispatch_cmd (es_engine st) c (key c))\<rparr>) (sent @ [c])"
| eng_work: "engine_run st0 key st sent \<Longrightarrow> i < length (eng_workers (es_engine st)) \<Longrightarrow>
    w_running (eng_workers (es_engine st) ! i) \<Longrightarrow> worker_step e i st = Some st' \<Longrightarrow> engine_run st0 key st' sent"

text \<open>A fresh state: an engine that was created and started, and a storage that holds nothing.\<close>

definition engine_fresh :: "NexSegcache engine_state \<Rightarrow> bool" where
  "engine_fresh st \<longleftrightarrow> (\<exists>a b f num eng t. engine_create a b f num = Some eng \<and> engine_start t eng = (es_engine st, 0)) \<and>
     es_completed st = [] \<and> (\<exists>ns. es_storage st = Some ns \<and> seg_storage_ok ns \<and>
       (\<forall>k. sc_view (main_backend ns) k = None \<and> nd_view (ns_table (object_backend ns)) k = None))"

subsection \<open>Order\<close>

lemma worker_for_key_cong: "length (eng_workers a) = length (eng_workers b) \<Longrightarrow> engine_worker_for_key a k = engine_worker_for_key b k"
  by (simp add: engine_worker_for_key_def split: option.splits)

lemma exec_keeps: "exec_cmd e ns cmd = Some (ns', cmd', hit) \<Longrightarrow> cmd_type cmd' = cmd_type cmd \<and> cmd_argv cmd' = cmd_argv cmd"
  by (auto simp: exec_cmd_def set_reply_def bulk_reply_def Let_def split: NexCmdType.splits option.splits if_splits)

text \<open>
  What has been taken from a queue and what is still in it is what was sent to its worker, and what completed
  is what was taken, apart from requests to shut down.
\<close>

definition order_inv :: "NexSegcache engine_state \<Rightarrow> (nat \<Rightarrow> bytes option) \<Rightarrow> NexSegcache engine_state \<Rightarrow> nat list \<Rightarrow> bool" where
  "order_inv st0 key st sent \<longleftrightarrow>
     length (eng_workers (es_engine st)) = length (eng_workers (es_engine st0)) \<and> distinct sent \<and> set (es_completed st) \<subseteq> set sent \<and>
     (\<forall>c. cmd_type (es_cmds st c) = cmd_type (es_cmds st0 c) \<and> cmd_argv (es_cmds st c) = cmd_argv (es_cmds st0 c)) \<and>
     (\<forall>i < length (eng_workers (es_engine st0)). \<exists>taken pend. mq_rep (w_cmd_queue (eng_workers (es_engine st) ! i)) (map Node pend) \<and>
        taken @ pend = filter (\<lambda>c. engine_worker_for_key (es_engine st0) (key c) = i) sent \<and>
        filter (\<lambda>c. engine_worker_for_key (es_engine st0) (key c) = i) (es_completed st) =
          filter (\<lambda>c. cmd_type (es_cmds st0 c) \<noteq> NEX_CMD_SHUTDOWN) taken)"

lemma order_start:
  assumes "engine_fresh st0"
  shows "order_inv st0 key st0 []" "0 < length (eng_workers (es_engine st0))" "length (eng_workers (es_engine st0)) \<le> 16"
proof -
  obtain a b f num eng t where c: "engine_create a b f num = Some eng" "engine_start t eng = (es_engine st0, 0)" and d: "es_completed st0 = []"
    using assms by (auto simp: engine_fresh_def)
  have s: "es_engine st0 = fst (engine_start t eng)" "snd (engine_start t eng) = 0" using c(2) by simp_all
  have "eng_workers (es_engine st0) = map (\<lambda>w. w\<lparr>w_running := True\<rparr>) (eng_workers eng)"
    unfolding s(1) using s(2) by (cases "find (\<lambda>i. \<not> t i) [0..<length (eng_workers eng)]") (simp_all add: engine_start_def)
  then have l: "length (eng_workers (es_engine st0)) = length (eng_workers eng)"
    and q: "\<forall>i < length (eng_workers eng). w_cmd_queue (eng_workers (es_engine st0) ! i) = w_cmd_queue (eng_workers eng ! i)"
    by simp_all
  note w = engine_create_workers [OF c(1)]
  show "0 < length (eng_workers (es_engine st0))" "length (eng_workers (es_engine st0)) \<le> 16" using w(1,2) l by simp_all
  show "order_inv st0 key st0 []" using w(3) l q d by (auto simp: order_inv_def)
qed

lemma order_dispatch:
  assumes inv: "order_inv st0 key st sent" and n: "0 < length (eng_workers (es_engine st0))" "length (eng_workers (es_engine st0)) \<le> 16"
    and c: "c \<notin> set sent"
  shows "order_inv st0 key (st\<lparr>es_engine := fst (engine_dispatch_cmd (es_engine st) c (key c))\<rparr>) (sent @ [c])"
proof -
  let ?wk = "\<lambda>c. engine_worker_for_key (es_engine st0) (key c)"
  let ?j = "?wk c" and ?ws = "eng_workers (es_engine st)"
  have l: "length ?ws = length (eng_workers (es_engine st0))" using inv by (simp add: order_inv_def)
  have j: "engine_worker_for_key (es_engine st) (key c) = ?j" "?j < length ?ws"
    using worker_for_key_cong [OF l] worker_for_key_less [OF n] l by simp_all
  have cc: "c \<notin> set (es_completed st)" using inv c by (auto simp: order_inv_def)
  let ?ws' = "?ws[?j := (?ws ! ?j)\<lparr>w_cmd_queue := mpsc_enqueue (w_cmd_queue (?ws ! ?j)) (Node c)\<rparr>]"
  have ws: "eng_workers (fst (engine_dispatch_cmd (es_engine st) c (key c))) = ?ws'"
    using j by (simp add: engine_dispatch_cmd_def Let_def)
  have "\<exists>taken pend. mq_rep (w_cmd_queue (?ws' ! i)) (map Node pend) \<and> taken @ pend = filter (\<lambda>c. ?wk c = i) (sent @ [c]) \<and>
      filter (\<lambda>c. ?wk c = i) (es_completed st) = filter (\<lambda>c. cmd_type (es_cmds st0 c) \<noteq> NEX_CMD_SHUTDOWN) taken" if i: "i < length ?ws" for i
  proof -
    obtain taken pend where t: "mq_rep (w_cmd_queue (?ws ! i)) (map Node pend)" "taken @ pend = filter (\<lambda>c. ?wk c = i) sent"
        "filter (\<lambda>c. ?wk c = i) (es_completed st) = filter (\<lambda>c. cmd_type (es_cmds st0 c) \<noteq> NEX_CMD_SHUTDOWN) taken"
      using inv i l unfolding order_inv_def by metis
    show ?thesis
    proof (cases "i = ?j")
      case True
      have "set pend \<subseteq> set sent" using arg_cong [OF t(2), of set] by auto
      then have "Node c \<notin> set (map Node pend)" using c by auto
      then have "mq_rep (mpsc_enqueue (w_cmd_queue (?ws ! i)) (Node c)) (map Node (pend @ [c]))"
        using mq.rep_enq [OF t(1), of "Node c"] by simp
      then show ?thesis using True j(2) t(2,3) by (intro exI [of _ taken] exI [of _ "pend @ [c]"]) auto
    next
      case False
      then show ?thesis using t by (intro exI [of _ taken] exI [of _ pend]) auto
    qed
  qed
  then show ?thesis using inv c cc l ws by (auto simp: order_inv_def)
qed

text \<open>The three kinds of steps of a worker.\<close>

lemma worker_step_cases:
  assumes st: "worker_step e i st = Some st'" and q: "mq_rep (w_cmd_queue (eng_workers (es_engine st) ! i)) (map Node pend)"
    and i: "i < length (eng_workers (es_engine st))"
  obtains (idle) "pend = []" "es_cmds st' = es_cmds st" "es_storage st' = es_storage st" "es_completed st' = es_completed st"
      "mq_rep (w_cmd_queue (eng_workers (es_engine st') ! i)) []"
    | (shut) c p where "pend = c # p" "cmd_type (es_cmds st c) = NEX_CMD_SHUTDOWN" "es_cmds st' = es_cmds st" "es_storage st' = es_storage st"
      "es_completed st' = es_completed st" "mq_rep (w_cmd_queue (eng_workers (es_engine st') ! i)) (map Node p)"
    | (exec) c p cmd' hit where "pend = c # p" "cmd_type (es_cmds st c) \<noteq> NEX_CMD_SHUTDOWN" "exec_cmd e (es_storage st) (es_cmds st c) = Some (es_storage st', cmd', hit)"
      "es_cmds st' = (es_cmds st)(c := cmd')" "es_completed st' = es_completed st @ [c]"
      "mq_rep (w_cmd_queue (eng_workers (es_engine st') ! i)) (map Node p)"
proof (cases pend)
  case Nil
  then have d: "snd (mpsc_dequeue (w_cmd_queue (eng_workers (es_engine st) ! i))) = None" "mq_rep (fst (mpsc_dequeue (w_cmd_queue (eng_workers (es_engine st) ! i)))) []"
    using mq.rep_deq_empty [of "w_cmd_queue (eng_workers (es_engine st) ! i)"] q by simp_all
  show thesis by (rule idle) (use st d i Nil in \<open>auto simp: worker_step_def Let_def split_beta split: option.splits\<close>)
next
  case (Cons c p)
  let ?q = "w_cmd_queue (eng_workers (es_engine st) ! i)"
  obtain q' where m: "mpsc_dequeue ?q = (q', Some (Node c))" and d: "mq_rep q' (map Node p)"
    using mq.rep_deq [of ?q "Node c" "map Node p"] q Cons by (cases "mpsc_dequeue ?q") simp
  show thesis
  proof (cases "cmd_type (es_cmds st c) = NEX_CMD_SHUTDOWN")
    case True
    show thesis by (rule shut [OF Cons True]) (use st i d True in \<open>auto simp: worker_step_def Let_def m\<close>)
  next
    case False
    then obtain ns cmd' hit where x: "exec_cmd e (es_storage st) (es_cmds st c) = Some (ns, cmd', hit)"
      using st by (auto simp: worker_step_def Let_def m)
    show thesis by (rule exec [OF Cons False, of cmd' hit]) (use st i d False x in \<open>auto simp: worker_step_def Let_def m\<close>)
  qed
qed

lemma worker_step_others:
  assumes "worker_step e i st = Some st'"
  shows "length (eng_workers (es_engine st')) = length (eng_workers (es_engine st))"
    "j \<noteq> i \<Longrightarrow> eng_workers (es_engine st') ! j = eng_workers (es_engine st) ! j"
  using assms by (auto simp: worker_step_def Let_def split: prod.splits option.splits node.splits if_splits)

lemma order_work:
  assumes inv: "order_inv st0 key st sent" and st: "worker_step e i st = Some st'" and i: "i < length (eng_workers (es_engine st))"
  shows "order_inv st0 key st' sent"
proof -
  let ?wk = "\<lambda>c. engine_worker_for_key (es_engine st0) (key c)" and ?live = "\<lambda>c. cmd_type (es_cmds st0 c) \<noteq> NEX_CMD_SHUTDOWN"
  let ?ok = "\<lambda>st j. \<exists>taken pend. mq_rep (w_cmd_queue (eng_workers (es_engine st) ! j)) (map Node pend) \<and>
      taken @ pend = filter (\<lambda>c. ?wk c = j) sent \<and> filter (\<lambda>c. ?wk c = j) (es_completed st) = filter ?live taken"
  have l: "length (eng_workers (es_engine st)) = length (eng_workers (es_engine st0))"
    and ty: "\<And>c. cmd_type (es_cmds st c) = cmd_type (es_cmds st0 c)" and ar: "\<And>c. cmd_argv (es_cmds st c) = cmd_argv (es_cmds st0 c)"
    and all: "\<And>j. j < length (eng_workers (es_engine st0)) \<Longrightarrow> ?ok st j" and co: "set (es_completed st) \<subseteq> set sent" "distinct sent"
    using inv by (auto simp: order_inv_def)
  obtain taken pend where t: "mq_rep (w_cmd_queue (eng_workers (es_engine st) ! i)) (map Node pend)"
      "taken @ pend = filter (\<lambda>c. ?wk c = i) sent" "filter (\<lambda>c. ?wk c = i) (es_completed st) = filter ?live taken"
    using all [of i] i l by auto
  have sp: "set pend \<subseteq> {c \<in> set sent. ?wk c = i}" using arg_cong [OF t(2), of set] by auto
  note o = worker_step_others [OF st]
  have glue: "\<forall>j < length (eng_workers (es_engine st0)). ?ok st' j"
    if i: "?ok st' i" and f: "\<And>j. j \<noteq> i \<Longrightarrow> filter (\<lambda>c. ?wk c = j) (es_completed st') = filter (\<lambda>c. ?wk c = j) (es_completed st)"
  proof (intro allI impI)
    fix j
    assume j: "j < length (eng_workers (es_engine st0))"
    show "?ok st' j"
    proof (cases "j = i")
      case True
      then show ?thesis using i by simp
    next
      case False
      show ?thesis using all [OF j] unfolding o(2) [OF False] f [OF False] .
    qed
  qed
  from st t(1) i show ?thesis
  proof (cases rule: worker_step_cases)
    case idle
    have "?ok st' i" using idle t by (intro exI [of _ taken] exI [of _ "[]"]) simp
    then show ?thesis using glue l o(1) ty ar co idle by (simp add: order_inv_def)
  next
    case (shut c p)
    have "?ok st' i" using shut t ty by (intro exI [of _ "taken @ [c]"] exI [of _ p]) simp
    then show ?thesis using glue l o(1) ty ar co shut by (simp add: order_inv_def)
  next
    case (exec c p cmd' hit)
    have wc: "?wk c = i" "c \<in> set sent" using sp exec(1) by auto
    have "?ok st' i" using exec t ty wc by (intro exI [of _ "taken @ [c]"] exI [of _ p]) simp
    moreover have "filter (\<lambda>c. ?wk c = j) (es_completed st') = filter (\<lambda>c. ?wk c = j) (es_completed st)" if "j \<noteq> i" for j
      using that exec(5) wc by simp
    moreover have "cmd_type cmd' = cmd_type (es_cmds st c) \<and> cmd_argv cmd' = cmd_argv (es_cmds st c)" using exec_keeps [OF exec(3)] .
    ultimately show ?thesis using glue l o(1) ty ar co exec(4,5) wc by (simp add: order_inv_def)
  qed
qed

lemma engine_run_order:
  assumes "engine_run st0 key st sent" "engine_fresh st0"
  shows "order_inv st0 key st sent"
  using assms
proof (induction rule: engine_run.induct)
  case eng_start
  then show ?case by (rule order_start(1))
next
  case (eng_dispatch st sent c)
  then show ?case using order_dispatch order_start(2,3) by blast
next
  case (eng_work st sent i e st')
  then show ?case using order_work by blast
qed

text \<open>
  C2. The commands of a key complete in the order of their dispatch: in every run, under every interleaving of dispatching
  threads and workers, the completed commands of a key are a prefix of those dispatched under it (requests to
  shut down apart), and all of them once the queue of its worker is empty.
\<close>

theorem engine_key_order:
  assumes "engine_run st0 key st sent" and "engine_fresh st0"
  shows "prefix (filter (\<lambda>c. key c = k) (es_completed st)) (filter (\<lambda>c. key c = k \<and> cmd_type (es_cmds st0 c) \<noteq> NEX_CMD_SHUTDOWN) sent) \<and>
    (mq_rep (w_cmd_queue (eng_workers (es_engine st) ! engine_worker_for_key (es_engine st) k)) [] \<longrightarrow>
       filter (\<lambda>c. key c = k) (es_completed st) = filter (\<lambda>c. key c = k \<and> cmd_type (es_cmds st0 c) \<noteq> NEX_CMD_SHUTDOWN) sent)"
proof -
  let ?wk = "\<lambda>c. engine_worker_for_key (es_engine st0) (key c)" and ?live = "\<lambda>c. cmd_type (es_cmds st0 c) \<noteq> NEX_CMD_SHUTDOWN"
  let ?i = "engine_worker_for_key (es_engine st0) k"
  note inv = engine_run_order [OF assms]
  have l: "length (eng_workers (es_engine st)) = length (eng_workers (es_engine st0))" using inv by (simp add: order_inv_def)
  have i: "engine_worker_for_key (es_engine st) k = ?i" "?i < length (eng_workers (es_engine st0))"
    using worker_for_key_cong [OF l] worker_for_key_less [OF order_start(2,3) [OF assms(2)]] by simp_all
  obtain taken pend where t: "mq_rep (w_cmd_queue (eng_workers (es_engine st) ! ?i)) (map Node pend)"
      "taken @ pend = filter (\<lambda>c. ?wk c = ?i) sent" "filter (\<lambda>c. ?wk c = ?i) (es_completed st) = filter ?live taken"
    using inv i(2) unfolding order_inv_def by metis
  have "filter (\<lambda>c. key c = k) (es_completed st) = filter (\<lambda>c. key c = k) (filter (\<lambda>c. ?wk c = ?i) (es_completed st))"
    unfolding filter_filter by (rule filter_cong) auto
  then have a: "filter (\<lambda>c. key c = k) (es_completed st) = filter (\<lambda>c. key c = k \<and> ?live c) taken" unfolding t(3) by (simp add: conj_commute)
  have "filter (\<lambda>c. key c = k \<and> ?live c) sent = filter (\<lambda>c. key c = k \<and> ?live c) (filter (\<lambda>c. ?wk c = ?i) sent)"
    unfolding filter_filter by (rule filter_cong) auto
  then have b: "filter (\<lambda>c. key c = k \<and> ?live c) sent = filter (\<lambda>c. key c = k \<and> ?live c) taken @ filter (\<lambda>c. key c = k \<and> ?live c) pend"
    unfolding t(2) [symmetric] by simp
  have "pend = []" if "mq_rep (w_cmd_queue (eng_workers (es_engine st) ! ?i)) []"
  proof (rule ccontr)
    assume "pend \<noteq> []"
    then obtain c p where "pend = c # p" by (cases pend) auto
    then have "snd (mpsc_dequeue (w_cmd_queue (eng_workers (es_engine st) ! ?i))) = Some (Node c)" using mq.rep_deq t(1) by simp
    then show False using mq.rep_deq_empty [OF that] by simp
  qed
  then show ?thesis unfolding a b i(1) by auto
qed

text \<open>An engine of one worker with an empty storage, and a GET that was dispatched to it.\<close>

lemma sample_engine:
  obtains st0 :: "NexSegcache engine_state" where "engine_fresh st0" "es_cmds st0 = cmds" "es_completed st0 = []"
    "length (eng_workers (es_engine st0)) = 1" "w_running (eng_workers (es_engine st0) ! 0)"
proof -
  obtain sc where c: "segcache_create True 0 SEG_DEFAULT_SIZE = Some sc" by (simp add: segcache_create_def Let_def)
  note i = segcache_create_inv [OF c, simplified]
  have m: "seg_inv sc" using i(1) i(2) [of 131078] by (simp add: seg_inv_def SEG_DEFAULT_SIZE_def)
  let ?ns = "\<lparr>main_api = NexSegcacheAPI, main_backend = sc, object_backend = sample_store\<rparr>"
  let ?eng = "\<lparr>eng_workers = [new_worker 1 NEX_HASH_SLOTS 0], eng_running = False, eng_total_commands = 0\<rparr>"
  have e: "engine_create True True (\<lambda>i. True) 1 = Some ?eng" by (simp add: engine_create_def NEX_MAX_WORKERS_def)
  obtain eng where s: "engine_start (\<lambda>i. True) ?eng = (eng, 0)" "eng_workers eng = [(new_worker 1 NEX_HASH_SLOTS 0)\<lparr>w_running := True\<rparr>]"
    by (simp add: engine_start_def)
  have k: "sc_view sc k = None" for k using i(6) by (simp add: SEG_DEFAULT_SIZE_def)
  have "seg_storage_ok ?ns" using m sample_store_ok(1) by (simp add: seg_storage_ok_def)
  then have "engine_fresh \<lparr>es_engine = eng, es_cmds = cmds, es_storage = Some ?ns, es_completed = []\<rparr>"
    unfolding engine_fresh_def using k sample_store_view
    by (intro conjI exI [of _ ?ns] exI [of _ True] exI [of _ "\<lambda>i. True"] exI [of _ 1] exI [of _ ?eng])
       (simp_all add: e [simplified] s(1) [simplified])
  then show thesis by (rule that) (simp_all add: s(2))
qed

definition sample_get :: NexCmd where
  "sample_get = \<lparr>cmd_type = NEX_CMD_GET, cmd_argv = [str ''GET'', [107]], cmd_reply_buf = Some (replicate 16 0), cmd_reply_len = 0\<rparr>"

theorem engine_key_order_witness:
  "\<exists>st0 st. engine_run st0 (\<lambda>c. Some [107]) st [7] \<and> engine_fresh st0 \<and> prefix (es_completed st) [7]"
proof -
  obtain st0 :: "NexSegcache engine_state" where f: "engine_fresh st0" "es_cmds st0 = (\<lambda>c. sample_get)" by (rule sample_engine)
  have "cmd_fits sample_get (Some [107])" by (simp add: cmd_fits_def sample_get_def str_def)
  then obtain st where r: "engine_run st0 (\<lambda>c. Some [107]) st [7]"
    using eng_dispatch [OF eng_start [of st0 "\<lambda>c. Some [107]"], of 7] f(2) by auto
  have "prefix (es_completed st) [7]" using engine_key_order [OF r f(1), of "Some [107]"] f(2) by (simp add: sample_get_def)
  then show ?thesis using r f(1) by blast
qed

end
