(* ===== verification/Nex_Engine_Map.thy ===== *)
theory Nex_Engine_Map
  imports Nex_Engine_Props
begin

text \<open>
  What the clients of the engine see: the replies to the completed commands are those of one key-value map on which the
  commands run one after the other in the order of their completion, whichever workers ran them.
\<close>

subsection \<open>The map\<close>

text \<open>A bulk reply and the effect of a command; \<open>room\<close> tells whether the storage takes the value of a SET.\<close>

definition bulk_text :: "bytes \<Rightarrow> bytes" where
  "bulk_text v = str ''$'' @ decimal (length v) @ [13, 10] @ v @ [13, 10]"

definition kv_exec :: "NexCmd \<Rightarrow> bool \<Rightarrow> (bytes \<rightharpoonup> bytes) \<Rightarrow> (bytes \<rightharpoonup> bytes) \<times> bytes option" where
  "kv_exec cmd room kv =
     (let a = cmd_argv cmd
      in case cmd_type cmd of
           NEX_CMD_GET \<Rightarrow>
             if length a \<ge> 2 then (kv, Some (case kv (a ! 1) of Some v \<Rightarrow> bulk_text v | None \<Rightarrow> str ''$-1'' @ [13, 10])) else (kv, None)
         | NEX_CMD_SET \<Rightarrow>
             if length a \<ge> 3
             then if room then (kv(a ! 1 \<mapsto> a ! 2), Some (str ''+OK'' @ [13, 10])) else (kv, Some (str ''-ERR storage error'' @ [13, 10]))
             else (kv, None)
         | NEX_CMD_DEL \<Rightarrow>
             if length a \<ge> 2 then (kv(a ! 1 := None), Some ((if kv (a ! 1) = None then str '':0'' else str '':1'') @ [13, 10])) else (kv, None)
         | _ \<Rightarrow> (kv, Some (str ''-ERR unknown command'' @ [13, 10])))"

text \<open>Running commands one after the other: the map and the replies.\<close>

fun kv_replay :: "(nat \<Rightarrow> NexCmd) \<Rightarrow> (nat \<Rightarrow> bool) \<Rightarrow> nat list \<Rightarrow> (bytes \<rightharpoonup> bytes) \<Rightarrow> (bytes \<rightharpoonup> bytes) \<times> (nat \<times> bytes option) list" where
  "kv_replay cmds room [] kv = (kv, [])"
| "kv_replay cmds room (c # cs) kv =
     (case kv_exec (cmds c) (room c) kv of (kv1, r) \<Rightarrow> (case kv_replay cmds room cs kv1 of (kv2, rs) \<Rightarrow> (kv2, (c, r) # rs)))"

lemma kv_replay_snoc:
  "kv_replay cmds room (cs @ [c]) kv =
     (case kv_replay cmds room cs kv of (kv1, rs) \<Rightarrow> (case kv_exec (cmds c) (room c) kv1 of (kv2, r) \<Rightarrow> (kv2, rs @ [(c, r)])))"
  by (induction cs arbitrary: kv) (simp_all split: prod.splits)

lemma kv_replay_cong: "(\<And>c. c \<in> set cs \<Longrightarrow> room c = room' c) \<Longrightarrow> kv_replay cmds room cs kv = kv_replay cmds room' cs kv"
  by (induction cs arbitrary: kv) (simp_all split: prod.splits)

lemma kv_replay_fst: "map fst (snd (kv_replay cmds room cs kv)) = cs"
proof (induction cs arbitrary: kv)
  case (Cons c cs)
  then show ?case by (simp add: split_beta)
qed simp

subsection \<open>The storage holds the map\<close>

text \<open>The strings are in the main store, without lifetime; the object store is empty.\<close>

definition kv_holds :: "NexSegcache NexStorage \<Rightarrow> (bytes \<rightharpoonup> bytes) \<Rightarrow> bool" where
  "kv_holds ns kv \<longleftrightarrow> seg_storage_ok ns \<and> (\<forall>k. nd_view (ns_table (object_backend ns)) k = None) \<and>
     (\<forall>k. map_option (\<lambda>(v, b, t). (v, b)) (sc_view (main_backend ns) k) = map_option (\<lambda>v. (v, ttl_to_bucket 0)) (kv k))"

lemma kv_holdsD:
  assumes "kv_holds ns kv"
  shows "seg_storage_ok ns" "nd_view (ns_table (object_backend ns)) k = None" "sc_inv (main_backend ns)" "fits_all (main_backend ns) 131078"
    "kv k = None \<longleftrightarrow> sc_view (main_backend ns) k = None" "kv k = Some v \<Longrightarrow> \<exists>t. sc_view (main_backend ns) k = Some (v, ttl_to_bucket 0, t)"
proof -
  have v: "map_option (\<lambda>(v, b, t). (v, b)) (sc_view (main_backend ns) k) = map_option (\<lambda>v. (v, ttl_to_bucket 0)) (kv k)"
    using assms by (simp add: kv_holds_def)
  show "seg_storage_ok ns" "nd_view (ns_table (object_backend ns)) k = None" using assms by (simp_all add: kv_holds_def)
  then show "sc_inv (main_backend ns)" "fits_all (main_backend ns) 131078" by (simp_all add: seg_storage_ok_def seg_inv_def)
  show "kv k = None \<longleftrightarrow> sc_view (main_backend ns) k = None" using v by (cases "kv k"; cases "sc_view (main_backend ns) k") auto
  show "kv k = Some v \<Longrightarrow> \<exists>t. sc_view (main_backend ns) k = Some (v, ttl_to_bucket 0, t)" using v by auto
qed

lemma never_expires: "\<not> entry_expired now (v, ttl_to_bucket 0, t)"
  by (simp add: entry_expired_def ttl_to_bucket_def bucket_to_ttl_seconds_def)

lemma kv_value_length: "kv_holds ns kv \<Longrightarrow> kv k = Some v \<Longrightarrow> length v \<le> 65535"
  using kv_holdsD(3,6) [of ns kv] seg_value_length [of "main_backend ns" k] by fastforce

lemma kv_answer:
  assumes "kv_holds ns kv"
  shows "sc_answer now 65535 (sc_view (main_backend ns) k) = (case kv k of None \<Rightarrow> SegMiss | Some v \<Rightarrow> SegHit v)"
proof (cases "kv k")
  case None
  then show ?thesis using kv_holdsD(5) [OF assms, of k] by (simp add: sc_answer_def)
next
  case (Some v)
  obtain t where "sc_view (main_backend ns) k = Some (v, ttl_to_bucket 0, t)" using kv_holdsD(6) [OF assms Some] by blast
  then show ?thesis using Some kv_value_length [OF assms Some] never_expires [of now v t] by (simp add: sc_answer_def)
qed

lemma kv_holds_cong:
  assumes "kv_holds ns kv" and "main_api ns' = main_api ns" "seg_inv (main_backend ns')" "sc_view (main_backend ns') = sc_view (main_backend ns)"
    "store_ok (object_backend ns')" "\<And>k. nd_view (ns_table (object_backend ns')) k = None"
  shows "kv_holds ns' kv"
  using assms by (simp add: kv_holds_def seg_storage_ok_def)

lemma absent_get:
  assumes "store_ok s" "\<And>k. nd_view (ns_table s) k = None"
  shows "\<exists>s' r. ndapi_get e s k = Some (s', r, None) \<and> r \<noteq> NEXS_OK \<and> store_ok s' \<and> (\<forall>k. nd_view (ns_table s') k = None)"
proof (cases "length k > 255")
  case True
  then show ?thesis using assms by (simp add: ndapi_get_def ND_MAX_KEY_LEN_def)
next
  case False
  obtain s' where s': "nd_commit s (count_miss (ns_table s)) = Some s'" "ns_table s' = count_miss (ns_table s)" by (auto simp: nd_commit_def)
  have g: "ndapi_get e s k = Some (s', NEXS_NOT_FOUND, None)"
    using False s'(1) nexdash_get_absent [OF assms(2)] by (simp add: ndapi_get_def ND_MAX_KEY_LEN_def)
  then have "store_ok s'" using ndapi_get_effect [OF assms(1), of e k] by auto
  then show ?thesis using g s'(2) assms(2) by simp
qed

lemma absent_del:
  assumes "store_ok s" "\<And>k. nd_view (ns_table s) k = None"
  shows "\<exists>s'. ndapi_del e s k = Some (s', NEXS_NOT_FOUND) \<and> store_ok s' \<and> (\<forall>k. nd_view (ns_table s') k = None)"
proof -
  obtain s' r where d: "ndapi_del e s k = Some (s', r)" "store_ok s'" "r \<in> {NEXS_OK, NEXS_NOT_FOUND}" using ndapi_del_effect [OF assms(1)] by blast
  have "r = NEXS_NOT_FOUND" using ndapi_del_held [OF assms(1) d(1)] d(3) assms(2) by (auto simp: nd_held_def)
  moreover have "nd_view (ns_table s') k' = None" for k'
    using d(1) assms(2) del_effect [OF store_okD(1) [OF assms(1)], of k]
    by (auto simp: ndapi_del_def nd_commit_def split: if_splits)
  ultimately show ?thesis using d by blast
qed

lemma kv_get:
  assumes h: "kv_holds ns kv" and k: "length k \<le> 65535"
  shows "\<exists>ns' r en. nexstorage_get e ns k = Some (ns', r, en) \<and> kv_holds ns' kv \<and>
    (case kv k of None \<Rightarrow> r \<noteq> NEXS_OK | Some v \<Rightarrow> r = NEXS_OK \<and> (\<exists>x. en = Some x \<and> ne_value x = Some v \<and> ne_type x = NEXDT_STRING))"
proof -
  note d = seg_storageD [OF kv_holdsD(1) [OF h]] and o = kv_holdsD(2) [OF h]
  let ?sc = "main_backend ns" and ?now = "ucast (ev_time e) :: u32"
  let ?g = "segcache_get ?now ?sc (Some k) 65535"
  note g = segcache_get_view [OF kv_holdsD(3) [OF h], of ?now k 65535]
  have live: "\<not> entry_expired ?now x" if "sc_view ?sc k = Some x" for x
    using kv_holdsD(5,6) [OF h, of k] that never_expires by (cases "kv k") fastforce+
  have v: "sc_view (fst ?g) = sc_view ?sc" using g(3) live by (simp split: option.splits)
  have i: "seg_inv (fst ?g)" using g(2) d(4) segcache_get_fits by (simp add: seg_inv_def)
  have sc: "scapi_get e ?sc k = Some (fst ?g, case kv k of None \<Rightarrow> (NEXS_NOT_FOUND, None)
      | Some v \<Rightarrow> (NEXS_OK, Some \<lparr>ne_value = Some v, ne_type = NEXDT_STRING, ne_ttl_ms = - 1, ne_version = 0\<rparr>))"
    using g(1) k kv_answer [OF h, of ?now k] by (cases ?g) (simp add: scapi_get_def split: option.splits)
  show ?thesis
  proof (cases "kv k")
    case None
    obtain s' r where a: "ndapi_get e (object_backend ns) k = Some (s', r, None)" "r \<noteq> NEXS_OK" "store_ok s'" "\<forall>k. nd_view (ns_table s') k = None"
      using absent_get [OF d(5) o] by blast
    have "kv_holds (ns\<lparr>main_backend := fst ?g, object_backend := s'\<rparr>) kv" by (rule kv_holds_cong [OF h]) (use i v a in simp_all)
    then show ?thesis using None sc a(1,2) d(1) by (simp add: nexstorage_get_def NexDashTableAPI_def)
  next
    case (Some x)
    have "kv_holds (ns\<lparr>main_backend := fst ?g\<rparr>) kv" by (rule kv_holds_cong [OF h]) (use i v d(5) o in simp_all)
    then show ?thesis using Some sc d(1) by (simp add: nexstorage_get_def)
  qed
qed

lemma kv_set:
  assumes h: "kv_holds ns kv" and k: "length k \<le> 65535" and v: "length v \<le> 65535"
  shows "\<exists>ns' r. nexstorage_set e ns k v NEXDT_STRING (- 1) = Some (ns', r) \<and> kv_holds ns' (if r = NEXS_OK then kv(k \<mapsto> v) else kv)"
proof -
  note d = seg_storageD [OF kv_holdsD(1) [OF h]] and o = kv_holdsD(2) [OF h]
  let ?sc = "main_backend ns"
  obtain sc' ok where r: "segcache_set (ucast (ev_time e)) ?sc (Some k) (Some v) 0 = (sc', ok)" by fastforce
  have f: "fits_all ?sc (8 + length k + length v)" using kv_holdsD(4) [OF h] k v by (auto simp: fits_all_def)
  note w = segcache_set_view [OF kv_holdsD(3) [OF h] k v f r]
  have i: "seg_inv sc'" using w(1) kv_holdsD(4) [OF h] segcache_set_fits [OF kv_holdsD(3) [OF h] k v f r] by (simp add: seg_inv_def)
  have "kv_holds (ns\<lparr>main_backend := sc'\<rparr>) (if ok then kv(k \<mapsto> v) else kv)"
    using h i d(5,6) w(2,3) by (cases ok) (simp_all add: kv_holds_def seg_storage_ok_def)
  then show ?thesis using d(2) r k v by (cases ok) (simp_all add: nexstorage_set_def scapi_set_def)
qed

lemma kv_del:
  assumes h: "kv_holds ns kv" and k: "length k \<le> 65535"
  shows "\<exists>ns' r. nexstorage_del e ns k = Some (ns', r) \<and> kv_holds ns' (kv(k := None)) \<and> (r = NEXS_OK \<longleftrightarrow> kv k \<noteq> None)"
proof -
  note d = seg_storageD [OF kv_holdsD(1) [OF h]] and o = kv_holdsD(2) [OF h]
  let ?sc = "main_backend ns" and ?sc' = "fst (segcache_del (main_backend ns) (Some k))"
  note v = segcache_del_view [OF kv_holdsD(3) [OF h], of k]
  have i: "seg_inv ?sc'" using v(1,4) d(4) by (simp add: seg_inv_def)
  have sc: "scapi_del e ?sc k = Some (?sc', if kv k = None then NEXS_NOT_FOUND else NEXS_OK)"
    using k v(3) kv_holdsD(5) [OF h, of k] by (cases "segcache_del ?sc (Some k)") (simp add: scapi_del_def)
  have n: "kv_holds (ns\<lparr>main_backend := ?sc', object_backend := s\<rparr>) (kv(k := None))" if "store_ok s" "\<forall>k. nd_view (ns_table s) k = None" for s
    using h that i d(6) v(2) by (simp add: kv_holds_def seg_storage_ok_def)
  show ?thesis
  proof (cases "kv k")
    case None
    obtain s' where a: "ndapi_del e (object_backend ns) k = Some (s', NEXS_NOT_FOUND)" "store_ok s'" "\<forall>k. nd_view (ns_table s') k = None"
      using absent_del [OF d(5) o] by blast
    show ?thesis using None sc a(1) n [OF a(2,3)] d(3) by (simp add: nexstorage_del_def NexDashTableAPI_def)
  next
    case (Some x)
    have "kv_holds (ns\<lparr>main_backend := ?sc'\<rparr>) (kv(k := None))" using n [of "object_backend ns"] d(5) o by simp
    then show ?thesis using Some sc d(3) by (simp add: nexstorage_del_def)
  qed
qed

subsection \<open>Replies\<close>

text \<open>A buffer that is larger than the text of the reply holds the text, and its length is recorded.\<close>

definition reply_shows :: "NexCmd \<Rightarrow> bytes option \<Rightarrow> bool" where
  "reply_shows cmd rep \<longleftrightarrow>
     (case (cmd_reply_buf cmd, rep) of (Some b, Some s) \<Rightarrow> length s < length b \<longrightarrow> take (cmd_reply_len cmd) b = s | _ \<Rightarrow> True)"

lemma set_reply_shows:
  assumes "cmd_reply_buf cmd \<noteq> Some []"
  shows "\<exists>cmd'. set_reply cmd s = Some cmd' \<and> reply_shows cmd' (Some s)"
  using assms by (auto simp: set_reply_def reply_strncpy_def reply_shows_def split: option.splits)

lemma length_snprintf: "length (reply_snprintf buf s) = length buf"
  by (cases buf) (auto simp: reply_snprintf_def Let_def)

lemma bulk_reply_shows:
  assumes "length v \<le> 65535"
  shows "reply_shows (bulk_reply cmd v) (Some (bulk_text v))"
proof (cases "cmd_reply_buf cmd")
  case None
  then show ?thesis by (simp add: bulk_reply_def reply_shows_def)
next
  case (Some buf)
  define h where "h = str ''$'' @ decimal (length v) @ [13, 10]"
  have n: "unat (of_nat (length v) :: u32) = length v" using assms by (intro unat_of_nat_eq) simp
  have t: "bulk_text v = h @ v @ [13, 10]" by (simp add: bulk_text_def h_def)
  let ?b = "buf_write (buf_write (reply_snprintf buf h) (length h) v) (length h + length v) [13, 10]"
  have "take (length h + length v + 2) ?b = h @ v @ [13, 10]" if l: "length h + length v + 2 < length buf"
  proof -
    have "take (length buf - 1) h = h" using l by simp
    then have "reply_snprintf buf h = h @ 0 # drop (length h + 1) buf" using l by (auto simp: reply_snprintf_def)
    then show ?thesis by (simp add: buf_write_def)
  qed
  moreover have "length ?b = length buf" if "length h + length v + 2 \<le> length buf" using that by (simp add: length_snprintf)
  ultimately show ?thesis using Some unfolding t
    by (auto simp: bulk_reply_def Let_def n h_def [symmetric] reply_shows_def length_snprintf)
qed

subsection \<open>One command\<close>

lemma cut32_id [simp]: "length a \<le> 65535 \<Longrightarrow> cut32 a = a"
  by (simp add: cut32_def unat_of_nat_eq)

lemma cmd_fitsD:
  assumes "cmd_fits cmd key"
  shows "i < length (cmd_argv cmd) \<Longrightarrow> length (cmd_argv cmd ! i) \<le> 65535" "cmd_reply_buf cmd \<noteq> Some []"
  using assms by (auto simp: cmd_fits_def)

definition runs_as_kv :: "StorageEnv \<Rightarrow> NexSegcache NexStorage \<Rightarrow> (bytes \<rightharpoonup> bytes) \<Rightarrow> NexCmd \<Rightarrow> bool" where
  "runs_as_kv e ns kv cmd \<longleftrightarrow> (\<exists>ns' cmd' hit room. exec_cmd e (Some ns) cmd = Some (Some ns', cmd', hit) \<and>
     kv_holds ns' (fst (kv_exec cmd room kv)) \<and> reply_shows cmd' (snd (kv_exec cmd room kv)))"

lemma runs_as_kvI:
  assumes "exec_cmd e (Some ns) cmd = Some (Some ns', cmd', hit)" "kv_exec cmd room kv = (kv', rep)" "kv_holds ns' kv'" "reply_shows cmd' rep"
  shows "runs_as_kv e ns kv cmd"
  unfolding runs_as_kv_def using assms by (intro exI [of _ ns'] exI [of _ cmd'] exI [of _ hit] exI [of _ room]) simp

lemma no_reply: "reply_shows cmd None"
  by (simp add: reply_shows_def split: option.splits)

lemma exec_get:
  assumes h: "kv_holds ns kv" and f: "cmd_fits cmd key" and t: "cmd_type cmd = NEX_CMD_GET"
  shows "runs_as_kv e ns kv cmd"
proof (cases "length (cmd_argv cmd) \<ge> 2")
  case True
  let ?k = "cmd_argv cmd ! 1" and ?nil = "str ''$-1'' @ [13, 10]"
  have k: "length ?k \<le> 65535" using cmd_fitsD(1) [OF f] True by simp
  obtain ns' r en where g: "nexstorage_get e ns ?k = Some (ns', r, en)" "kv_holds ns' kv"
    "case kv ?k of None \<Rightarrow> r \<noteq> NEXS_OK | Some v \<Rightarrow> r = NEXS_OK \<and> (\<exists>x. en = Some x \<and> ne_value x = Some v \<and> ne_type x = NEXDT_STRING)"
    using kv_get [OF h k] by blast
  show ?thesis
  proof (cases "kv ?k")
    case None
    obtain c where "set_reply cmd ?nil = Some c" "reply_shows c (Some ?nil)" using set_reply_shows [OF cmd_fitsD(2) [OF f]] by blast
    then show ?thesis using t True k g None
      by (intro runs_as_kvI [of e ns cmd ns' c "Some False" True kv kv "Some ?nil"]) (simp_all add: exec_cmd_def kv_exec_def Let_def)
  next
    case (Some v)
    then show ?thesis using t True k g bulk_reply_shows [OF kv_value_length [OF h Some], of cmd]
      by (intro runs_as_kvI [of e ns cmd ns' "bulk_reply cmd v" "Some True" True kv kv "Some (bulk_text v)"])
         (auto simp: exec_cmd_def kv_exec_def Let_def)
  qed
next
  case False
  then show ?thesis using t h no_reply
    by (intro runs_as_kvI [of e ns cmd ns cmd None True kv kv None]) (simp_all add: exec_cmd_def kv_exec_def Let_def)
qed

lemma exec_set:
  assumes h: "kv_holds ns kv" and f: "cmd_fits cmd key" and t: "cmd_type cmd = NEX_CMD_SET"
  shows "runs_as_kv e ns kv cmd"
proof (cases "length (cmd_argv cmd) \<ge> 3")
  case True
  let ?k = "cmd_argv cmd ! 1" and ?v = "cmd_argv cmd ! 2"
  have k: "length ?k \<le> 65535" "length ?v \<le> 65535" using cmd_fitsD(1) [OF f] True by simp_all
  obtain ns' r where g: "nexstorage_set e ns ?k ?v NEXDT_STRING (- 1) = Some (ns', r)" "kv_holds ns' (if r = NEXS_OK then kv(?k \<mapsto> ?v) else kv)"
    using kv_set [OF h k] by blast
  let ?s = "if r = NEXS_OK then str ''+OK'' @ [13, 10] else str ''-ERR storage error'' @ [13, 10]"
  obtain c where c: "set_reply cmd ?s = Some c" "reply_shows c (Some ?s)" using set_reply_shows [OF cmd_fitsD(2) [OF f]] by blast
  show ?thesis
  proof (rule runs_as_kvI [OF _ _ g(2) c(2)])
    show "exec_cmd e (Some ns) cmd = Some (Some ns', c, None)" using t True k g(1) c(1) by (simp add: exec_cmd_def)
    show "kv_exec cmd (r = NEXS_OK) kv = (if r = NEXS_OK then kv(?k \<mapsto> ?v) else kv, Some ?s)"
      using t True by (simp add: kv_exec_def Let_def)
  qed
next
  case False
  then show ?thesis using t h no_reply
    by (intro runs_as_kvI [of e ns cmd ns cmd None True kv kv None]) (simp_all add: exec_cmd_def kv_exec_def Let_def)
qed

lemma exec_del:
  assumes h: "kv_holds ns kv" and f: "cmd_fits cmd key" and t: "cmd_type cmd = NEX_CMD_DEL"
  shows "runs_as_kv e ns kv cmd"
proof (cases "length (cmd_argv cmd) \<ge> 2")
  case True
  let ?k = "cmd_argv cmd ! 1"
  have k: "length ?k \<le> 65535" using cmd_fitsD(1) [OF f] True by simp
  obtain ns' r where g: "nexstorage_del e ns ?k = Some (ns', r)" "kv_holds ns' (kv(?k := None))" "r = NEXS_OK \<longleftrightarrow> kv ?k \<noteq> None"
    using kv_del [OF h k] by blast
  let ?s = "if r = NEXS_OK then str '':1'' @ [13, 10] else str '':0'' @ [13, 10]"
  obtain c where c: "set_reply cmd ?s = Some c" "reply_shows c (Some ?s)" using set_reply_shows [OF cmd_fitsD(2) [OF f]] by blast
  show ?thesis
  proof (rule runs_as_kvI [OF _ _ g(2) c(2)])
    show "exec_cmd e (Some ns) cmd = Some (Some ns', c, None)" using t True k g(1) c(1) by (simp add: exec_cmd_def)
    show "kv_exec cmd True kv = (kv(?k := None), Some ?s)" using t True g(3) by (simp add: kv_exec_def Let_def)
  qed
next
  case False
  then show ?thesis using t h no_reply
    by (intro runs_as_kvI [of e ns cmd ns cmd None True kv kv None]) (simp_all add: exec_cmd_def kv_exec_def Let_def)
qed

lemma exec_refines_kv:
  assumes h: "kv_holds ns kv" and f: "cmd_fits cmd key" and t: "cmd_type cmd \<noteq> NEX_CMD_SHUTDOWN"
  shows "runs_as_kv e ns kv cmd"
proof -
  consider "cmd_type cmd = NEX_CMD_GET" | "cmd_type cmd = NEX_CMD_SET" | "cmd_type cmd = NEX_CMD_DEL"
    | (other) "cmd_type cmd \<notin> {NEX_CMD_GET, NEX_CMD_SET, NEX_CMD_DEL}" by blast
  then show ?thesis
  proof cases
    case other
    let ?s = "str ''-ERR unknown command'' @ [13, 10]"
    obtain c where c: "set_reply cmd ?s = Some c" "reply_shows c (Some ?s)" using set_reply_shows [OF cmd_fitsD(2) [OF f]] by blast
    have "exec_cmd e (Some ns) cmd = Some (Some ns, c, None)" using other t c(1) by (cases "cmd_type cmd") (simp_all add: exec_cmd_def)
    moreover have "kv_exec cmd True kv = (kv, Some ?s)" using other t by (cases "cmd_type cmd") (simp_all add: kv_exec_def)
    ultimately show ?thesis using h c(2) by (rule runs_as_kvI)
  qed (use exec_get [OF h f] exec_set [OF h f] exec_del [OF h f] in blast)+
qed

subsection \<open>Runs\<close>

lemma kv_reads: "kv_holds ns kv \<Longrightarrow> length k \<le> 65535 \<Longrightarrow> storage_reads e ns k = map_option (\<lambda>v. (v, NEXDT_STRING)) (kv k)"
  using kv_get [of ns kv k e] by (cases "kv k") (auto simp: storage_reads_def split: NexStorageResult.splits)

text \<open>What is waiting in a queue has been sent and has not completed.\<close>

lemma waiting:
  assumes inv: "order_inv st0 key st sent" and i: "i < length (eng_workers (es_engine st))"
  obtains pend where "mq_rep (w_cmd_queue (eng_workers (es_engine st) ! i)) (map Node pend)"
    "\<And>c. c \<in> set pend \<Longrightarrow> c \<in> set sent \<and> c \<notin> set (es_completed st)"
proof -
  let ?wk = "\<lambda>c. engine_worker_for_key (es_engine st0) (key c)" and ?live = "\<lambda>c. cmd_type (es_cmds st0 c) \<noteq> NEX_CMD_SHUTDOWN"
  have "i < length (eng_workers (es_engine st0))" and d: "distinct sent" using inv i by (simp_all add: order_inv_def)
  then obtain taken pend where t: "mq_rep (w_cmd_queue (eng_workers (es_engine st) ! i)) (map Node pend)"
      "taken @ pend = filter (\<lambda>c. ?wk c = i) sent" "filter (\<lambda>c. ?wk c = i) (es_completed st) = filter ?live taken"
    using inv unfolding order_inv_def by metis
  have di: "distinct (taken @ pend)" unfolding t(2) using d by simp
  have "c \<in> set sent \<and> c \<notin> set (es_completed st)" if c: "c \<in> set pend" for c
  proof -
    have "c \<in> set (filter (\<lambda>c. ?wk c = i) sent)" unfolding t(2) [symmetric] using c by simp
    then have w: "c \<in> set sent" "?wk c = i" by simp_all
    have "c \<notin> set (filter (\<lambda>c. ?wk c = i) (es_completed st))" unfolding t(3) using di c by auto
    then show ?thesis using w by simp
  qed
  then show thesis using that t(1) by blast
qed

definition kv_inv :: "NexSegcache engine_state \<Rightarrow> NexSegcache engine_state \<Rightarrow> bool" where
  "kv_inv st0 st \<longleftrightarrow> (\<exists>ns room kv reps. es_storage st = Some ns \<and> kv_holds ns kv \<and>
     kv_replay (es_cmds st0) room (es_completed st) Map.empty = (kv, reps) \<and> (\<forall>(c, rep) \<in> set reps. reply_shows (es_cmds st c) rep)) \<and>
     (\<forall>c. c \<notin> set (es_completed st) \<longrightarrow> es_cmds st c = es_cmds st0 c)"

lemma kv_inv_start: "engine_fresh st0 \<Longrightarrow> kv_inv st0 st0"
  by (auto simp: engine_fresh_def kv_inv_def kv_holds_def)

lemma kv_inv_exec:
  assumes inv: "kv_inv st0 st" and c: "c \<notin> set (es_completed st)" and f: "cmd_fits (es_cmds st0 c) key"
    and t: "cmd_type (es_cmds st c) \<noteq> NEX_CMD_SHUTDOWN"
    and x: "exec_cmd e (es_storage st) (es_cmds st c) = Some (es_storage st', cmd', hit)"
    and st': "es_cmds st' = (es_cmds st)(c := cmd')" "es_completed st' = es_completed st @ [c]"
  shows "kv_inv st0 st'"
proof -
  obtain ns room kv reps where k: "es_storage st = Some ns" "kv_holds ns kv" "kv_replay (es_cmds st0) room (es_completed st) Map.empty = (kv, reps)"
      "\<forall>(c, rep) \<in> set reps. reply_shows (es_cmds st c) rep" and same: "\<forall>c. c \<notin> set (es_completed st) \<longrightarrow> es_cmds st c = es_cmds st0 c"
    using inv unfolding kv_inv_def by blast
  have cc: "es_cmds st c = es_cmds st0 c" using same c by simp
  have "runs_as_kv e ns kv (es_cmds st0 c)" using exec_refines_kv [OF k(2) f] t cc by simp
  then obtain ns' b where n: "es_storage st' = Some ns'" "kv_holds ns' (fst (kv_exec (es_cmds st0 c) b kv))"
      "reply_shows cmd' (snd (kv_exec (es_cmds st0 c) b kv))"
    using x unfolding runs_as_kv_def k(1) cc by auto
  have "kv_replay (es_cmds st0) (room(c := b)) (es_completed st) Map.empty = (kv, reps)"
    using k(3) kv_replay_cong [of "es_completed st" room "room(c := b)"] c by (metis fun_upd_other)
  then have r: "kv_replay (es_cmds st0) (room(c := b)) (es_completed st') Map.empty =
      (fst (kv_exec (es_cmds st0 c) b kv), reps @ [(c, snd (kv_exec (es_cmds st0 c) b kv))])"
    by (simp add: st'(2) kv_replay_snoc split_beta)
  have "set (map fst reps) = set (es_completed st)" using kv_replay_fst [of "es_cmds st0" room "es_completed st" Map.empty] k(3) by simp
  then have "\<forall>(d, rep) \<in> set reps. d \<noteq> c" using c by force
  then have "\<forall>(d, rep) \<in> set (reps @ [(c, snd (kv_exec (es_cmds st0 c) b kv))]). reply_shows (es_cmds st' d) rep"
    using k(4) n(3) by (auto simp: st'(1))
  moreover have "\<forall>d. d \<notin> set (es_completed st') \<longrightarrow> es_cmds st' d = es_cmds st0 d" using same by (simp add: st')
  ultimately show ?thesis unfolding kv_inv_def using n(1,2) r by blast
qed

lemma run_fits: "engine_run st0 key st sent \<Longrightarrow> c \<in> set sent \<Longrightarrow> cmd_fits (es_cmds st0 c) (key c)"
  by (induction rule: engine_run.induct) auto

lemma engine_run_kv:
  assumes "engine_run st0 key st sent" "engine_fresh st0"
  shows "kv_inv st0 st"
  using assms
proof (induction rule: engine_run.induct)
  case eng_start
  then show ?case by (rule kv_inv_start)
next
  case (eng_dispatch st sent c)
  then show ?case by (simp add: kv_inv_def)
next
  case (eng_work st sent i e st')
  have inv: "kv_inv st0 st" using eng_work by blast
  obtain pend where p: "mq_rep (w_cmd_queue (eng_workers (es_engine st) ! i)) (map Node pend)"
      "\<And>c. c \<in> set pend \<Longrightarrow> c \<in> set sent \<and> c \<notin> set (es_completed st)"
    using waiting [OF engine_run_order [OF eng_work.hyps(1) eng_work.prems] eng_work.hyps(2)] by blast
  from eng_work.hyps(4) p(1) eng_work.hyps(2) show ?case
  proof (cases rule: worker_step_cases)
    case (exec c ps cmd' hit)
    then have c: "c \<in> set sent" "c \<notin> set (es_completed st)" using p(2) by simp_all
    show ?thesis by (rule kv_inv_exec [OF inv c(2) run_fits [OF eng_work.hyps(1) c(1)] exec(2-5)])
  qed (use inv in \<open>simp_all add: kv_inv_def\<close>)
qed

text \<open>A worker is never stuck on a command: no step reads or writes where it must not.\<close>

lemma worker_step_some:
  assumes run: "engine_run st0 key st sent" "engine_fresh st0" and i: "i < length (eng_workers (es_engine st))"
  shows "worker_step e i st \<noteq> None"
proof -
  let ?q = "w_cmd_queue (eng_workers (es_engine st) ! i)"
  obtain pend where p: "mq_rep ?q (map Node pend)" "\<And>c. c \<in> set pend \<Longrightarrow> c \<in> set sent \<and> c \<notin> set (es_completed st)"
    using waiting [OF engine_run_order [OF run] i] by blast
  show ?thesis
  proof (cases pend)
    case Nil
    then have "snd (mpsc_dequeue ?q) = None" using mq.rep_deq_empty [of ?q] p(1) by simp
    then show ?thesis by (cases "mpsc_dequeue ?q") (simp add: worker_step_def Let_def)
  next
    case (Cons c ps)
    obtain q' where m: "mpsc_dequeue ?q = (q', Some (Node c))"
      using mq.rep_deq [of ?q "Node c" "map Node ps"] p(1) Cons by (cases "mpsc_dequeue ?q") simp
    have c: "c \<in> set sent" "c \<notin> set (es_completed st)" using p(2) [of c] Cons by simp_all
    obtain ns kv where k: "es_storage st = Some ns" "kv_holds ns kv" "es_cmds st c = es_cmds st0 c"
      using engine_run_kv [OF run] c(2) unfolding kv_inv_def by blast
    have "exec_cmd e (es_storage st) (es_cmds st c) \<noteq> None" if "cmd_type (es_cmds st c) \<noteq> NEX_CMD_SHUTDOWN"
      using exec_refines_kv [OF k(2) run_fits [OF run(1) c(1)], of e] that by (auto simp: k runs_as_kv_def)
    then show ?thesis by (simp add: worker_step_def Let_def m)
  qed
qed


text \<open>A GET of an absent key, dispatched and run.\<close>

lemma sample_served:
  obtains st0 st where "engine_run st0 (\<lambda>c. Some [107]) st [7]" "engine_fresh st0" "es_cmds st0 7 = sample_get" "es_completed st = [7]"
proof -
  obtain st0 :: "NexSegcache engine_state" where f: "engine_fresh st0" "es_cmds st0 = (\<lambda>c. sample_get)" "es_completed st0 = []"
      "length (eng_workers (es_engine st0)) = 1" "w_running (eng_workers (es_engine st0) ! 0)" by (rule sample_engine)
  let ?st = "st0\<lparr>es_engine := fst (engine_dispatch_cmd (es_engine st0) 7 (Some [107]))\<rparr>"
  have "cmd_fits sample_get (Some [107])" by (simp add: cmd_fits_def sample_get_def str_def)
  then have r: "engine_run st0 (\<lambda>c. Some [107]) ?st [7]" using eng_dispatch [OF eng_start [of st0 "\<lambda>c. Some [107]"], of 7] f(2) by simp
  have z: "engine_worker_for_key (es_engine st0) k = 0" for k using worker_for_key_less [of "es_engine st0" k] f(4) by simp
  then have w: "length (eng_workers (es_engine ?st)) = 1" "w_running (eng_workers (es_engine ?st) ! 0)"
    using f(4,5) by (simp_all add: engine_dispatch_cmd_def Let_def)
  obtain taken pend where t: "mq_rep (w_cmd_queue (eng_workers (es_engine ?st) ! 0)) (map Node pend)" "taken @ pend = [7]"
      "filter (\<lambda>c. cmd_type (es_cmds st0 c) \<noteq> NEX_CMD_SHUTDOWN) taken = []"
    using engine_run_order [OF r f(1)] f(3,4) z unfolding order_inv_def by auto
  have p: "pend = [7]" using t(2,3) f(2) by (cases taken) (auto simp: sample_get_def)
  obtain st where s: "worker_step (sample_env 5) 0 ?st = Some st" using worker_step_some [OF r f(1), of 0 "sample_env 5"] unfolding w(1) by fastforce
  have "engine_run st0 (\<lambda>c. Some [107]) st [7]" using eng_work [OF r _ w(2) s] unfolding w(1) by simp
  moreover have "es_completed st = [7]"
    by (rule worker_step_cases [OF s t(1)]) (use p w(1) f(2,3) in \<open>simp_all add: sample_get_def\<close>)
  ultimately show thesis using that f(1,2) by simp
qed


end
