(* ===== verification/Nex_Timeseries.thy ===== *)
theory Nex_Timeseries
  imports Nex_Prelude
begin

text \<open>
  The time series of \<open>timeseries/nexts.c\<close>: samples in chunks of 128, with removal of chunks that are older than the
  retention time, range queries and aggregates.

  The list of chunks is a list, the samples of a chunk are the filled part of its array.  The arithmetic on \<open>double\<close> values is
  a record of operations.  Timestamps are integers; a cutoff outside the range of \<open>int64_t\<close> and a write through a null
  pointer have no result.  The fields \<open>last\<close>, \<open>last_delta\<close> and \<open>size\<close> are never read and are left out.
\<close>

subsection \<open>State\<close>

record 'v NexSample =
  sm_timestamp :: int
  sm_value :: 'v

record 'v NexTSChunk =
  tc_start_time :: int
  tc_end_time :: int
  tc_samples :: "'v NexSample list"

record 'v NexTS =
  ts_chunks :: "'v NexTSChunk list"
  ts_total_samples :: u64
  ts_retention_ms :: int

datatype NexTSAggType = TS_AGG_AVG | TS_AGG_SUM | TS_AGG_MIN | TS_AGG_MAX | TS_AGG_COUNT

record 'v fl_ops =
  fl_zero :: 'v
  fl_add :: "'v \<Rightarrow> 'v \<Rightarrow> 'v"
  fl_less :: "'v \<Rightarrow> 'v \<Rightarrow> bool"
  fl_div :: "'v \<Rightarrow> 'v \<Rightarrow> 'v"
  fl_of :: "u64 \<Rightarrow> 'v"

definition CHUNK_MAX_SAMPLES :: nat where
  "CHUNK_MAX_SAMPLES = 128"

definition int64 :: "int \<Rightarrow> bool" where
  "int64 x \<longleftrightarrow> - (2 ^ 63) \<le> x \<and> x < 2 ^ 63"

subsection \<open>Adding samples\<close>

definition nexts_create :: "bool \<Rightarrow> int \<Rightarrow> 'v NexTS option" where
  "nexts_create calloc_ok retention_ms =
     (if calloc_ok then Some \<lparr>ts_chunks = [], ts_total_samples = 0, ts_retention_ms = retention_ms\<rparr> else None)"

fun drop_dead :: "int \<Rightarrow> 'v NexTSChunk list \<Rightarrow> u64 \<Rightarrow> 'v NexTSChunk list \<times> u64" where
  "drop_dead cutoff [] total_samples = ([], total_samples)"
| "drop_dead cutoff (c # cs) total_samples =
     (if tc_end_time c < cutoff then drop_dead cutoff cs (total_samples - of_nat (length (tc_samples c))) else (c # cs, total_samples))"

definition nexts_apply_retention :: "'v NexTS \<Rightarrow> int \<Rightarrow> 'v NexTS option" where
  "nexts_apply_retention ts now_ts =
     (if ts_retention_ms ts \<le> 0 then Some ts
      else let cutoff = now_ts - ts_retention_ms ts
           in if \<not> int64 cutoff then None
              else case drop_dead cutoff (ts_chunks ts) (ts_total_samples ts) of
                     (cs, total_samples) \<Rightarrow> Some (ts\<lparr>ts_chunks := cs, ts_total_samples := total_samples\<rparr>))"

definition chunk_create :: "bool \<Rightarrow> int \<Rightarrow> 'v NexTSChunk option" where
  "chunk_create calloc_ok start_time = (if calloc_ok then Some \<lparr>tc_start_time = start_time, tc_end_time = 0, tc_samples = []\<rparr> else None)"

text \<open>Writing a sample behind the others of the last chunk.\<close>

definition chunk_put :: "'v NexTSChunk \<Rightarrow> int \<Rightarrow> 'v \<Rightarrow> 'v NexTSChunk" where
  "chunk_put c timestamp v = c\<lparr>tc_samples := tc_samples c @ [\<lparr>sm_timestamp = timestamp, sm_value = v\<rparr>], tc_end_time := timestamp\<rparr>"

text \<open>\<open>data_ok\<close>: whether the array of a new chunk can be allocated, which the code does not test.\<close>

definition nexts_add :: "bool \<Rightarrow> bool \<Rightarrow> 'v NexTS \<Rightarrow> int \<Rightarrow> 'v \<Rightarrow> ('v NexTS \<times> int) option" where
  "nexts_add calloc_ok data_ok ts timestamp v =
     (case nexts_apply_retention ts timestamp of
        None \<Rightarrow> None
      | Some ts1 \<Rightarrow>
          let cs = ts_chunks ts1; total_samples = ts_total_samples ts1 + 1
          in if cs = [] \<or> length (tc_samples (last cs)) \<ge> CHUNK_MAX_SAMPLES
             then case chunk_create calloc_ok timestamp of
                    None \<Rightarrow> Some (ts1, - 1)
                  | Some c \<Rightarrow>
                      if data_ok then Some (ts1\<lparr>ts_chunks := cs @ [chunk_put c timestamp v], ts_total_samples := total_samples\<rparr>, 0) else None
             else Some (ts1\<lparr>ts_chunks := butlast cs @ [chunk_put (last cs) timestamp v], ts_total_samples := total_samples\<rparr>, 0))"

subsection \<open>Queries\<close>

fun query_samples :: "int \<Rightarrow> int \<Rightarrow> nat \<Rightarrow> 'v NexSample list \<Rightarrow> 'v NexSample list \<Rightarrow> 'v NexSample list" where
  "query_samples start stop max_out res [] = res"
| "query_samples start stop max_out res (s # ss) =
     (if length res < max_out
      then query_samples start stop max_out (if sm_timestamp s \<ge> start \<and> sm_timestamp s \<le> stop then res @ [s] else res) ss
      else res)"

fun query_chunks :: "int \<Rightarrow> int \<Rightarrow> nat \<Rightarrow> 'v NexSample list \<Rightarrow> 'v NexTSChunk list \<Rightarrow> 'v NexSample list" where
  "query_chunks start stop max_out res [] = res"
| "query_chunks start stop max_out res (c # cs) =
     (if \<not> length res < max_out then res
      else if tc_end_time c < start then query_chunks start stop max_out res cs
      else if tc_start_time c > stop then res
      else query_chunks start stop max_out (query_samples start stop max_out res (tc_samples c)) cs)"

definition nexts_query :: "bool \<Rightarrow> 'v NexTS \<Rightarrow> int \<Rightarrow> int \<Rightarrow> 'v NexSample list option" where
  "nexts_query malloc_ok ts start stop =
     (let max_out = (if ts_total_samples ts < 1000 then unat (ts_total_samples ts) else 1000);
          res = query_chunks start stop max_out [] (ts_chunks ts)
      in if malloc_ok \<or> res = [] then Some res else None)"

record 'v agg_state =
  ag_sum :: 'v
  ag_min :: 'v
  ag_max :: 'v
  ag_count :: u64

definition agg_sample :: "'v fl_ops \<Rightarrow> int \<Rightarrow> int \<Rightarrow> 'v agg_state \<Rightarrow> 'v NexSample \<Rightarrow> 'v agg_state" where
  "agg_sample ops start stop a s =
     (let t = sm_timestamp s; v = sm_value s
      in if t < start \<or> t > stop then a
         else \<lparr>ag_sum = fl_add ops (ag_sum a) v,
               ag_min = (if ag_count a = 0 then v else if fl_less ops v (ag_min a) then v else ag_min a),
               ag_max = (if ag_count a = 0 then v else if fl_less ops (ag_max a) v then v else ag_max a),
               ag_count = ag_count a + 1\<rparr>)"

fun agg_chunks :: "'v fl_ops \<Rightarrow> int \<Rightarrow> int \<Rightarrow> 'v agg_state \<Rightarrow> 'v NexTSChunk list \<Rightarrow> 'v agg_state" where
  "agg_chunks ops start stop a [] = a"
| "agg_chunks ops start stop a (c # cs) =
     (if tc_end_time c < start then agg_chunks ops start stop a cs
      else if tc_start_time c > stop then a
      else agg_chunks ops start stop (foldl (agg_sample ops start stop) a (tc_samples c)) cs)"

definition nexts_aggregate :: "'v fl_ops \<Rightarrow> 'v NexTS \<Rightarrow> int \<Rightarrow> int \<Rightarrow> NexTSAggType \<Rightarrow> 'v" where
  "nexts_aggregate ops ts start stop type =
     (let a = agg_chunks ops start stop \<lparr>ag_sum = fl_zero ops, ag_min = fl_zero ops, ag_max = fl_zero ops, ag_count = 0\<rparr> (ts_chunks ts)
      in if ag_count a = 0 then fl_zero ops
         else case type of
                TS_AGG_SUM \<Rightarrow> ag_sum a
              | TS_AGG_MIN \<Rightarrow> ag_min a
              | TS_AGG_MAX \<Rightarrow> ag_max a
              | TS_AGG_COUNT \<Rightarrow> fl_of ops (ag_count a)
              | TS_AGG_AVG \<Rightarrow> fl_div ops (ag_sum a) (fl_of ops (ag_count a)))"

subsection \<open>The chunks of an ordered series\<close>

definition ts_samples :: "'v NexTSChunk list \<Rightarrow> 'v NexSample list" where
  "ts_samples cs = concat (map tc_samples cs)"

definition chunk_ok :: "'v NexTSChunk \<Rightarrow> bool" where
  "chunk_ok c \<longleftrightarrow> tc_samples c \<noteq> [] \<and> tc_start_time c = sm_timestamp (hd (tc_samples c)) \<and> tc_end_time c = sm_timestamp (last (tc_samples c))"

definition chunks_ok :: "'v NexTSChunk list \<Rightarrow> bool" where
  "chunks_ok cs \<longleftrightarrow> list_all chunk_ok cs \<and> sorted (map sm_timestamp (ts_samples cs))"

lemma ts_samples_simps [simp]: "ts_samples [] = []" "ts_samples (c # cs) = tc_samples c @ ts_samples cs" "ts_samples (cs @ ds) = ts_samples cs @ ts_samples ds"
  by (simp_all add: ts_samples_def)

lemma sorted_map_last: "sorted (map f xs) \<Longrightarrow> x \<in> set xs \<Longrightarrow> f x \<le> f (last xs)"
  by (induction xs) auto

lemma sorted_map_hd: "sorted (map f xs) \<Longrightarrow> x \<in> set xs \<Longrightarrow> f (hd xs) \<le> f x"
  by (cases xs) auto

lemma chunk_bounds:
  assumes "chunks_ok (c # cs)"
  shows "s \<in> set (tc_samples c) \<Longrightarrow> sm_timestamp s \<le> tc_end_time c" "s \<in> set (ts_samples (c # cs)) \<Longrightarrow> tc_start_time c \<le> sm_timestamp s" "chunks_ok cs"
proof -
  have o: "tc_samples c \<noteq> []" "tc_start_time c = sm_timestamp (hd (tc_samples c))" "tc_end_time c = sm_timestamp (last (tc_samples c))"
    and so: "sorted (map sm_timestamp (tc_samples c))" "sorted (map sm_timestamp (ts_samples (c # cs)))" "chunks_ok cs"
    using assms by (auto simp: chunks_ok_def chunk_ok_def sorted_append)
  show "chunks_ok cs" by (rule so(3))
  show "s \<in> set (tc_samples c) \<Longrightarrow> sm_timestamp s \<le> tc_end_time c" using sorted_map_last [OF so(1)] o(3) by simp
  have "hd (ts_samples (c # cs)) = hd (tc_samples c)" using o(1) by simp
  then show "s \<in> set (ts_samples (c # cs)) \<Longrightarrow> tc_start_time c \<le> sm_timestamp s" using sorted_map_hd [OF so(2)] o(2) by metis
qed

text \<open>Skipping and stopping at chunks loses nothing.\<close>

abbreviation in_range :: "int \<Rightarrow> int \<Rightarrow> 'v NexSample \<Rightarrow> bool" where
  "in_range start stop s \<equiv> sm_timestamp s \<ge> start \<and> sm_timestamp s \<le> stop"

lemma chunk_skip: "chunks_ok (c # cs) \<Longrightarrow> tc_end_time c < start \<Longrightarrow> filter (in_range start stop) (tc_samples c) = []"
  using chunk_bounds(1) by (fastforce simp: filter_empty_conv)

lemma chunk_stop: "chunks_ok (c # cs) \<Longrightarrow> tc_start_time c > stop \<Longrightarrow> filter (in_range start stop) (ts_samples (c # cs)) = []"
  using chunk_bounds(2) by (fastforce simp: filter_empty_conv)

lemma query_samples_take:
  "length res \<le> m \<Longrightarrow> query_samples start stop m res ss = take m (res @ filter (in_range start stop) ss)"
  by (induction ss arbitrary: res) (auto simp: take_Cons')

lemma take_take_append: "take m (take m xs @ ys) = take m (xs @ ys)"
  by (cases "length xs \<le> m") simp_all

lemma query_chunks_take:
  "chunks_ok cs \<Longrightarrow> length res \<le> m \<Longrightarrow> query_chunks start stop m res cs = take m (res @ filter (in_range start stop) (ts_samples cs))"
proof (induction cs arbitrary: res)
  case (Cons c cs)
  note ok = chunk_bounds(3) [OF Cons.prems(1)]
  consider (full) "\<not> length res < m" | (skip) "length res < m" "tc_end_time c < start"
    | (stop) "length res < m" "\<not> tc_end_time c < start" "tc_start_time c > stop"
    | (look) "length res < m" "\<not> tc_end_time c < start" "\<not> tc_start_time c > stop" by blast
  then show ?case
  proof cases
    case full
    then show ?thesis using Cons.prems(2) by simp
  next
    case skip
    then show ?thesis using Cons.IH [OF ok] chunk_skip [OF Cons.prems(1) skip(2)] by simp
  next
    case stop
    then show ?thesis using chunk_stop [OF Cons.prems(1) stop(3), of start] by simp
  next
    case look
    have q: "query_samples start stop m res (tc_samples c) = take m (res @ filter (in_range start stop) (tc_samples c))"
      using query_samples_take Cons.prems(2) by blast
    have "query_chunks start stop m res (c # cs) = query_chunks start stop m (query_samples start stop m res (tc_samples c)) cs" using look by simp
    also have "\<dots> = take m (query_samples start stop m res (tc_samples c) @ filter (in_range start stop) (ts_samples cs))"
      by (rule Cons.IH [OF ok]) (simp add: q)
    finally show ?thesis unfolding q take_take_append by simp
  qed
qed simp

lemma agg_chunks_filter:
  "chunks_ok cs \<Longrightarrow> agg_chunks ops start stop a cs = foldl (agg_sample ops start stop) a (filter (in_range start stop) (ts_samples cs))"
proof (induction cs arbitrary: a)
  case (Cons c cs)
  note ok = chunk_bounds(3) [OF Cons.prems]
  have out: "foldl (agg_sample ops start stop) a ss = foldl (agg_sample ops start stop) a (filter (in_range start stop) ss)" for a ss
    by (induction ss arbitrary: a) (auto simp: agg_sample_def)
  show ?case
    using Cons.IH [OF ok] chunk_skip [OF Cons.prems, of start stop] chunk_stop [OF Cons.prems, of stop start] out [of _ "tc_samples c"] by auto
qed simp

subsection \<open>Runs\<close>

text \<open>
  A series whose samples arrive in the order of their timestamps: \<open>now\<close> is the latest timestamp seen, \<open>hist\<close> the samples
  that were added.  An addition that fails still removes old chunks.
\<close>

inductive ts_run :: "int \<Rightarrow> int \<Rightarrow> 'v NexSample list \<Rightarrow> 'v NexTS \<Rightarrow> bool" for ret where
  ts_new: "nexts_create True ret = Some ts \<Longrightarrow> ts_run ret now [] ts"
| ts_add: "ts_run ret now hist ts \<Longrightarrow> now \<le> t \<Longrightarrow> nexts_add calloc_ok data_ok ts t v = Some (ts', 0) \<Longrightarrow>
    ts_run ret t (hist @ [\<lparr>sm_timestamp = t, sm_value = v\<rparr>]) ts'"
| ts_fail: "ts_run ret now hist ts \<Longrightarrow> now \<le> t \<Longrightarrow> nexts_add calloc_ok data_ok ts t v = Some (ts', - 1) \<Longrightarrow> ts_run ret t hist ts'"

definition ts_inv :: "int \<Rightarrow> int \<Rightarrow> 'v NexSample list \<Rightarrow> 'v NexTS \<Rightarrow> bool" where
  "ts_inv ret now hist ts \<longleftrightarrow> ts_retention_ms ts = ret \<and> chunks_ok (ts_chunks ts) \<and> ts_total_samples ts = of_nat (length (ts_samples (ts_chunks ts))) \<and>
     (\<forall>s \<in> set hist. sm_timestamp s \<le> now) \<and>
     (\<exists>old. hist = old @ ts_samples (ts_chunks ts) \<and> (\<forall>s \<in> set old. 0 < ret \<and> sm_timestamp s < now - ret))"

lemma drop_dead_split:
  "chunks_ok cs \<Longrightarrow> drop_dead cutoff cs n = (cs', n') \<Longrightarrow> \<exists>ds. cs = ds @ cs' \<and> chunks_ok cs' \<and> n' = n - of_nat (length (ts_samples ds)) \<and>
     (\<forall>s \<in> set (ts_samples ds). sm_timestamp s < cutoff)"
proof (induction cs arbitrary: n)
  case (Cons c cs)
  note b = chunk_bounds [OF Cons.prems(1)]
  show ?case
  proof (cases "tc_end_time c < cutoff")
    case True
    then obtain ds where d: "cs = ds @ cs'" "chunks_ok cs'" "n' = n - of_nat (length (tc_samples c)) - of_nat (length (ts_samples ds))"
        "\<forall>s \<in> set (ts_samples ds). sm_timestamp s < cutoff"
      using Cons.IH [OF b(3), of "n - of_nat (length (tc_samples c))"] Cons.prems(2) by auto
    have "\<forall>s \<in> set (tc_samples c). sm_timestamp s < cutoff" using b(1) True by fastforce
    then show ?thesis using d by (intro exI [of _ "c # ds"]) (auto simp: diff_diff_eq)
  next
    case False
    then show ?thesis using Cons.prems by (intro exI [of _ "[]"]) auto
  qed
qed (simp add: chunks_ok_def)

lemma retention_inv:
  assumes inv: "ts_inv ret now hist ts" and t: "now \<le> t" and r: "nexts_apply_retention ts t = Some ts1"
  shows "ts_inv ret t hist ts1"
proof (cases "ret \<le> 0")
  case True
  then show ?thesis using inv t r by (fastforce simp: ts_inv_def nexts_apply_retention_def)
next
  case False
  have i: "ts_retention_ms ts = ret" "chunks_ok (ts_chunks ts)" "ts_total_samples ts = of_nat (length (ts_samples (ts_chunks ts)))"
      "\<forall>s \<in> set hist. sm_timestamp s \<le> now" using inv by (simp_all add: ts_inv_def)
  obtain old where o: "hist = old @ ts_samples (ts_chunks ts)" "\<forall>s \<in> set old. sm_timestamp s < now - ret" using inv by (auto simp: ts_inv_def)
  obtain cs n where d: "drop_dead (t - ret) (ts_chunks ts) (ts_total_samples ts) = (cs, n)" by fastforce
  then have ts1: "ts1 = ts\<lparr>ts_chunks := cs, ts_total_samples := n\<rparr>"
    using r False i(1) by (auto simp: nexts_apply_retention_def Let_def split: if_splits)
  obtain ds where s: "ts_chunks ts = ds @ cs" "chunks_ok cs" "n = ts_total_samples ts - of_nat (length (ts_samples ds))"
      "\<forall>s \<in> set (ts_samples ds). sm_timestamp s < t - ret" using drop_dead_split [OF i(2) d] by blast
  have "hist = (old @ ts_samples ds) @ ts_samples cs" "\<forall>x \<in> set (old @ ts_samples ds). 0 < ret \<and> sm_timestamp x < t - ret"
    using o s(1,4) t False by auto
  moreover have "n = of_nat (length (ts_samples cs))" using s(1,3) i(3) by simp
  moreover have "\<forall>s \<in> set hist. sm_timestamp s \<le> t" using i(4) t by fastforce
  ultimately show ?thesis using i(1) s(2) unfolding ts_inv_def ts1 by auto
qed

lemma put_inv:
  assumes inv: "ts_inv ret t hist ts" and cs: "ts_chunks ts = cs @ ds" and c: "ts_samples [c] = ts_samples ds" "chunk_ok (chunk_put c t v)"
  shows "ts_inv ret t (hist @ [\<lparr>sm_timestamp = t, sm_value = v\<rparr>]) (ts\<lparr>ts_chunks := cs @ [chunk_put c t v], ts_total_samples := ts_total_samples ts + 1\<rparr>)"
proof -
  have k: "ts_samples (cs @ [chunk_put c t v]) = ts_samples (ts_chunks ts) @ [\<lparr>sm_timestamp = t, sm_value = v\<rparr>]"
    using cs c(1) by (simp add: chunk_put_def)
  obtain old where o: "hist = old @ ts_samples (ts_chunks ts)" "\<forall>s \<in> set old. 0 < ret \<and> sm_timestamp s < t - ret" using inv by (auto simp: ts_inv_def)
  have le: "\<forall>s \<in> set hist. sm_timestamp s \<le> t" using inv by (simp add: ts_inv_def)
  have "chunks_ok (cs @ [chunk_put c t v])"
    using inv cs c(2) le o(1) unfolding chunks_ok_def k by (auto simp: ts_inv_def chunks_ok_def sorted_append)
  then show ?thesis using inv o le k by (auto simp: ts_inv_def)
qed

lemma add_inv:
  assumes inv: "ts_inv ret now hist ts" and t: "now \<le> t" and a: "nexts_add calloc_ok data_ok ts t v = Some (ts', r)"
  shows "ts_inv ret t (if r = 0 then hist @ [\<lparr>sm_timestamp = t, sm_value = v\<rparr>] else hist) ts'"
proof -
  obtain ts1 where r: "nexts_apply_retention ts t = Some ts1" using a by (auto simp: nexts_add_def split: option.splits)
  note i = retention_inv [OF inv t r]
  let ?cs = "ts_chunks ts1"
  show ?thesis
  proof (cases "?cs = [] \<or> length (tc_samples (last ?cs)) \<ge> CHUNK_MAX_SAMPLES")
    case True
    let ?c = "\<lparr>tc_start_time = t, tc_end_time = 0, tc_samples = []\<rparr>"
    have "ts_inv ret t (hist @ [\<lparr>sm_timestamp = t, sm_value = v\<rparr>]) (ts1\<lparr>ts_chunks := ?cs @ [chunk_put ?c t v], ts_total_samples := ts_total_samples ts1 + 1\<rparr>)"
      by (rule put_inv [OF i, of _ "[]"]) (simp_all add: chunk_ok_def chunk_put_def)
    then show ?thesis using a r True i by (auto simp: nexts_add_def chunk_create_def Let_def split: if_splits)
  next
    case False
    then have l: "?cs = butlast ?cs @ [last ?cs]" by simp
    have "chunk_ok (last ?cs)" using i False by (auto simp: ts_inv_def chunks_ok_def list_all_iff)
    then have "chunk_ok (chunk_put (last ?cs) t v)" by (simp add: chunk_ok_def chunk_put_def)
    then show ?thesis using put_inv [OF i l] a r False by (auto simp: nexts_add_def Let_def)
  qed
qed

lemma ts_run_inv: "ts_run ret now hist ts \<Longrightarrow> ts_inv ret now hist ts"
proof (induction rule: ts_run.induct)
  case (ts_new ts now)
  then show ?case by (auto simp: ts_inv_def nexts_create_def chunks_ok_def)
next
  case (ts_add now hist ts t calloc_ok data_ok v ts')
  then show ?case using add_inv [of ret now hist ts t calloc_ok data_ok v ts' 0] by simp
next
  case (ts_fail now hist ts t calloc_ok data_ok v ts')
  then show ?case using add_inv [of ret now hist ts t calloc_ok data_ok v ts' "- 1"] by simp
qed

subsection \<open>What queries return\<close>

definition agg_spec :: "'v fl_ops \<Rightarrow> NexTSAggType \<Rightarrow> 'v list \<Rightarrow> 'v" where
  "agg_spec ops type vs =
     (if vs = [] then fl_zero ops
      else case type of
             TS_AGG_SUM \<Rightarrow> foldl (fl_add ops) (fl_zero ops) vs
           | TS_AGG_MIN \<Rightarrow> foldl (\<lambda>m v. if fl_less ops v m then v else m) (hd vs) (tl vs)
           | TS_AGG_MAX \<Rightarrow> foldl (\<lambda>m v. if fl_less ops m v then v else m) (hd vs) (tl vs)
           | TS_AGG_COUNT \<Rightarrow> fl_of ops (of_nat (length vs))
           | TS_AGG_AVG \<Rightarrow> fl_div ops (foldl (fl_add ops) (fl_zero ops) vs) (fl_of ops (of_nat (length vs))))"

lemma of_nat_u64_0: "n < 2 ^ 64 \<Longrightarrow> (of_nat n :: u64) = 0 \<longleftrightarrow> n = 0"
proof -
  assume "n < 2 ^ 64"
  then have u: "unat (of_nat n :: u64) = n" by (intro unat_of_nat_eq) simp
  show ?thesis unfolding unat_eq_zero [symmetric] u ..
qed

lemma agg_fold:
  "(\<forall>s \<in> set ss. in_range start stop s) \<Longrightarrow> length ss < 2 ^ 64 \<Longrightarrow> vs = map sm_value ss \<Longrightarrow>
   foldl (agg_sample ops start stop) \<lparr>ag_sum = fl_zero ops, ag_min = fl_zero ops, ag_max = fl_zero ops, ag_count = 0\<rparr> ss =
     \<lparr>ag_sum = foldl (fl_add ops) (fl_zero ops) vs,
      ag_min = (if vs = [] then fl_zero ops else foldl (\<lambda>m v. if fl_less ops v m then v else m) (hd vs) (tl vs)),
      ag_max = (if vs = [] then fl_zero ops else foldl (\<lambda>m v. if fl_less ops m v then v else m) (hd vs) (tl vs)),
      ag_count = of_nat (length vs)\<rparr>"
proof (induction ss arbitrary: vs rule: rev_induct)
  case (snoc s ss)
  have z: "(of_nat (length ss) :: u64) = 0 \<longleftrightarrow> ss = []" using of_nat_u64_0 [of "length ss"] snoc.prems(2) by simp
  note ih = snoc.IH [OF _ _ refl]
  show ?case
  proof (cases "ss = []")
    case True
    then show ?thesis using snoc.prems by (simp add: agg_sample_def Let_def)
  next
    case False
    then show ?thesis using snoc.prems ih z by (simp add: agg_sample_def Let_def not_less)
  qed
qed simp

text \<open>
  C19. In a series whose samples arrive in the order of their timestamps, what is no longer held is older than the retention time, and
  queries answer as if the held samples were one list: a range query returns the first 1000 samples of the range and an
  aggregate is that of all samples of the range, although both skip chunks by their bounds.
\<close>

theorem nexts_query_exact:
  assumes "ts_run ret now hist ts" and "length hist < 2 ^ 64"
  shows "\<exists>old kept. hist = old @ kept \<and> (\<forall>s \<in> set old. 0 < ret \<and> sm_timestamp s < now - ret) \<and>
    (\<forall>start stop. nexts_query True ts start stop = Some (take 1000 (filter (\<lambda>s. start \<le> sm_timestamp s \<and> sm_timestamp s \<le> stop) kept)) \<and>
       (\<forall>ops type. nexts_aggregate ops ts start stop type =
          agg_spec ops type (map sm_value (filter (\<lambda>s. start \<le> sm_timestamp s \<and> sm_timestamp s \<le> stop) kept))))"
proof -
  let ?kept = "ts_samples (ts_chunks ts)"
  obtain old where o: "hist = old @ ?kept" "\<forall>s \<in> set old. 0 < ret \<and> sm_timestamp s < now - ret"
    and ok: "chunks_ok (ts_chunks ts)" and n: "ts_total_samples ts = of_nat (length ?kept)"
    using ts_run_inv [OF assms(1)] by (auto simp: ts_inv_def)
  have l: "length ?kept < 2 ^ 64" using assms(2) o(1) by simp
  then have u: "unat (ts_total_samples ts) = length ?kept" unfolding n by (intro unat_of_nat_eq) simp
  have "nexts_query True ts start stop = Some (take 1000 (filter (in_range start stop) ?kept))" for start stop
  proof -
    define m where "m = (if ts_total_samples ts < 1000 then unat (ts_total_samples ts) else 1000)"
    have "m = min (length ?kept) 1000" by (simp add: m_def word_less_nat_alt u)
    then have "take m (filter (in_range start stop) ?kept) = take 1000 (take (length ?kept) (filter (in_range start stop) ?kept))"
      by (simp only: take_take min.commute)
    also have "take (length ?kept) (filter (in_range start stop) ?kept) = filter (in_range start stop) ?kept" by simp
    finally have "take m (filter (in_range start stop) ?kept) = take 1000 (filter (in_range start stop) ?kept)" .
    then show ?thesis using query_chunks_take [OF ok, of "[]" m start stop] by (simp add: nexts_query_def m_def [symmetric])
  qed
  moreover have "nexts_aggregate ops ts start stop type = agg_spec ops type (map sm_value (filter (in_range start stop) ?kept))" for ops start stop type
  proof -
    let ?f = "filter (in_range start stop) ?kept"
    have f: "length ?f < 2 ^ 64" using l length_filter_le [of "in_range start stop" ?kept] by linarith
    then show ?thesis unfolding nexts_aggregate_def agg_chunks_filter [OF ok] agg_spec_def
      by (subst agg_fold [OF _ f refl]) (simp_all add: Let_def of_nat_u64_0 [OF f] split: NexTSAggType.splits)
  qed
  ultimately show ?thesis using o by blast
qed

definition sample_series :: "int NexTS" where
  "sample_series = \<lparr>ts_chunks = [chunk_put \<lparr>tc_start_time = 5, tc_end_time = 0, tc_samples = []\<rparr> 5 7], ts_total_samples = 1, ts_retention_ms = 10\<rparr>"

theorem nexts_query_exact_witness:
  "ts_run 10 5 [\<lparr>sm_timestamp = 5, sm_value = 7\<rparr>] sample_series \<and> nexts_query True sample_series 0 9 = Some [\<lparr>sm_timestamp = 5, sm_value = 7\<rparr>]"
proof -
  have a: "nexts_add True True \<lparr>ts_chunks = [], ts_total_samples = 0, ts_retention_ms = 10\<rparr> 5 7 = Some (sample_series, 0)"
    by (simp add: nexts_add_def nexts_apply_retention_def chunk_create_def int64_def sample_series_def)
  have z: "ts_run 10 5 [] (\<lparr>ts_chunks = [], ts_total_samples = 0, ts_retention_ms = 10\<rparr> :: int NexTS)" by (rule ts_new) (simp add: nexts_create_def)
  have r: "ts_run 10 5 [\<lparr>sm_timestamp = 5, sm_value = 7\<rparr>] sample_series" using ts_add [OF z order_refl a] by simp
  obtain old kept where k: "[\<lparr>sm_timestamp = 5, sm_value = 7 :: int\<rparr>] = old @ kept" "\<forall>s \<in> set old. sm_timestamp s < 5 - 10"
      "nexts_query True sample_series 0 9 = Some (take 1000 (filter (\<lambda>s. 0 \<le> sm_timestamp s \<and> sm_timestamp s \<le> 9) kept))"
    using nexts_query_exact [OF r] by auto
  have "old = []" using k(1,2) by (cases old) auto
  then have "kept = [\<lparr>sm_timestamp = 5, sm_value = 7\<rparr>]" using k(1) by simp
  then show ?thesis using k(3) r by simp
qed

text \<open>
  Without the order a sample inside the retention time is lost: the end of a chunk is the timestamp that was
  added last, so a late sample makes the whole chunk look old.
\<close>

lemma retention_loses_recent:
  "\<exists>ts1 ts2 ts3. nexts_add True True \<lparr>ts_chunks = [], ts_total_samples = 0, ts_retention_ms = 100\<rparr> 1000 (1 :: int) = Some (ts1, 0) \<and>
     nexts_add True True ts1 0 2 = Some (ts2, 0) \<and> nexts_add True True ts2 1001 3 = Some (ts3, 0) \<and>
     nexts_query True ts3 0 2000 = Some [\<lparr>sm_timestamp = 1001, sm_value = 3\<rparr>]"
  by (simp add: nexts_add_def nexts_apply_retention_def chunk_create_def chunk_put_def int64_def CHUNK_MAX_SAMPLES_def nexts_query_def)

end
