(* ===== verification/Spec2Isabelle.thy ===== *)
theory Spec2Isabelle
  imports Nex_Sovereign Nex_Crdt Nex_Vll Nex_Subkey_Ttl Nex_Dash_Reach Nex_Segcache_Props Nex_Mpsc Nex_Persist Nex_Websocket_Props Nex_Storage_Dual Nex_Quota_Rate Nex_Crdt_Cmd_Props Nex_Engine_Map Nex_Timeseries
begin

text \<open>
  A verification development for NexCache, a key-value server of the Redis lineage written in C.  It covers the parts that
  NexCache adds to that lineage: the storage backends and the interface in front of them, the workers that serve commands, the
  replicated data types and their commands, locks, persistence, quotas, the WebSocket endpoint, time series, and the conversions of integers
  that commands rely on.

  \<^bold>\<open>The program.\<close>  A command reaches a worker of \<open>core/engine.c\<close> through the queue of \<open>vera_lockfree.h\<close>; the worker reads
  and writes the storage through \<open>core/nexstorage.h\<close>.  That interface keeps strings in a main backend (Segcache in
  the server) and everything else in an object store (NexDash).  NexDash asks a Bloom filter before it probes; Segcache takes its segments from a
  pool that is again the queue of \<open>vera_lockfree.h\<close>; a third backend writes to a flash file.  The CRDT commands of \<open>t_hash.c\<close> update
  values in the object store by read-modify-write callbacks.  Beside this path stand the lock manager, the expiry tables for fields, the
  append-only file and the snapshots, the quotas of tenants, the speculative filter, the WebSocket endpoint and the time series.

  \<^bold>\<open>Conventions.\<close>  Structs are records, enums datatypes, unsigned integers words that wrap around, and byte arrays lists of bytes.  A function
  of the code that changes state returns the new state.  What the code learns from outside (clock readings, success of allocation, of
  thread creation, of reads and writes) is an argument.  An access outside an object, through a null pointer or to freed memory makes the result \<open>None\<close>
  wherever the code does not exclude it by a test, so that a theorem that a result exists is one of memory safety.
  Critical sections are single steps, and the locks themselves do not appear.

  \<^bold>\<open>Theories.\<close>
  \<^item> \<open>Nex_Prelude\<close>: word types, byte buffers, little-endian images, searching and removing in arrays, files.
  \<^item> \<open>Nex_Map_Spec\<close>: the locale \<open>kv_table\<close>, what a table of keys promises; a run on any instance is a run on a map.
  \<^item> \<open>Nex_Bloom\<close> (\<open>bloom/nexbloom.c\<close>) with the locale \<open>member_filter\<close>; \<open>Nex_Sovereign\<close> (\<open>sovereign.c\<close>), whose speculative filter is
    its second instance, with vitality, gardener and synaptic map.
  \<^item> \<open>Nex_Dash\<close> (\<open>hashtable/nexdash.c\<close>): directory, segments, probing, key pool, doubling, eviction, scans.  \<open>Nex_Dash_Inv\<close> and \<open>Nex_Dash_Ops\<close> have
    the invariant and the effect of each step on the multiset of entries, \<open>Nex_Dash_Props\<close> the operations as those of a map with expiry,
    \<open>Nex_Dash_Reach\<close> ownership of values and eviction over all runs.
  \<^item> \<open>Nex_Segcache\<close>, \<open>Nex_Segcache_Props\<close> (\<open>segcache/segcache.c\<close>): segments by lifetime, the index of tagged entries; sets, gets and
    deletes as those of a map until a segment expires.
  \<^item> \<open>Nex_Flash\<close> (\<open>flash/flash.c\<close>): records in a file, their index, the co-access graph.
  \<^item> \<open>Nex_Storage\<close> (\<open>core/nexstorage.c\<close>, \<open>core/nexstorage.h\<close>): the adapters, with the blocks of the NexDash adapter in an explicit heap, the factory and the routing.
    \<open>Nex_Storage_Props\<close> shows that no block is used after it was freed, freed twice or lost.  \<open>Nex_Storage_Dual\<close> has the locale \<open>storage_backend\<close>, its instances
    NexDash and Segcache, and what a client of both stores sees.
  \<^item> \<open>Nex_Mpsc\<close> (\<open>vera_lockfree.h\<close>): the queue as functions, with the locale \<open>fifo_queue\<close>, and as atomic steps of any number of producers and one consumer.
  \<^item> \<open>Nex_Engine\<close> (\<open>core/engine.c\<close>): routing, dispatch, the commands of a worker and their replies.  \<open>Nex_Engine_Props\<close> has the runs and the
    order of the commands of a key, \<open>Nex_Engine_Map\<close> the refinement of the whole path from dispatch to the bytes of Segcache to one map.
  \<^item> \<open>Nex_Crdt\<close> (\<open>crdt/crdt.c\<close>): counters, OR-Set and LWW-Register as instances of the locales \<open>state_crdt\<close> and \<open>join_crdt\<close>.
    \<open>Nex_Crdt_Cmd\<close>, \<open>Nex_Crdt_Cmd_Props\<close> (\<open>t_hash.c\<close>): the commands, the images they store, the locale \<open>crdt_callback\<close> of callbacks that respect the kinds of values.
  \<^item> \<open>Nex_Vll\<close> (\<open>core/vll.c\<close>): all-or-nothing locking with backoff; \<open>Nex_Subkey_Ttl\<close> (\<open>core/subkey_ttl.c\<close>): tables of deadlines, an instance of \<open>kv_table\<close>.
  \<^item> \<open>Nex_Persist\<close> (\<open>persistence/persist.c\<close>): a file is its contents with the part that is safely on disk.
  \<^item> \<open>Nex_Sha1\<close>, \<open>Nex_Base64\<close>, \<open>Nex_Websocket\<close>, \<open>Nex_Websocket_Props\<close> (\<open>network/websocket.c\<close>).
  \<^item> \<open>Nex_Quota\<close>, \<open>Nex_Quota_Props\<close>, \<open>Nex_Quota_Rate\<close> (\<open>security/quota.c\<close>).
  \<^item> \<open>Nex_Util\<close>, \<open>Nex_Util_Props\<close> (\<open>util.c\<close>): printing of integers, the portable and the vector parser.
  \<^item> \<open>Nex_Timeseries\<close> (\<open>timeseries/nexts.c\<close>).

  \<^bold>\<open>What is shown.\<close>  Refinement: the engine serves one key-value map, the CRDT commands act as the operations of the data types, the
  tables of quotas and deadlines act as maps, each storage operation acts on a map with expiry.  Invariants of all runs: mutual exclusion of locks, order of
  the queue and of the commands of a key, ownership of every value handed to NexDash, kinds of stored values.  Safety: no command, worker step or operation of
  the NexDash adapter leaves its memory, a crash loses only what was not synced, filters have no false negatives, responses keep their JSON structure.
  Equality of implementations: the vector parser and the portable one, SHA-1 in pieces and at once, replicas that merged the same states in any order.
  Round trips: frames, snapshots, set images, integers.  Termination: lock acquisition and eviction.
  Some theorems show where the code does not do what it means to: limits that are never enforced, a set that fails on an expired key, a callback that reads beyond its block.

  \<^bold>\<open>Bounds and fuel.\<close>  The sizing loops of \<open>vll_create\<close> and \<open>nexdash_create\<close> may run forever for large arguments, so they carry fuel and are \<open>None\<close> without a
  result: 22 rounds suffice for every size up to \<open>2 ^ 31\<close>, and above that no number does.  The key pool doubles at most 32 times before a 32-bit size is reached, so its 33
  rounds are never exhausted; that is part of the proof that insertion returns.  The acquisition loop of \<open>vll_acquire\<close> needs 14 rounds when each pause lasts at least its
  backoff, since the timeout of 10 ms has then passed.  An expiry scan is given one round more than the table has entries, which suffices when no other thread
  changes the table.  Keys and values of the engine are bounded by 65535 bytes, as the Segcache adapter passes lengths in 16 bits.

  \<^bold>\<open>Not modelled.\<close>  The server core of the Redis lineage (event loop, clients, keyspace, data types and encodings, replication, cluster, sentinel, its own append-only file and
  snapshots, modules, scripts, command-line tools): it shares one global state of several hundred fields, and the parts above use little of it: a parser of arguments, which is
  modelled with the CRDT commands, and a hash, which is an argument of the speculative filter.  The hash type of \<open>t_hash.c\<close> and the other utilities of \<open>util.c\<close> belong to it.  Vector search, anomaly
  detection and other statistics compute with floating-point numbers and promise no exact result.  Network backends and exporters are system calls; the allocators appear as
  outcomes of allocation; the cryptographic and compressing parts call libraries or stand in for them.  The rings of \<open>core/scheduler.c\<close> are filled by no code of the engine.
  Weaker memory orders than sequential consistency are not considered: the queue uses the default order of C atomics.
\<close>

end
